(* ===== verification/Prelude.thy ===== *)
theory Prelude
  imports Main "HOL-Library.Word" "HOL-Library.Multiset"
begin

text \<open>
  The prelude of the development: the machine-integer types of the sources, the
  collections of facts the components extend, and the generic lemmas on lists,
  multisets, words and IEEE arithmetic that several components share.
\<close>

section \<open>Machine types\<close>

type_synonym byte = "8 word"
type_synonym u16 = "16 word"
type_synonym u32 = "32 word"
type_synonym u64 = "64 word"

text \<open>Signed C integers are words too; they are compared through \<^term>\<open>sint\<close>.\<close>

type_synonym i32 = "32 word"
type_synonym i64 = "64 word"

abbreviation slt :: "'a::len word \<Rightarrow> 'a word \<Rightarrow> bool" where
  "slt a b \<equiv> sint a < sint b"

abbreviation sle :: "'a::len word \<Rightarrow> 'a word \<Rightarrow> bool" where
  "sle a b \<equiv> sint a \<le> sint b"

section \<open>Collections\<close>

named_theorems wf_intros \<open>an operation keeps the well-formedness of a component\<close>
named_theorems step_simps \<open>defining equations of the steps of a component\<close>

section \<open>Decimal notation\<close>

definition is_digit :: "char \<Rightarrow> bool" where
  "is_digit c \<longleftrightarrow> 48 \<le> (of_char c :: nat) \<and> of_char c \<le> (57 :: nat)"

definition digit_val :: "char \<Rightarrow> nat" where
  "digit_val c = of_char c - 48"

fun digits_val :: "nat \<Rightarrow> string \<Rightarrow> nat" where
  "digits_val acc [] = acc"
| "digits_val acc (c # cs) = digits_val (10 * acc + digit_val c) cs"

text \<open>What \<^verbatim>\<open>printf\<close> makes of an unsigned number.\<close>

fun dec :: "nat \<Rightarrow> string" where
  "dec n = (if n < 10 then [char_of (48 + n)] else dec (n div 10) @ [char_of (48 + n mod 10)])"

declare dec.simps [simp del]

lemma digits_val_append: "digits_val acc (xs @ [c]) = 10 * digits_val acc xs + digit_val c"
  by (induction acc xs rule: digits_val.induct) simp_all

lemma digit_char: "d < 10 \<Longrightarrow> is_digit (char_of (48 + d)) \<and> digit_val (char_of (48 + d)) = d"
  by (simp add: is_digit_def digit_val_def)

lemma dec_nonempty: "dec n \<noteq> []"
  by (subst dec.simps) simp

lemma dec_digits: "list_all is_digit (dec n)"
proof (induction n rule: dec.induct)
  case (1 n)
  then show ?case using digit_char [of n] digit_char [of "n mod 10"] by (subst dec.simps) auto
qed

lemma digits_val_dec: "digits_val 0 (dec n) = n"
proof (induction n rule: dec.induct)
  case (1 n)
  then show ?case using digit_char [of n] digit_char [of "n mod 10"]
    by (subst dec.simps) (auto simp: digits_val_append)
qed

section \<open>Words\<close>

lemma sint_of_nat_i32: "d < 2 ^ 31 \<Longrightarrow> sint (of_nat d :: i32) = int d"
  by (simp add: signed_of_nat signed_take_bit_int_eq_self)

lemma of_nat_i32_eq_0:
  assumes "d < 2 ^ 31"
  shows "(of_nat d :: i32) = 0 \<longleftrightarrow> d = 0"
proof
  assume "(of_nat d :: i32) = 0"
  then have "sint (of_nat d :: i32) = 0" by simp
  with sint_of_nat_i32 [OF assms] show "d = 0" by linarith
qed simp

lemma of_nat_i32_inject: 
  assumes "a < 2 ^ 32" "b < 2 ^ 32" shows "(of_nat a :: i32) = of_nat b \<longleftrightarrow> a = b"
proof -
  have "(of_nat a :: i32) = of_nat b \<longleftrightarrow> a mod 2 ^ 32 = b mod 2 ^ 32"
    by (simp add: word_of_nat_eq_iff take_bit_eq_mod)
  with assms show ?thesis by simp
qed

lemma of_int_eq_0_small:
  assumes "(of_int x :: 'w::len word) = 0" and "\<bar>x\<bar> < 2 ^ LENGTH('w)"
  shows "x = 0"
proof (rule ccontr)
  assume "x \<noteq> 0"
  from assms(1) have "2 ^ LENGTH('w) dvd x"
    by (simp add: word_of_int_eq_0_iff)
  with \<open>x \<noteq> 0\<close> have "2 ^ LENGTH('w) \<le> \<bar>x\<bar>" using dvd_imp_le_int [of x "2 ^ LENGTH('w)"] by simp
  with assms(2) show False by simp
qed

lemma sint_unat_i64:
  fixes w :: i64
  assumes "unat w < 2 ^ 63"
  shows "sint w = int (unat w)"
proof -
  have "int (unat w) < int (2 ^ 63)" using assms by (simp only: of_nat_less_iff)
  then have "uint w < 2 ^ 63" by simp
  moreover have "- (2 ^ 63) \<le> uint w" by (rule order_trans [OF _ uint_ge_0]) simp
  ultimately have "sint w = uint w"
    unfolding sint_uint by (intro signed_take_bit_int_eq_self) simp_all
  then show ?thesis by simp
qed

lemma unat_of_nat_small: "n < 2 ^ LENGTH('a) \<Longrightarrow> unat (of_nat n :: 'a::len word) = n"
  by (simp add: unsigned_of_nat take_bit_nat_eq_self)

lemma ucast_down_add:
  assumes "LENGTH('b) \<le> LENGTH('a)"
  shows "(ucast (x + y :: 'a::len word) :: 'b::len word) = ucast x + ucast y"
proof -
  have t: "take_bit LENGTH('b) (take_bit LENGTH('a) k) = take_bit LENGTH('b) k" for k :: int
    using assms by (simp add: min_absorb1)
  have "take_bit LENGTH('b) (take_bit LENGTH('a) (a + b)) =
      take_bit LENGTH('b) (take_bit LENGTH('a) a + take_bit LENGTH('a) b)" for a b :: int
    by (metis t take_bit_add)
  then show ?thesis by transfer
qed

lemma ucast_down_sub:
  assumes "LENGTH('b) \<le> LENGTH('a)"
  shows "(ucast (x - y :: 'a::len word) :: 'b::len word) = ucast x - ucast y"
  using ucast_down_add [OF assms, of "x - y" y] by simp

lemma ucast_down_up:
  assumes "LENGTH('b) \<le> LENGTH('a)"
  shows "(ucast (ucast (x :: 'b::len word) :: 'a::len word) :: 'b word) = x"
proof -
  have "take_bit LENGTH('b) (take_bit LENGTH('a) (take_bit LENGTH('b) k)) = take_bit LENGTH('b) k" for k :: int
    using assms by (simp add: min_absorb1)
  then show ?thesis by transfer
qed

lemma ucast_down_of_nat:
  assumes "LENGTH('b) \<le> LENGTH('a)"
  shows "(ucast (of_nat k :: 'a::len word) :: 'b::len word) = of_nat k"
proof -
  have "take_bit LENGTH('b) (take_bit LENGTH('a) (int k)) = take_bit LENGTH('b) (int k)" for k :: nat
    using assms by (simp add: min_absorb1)
  then show ?thesis by transfer
qed

lemma map_nth_update_other [simp]:
  assumes "i \<notin> set is"
  shows "map (\<lambda>j. f (xs[i := v] ! j)) is = map (\<lambda>j. f (xs ! j)) is"
proof (rule map_cong [OF refl])
  fix j assume "j \<in> set is" with assms have "i \<noteq> j" by blast
  then show "f (xs[i := v] ! j) = f (xs ! j)" by simp
qed

lemma mset_nth_update_other [simp]:
  "i \<notin> set is \<Longrightarrow> {#f (xs[i := v] ! j). j \<in># mset is#} = {#f (xs ! j). j \<in># mset is#}"
  using map_nth_update_other [of i "is" f xs v] by (metis (no_types, lifting) mset_map)

lemma ucast_eq_of_nat: "ucast (w :: 'a::len word) = (of_nat (unat w) :: 'b::len word)"
  by simp

lemma dvd_Suc_less: "c < N \<Longrightarrow> N dvd Suc c \<longleftrightarrow> Suc c = N"
  by (auto dest: dvd_imp_le)

lemma Suc_add_mod: "Suc (c + n) mod Suc c = n mod Suc c"
  by (metis add_Suc mod_add_self1)

lemma bit_byte: "bit (b :: byte) n \<Longrightarrow> n < 8"
  using bit_imp_le_length [of b n] by simp

section \<open>Double precision: the product 0.9 * n\<close>

text \<open>
  The literal 0.9 is the double \<open>8106479329266893 / 2 ^ 53\<close>. A product of that literal
  with a natural number is the exact product rounded to 53 significant bits (to nearest,
  ties to even); the conversion to an integer type then truncates.
\<close>

fun bit_length :: "nat \<Rightarrow> nat" where
  "bit_length m = (if m = 0 then 0 else Suc (bit_length (m div 2)))"

definition round53 :: "nat \<Rightarrow> nat" where
  "round53 m =
     (let e = bit_length m - 53; q = m div 2 ^ e; r = m mod 2 ^ e
      in (if 2 ^ e < 2 * r \<or> (2 ^ e = 2 * r \<and> odd q) then q + 1 else q) * 2 ^ e)"

definition mul_0_9 :: "nat \<Rightarrow> nat" where
  "mul_0_9 n = round53 (8106479329266893 * n) div 2 ^ 53"

declare bit_length.simps [simp del]

lemma bit_length_le: "m < 2 ^ k \<Longrightarrow> bit_length m \<le> k"
proof (induction k arbitrary: m)
  case 0
  then show ?case by (simp add: bit_length.simps)
next
  case (Suc k)
  then have "m div 2 < 2 ^ k" by (simp add: less_mult_imp_div_less)
  from Suc.IH [OF this] show ?case by (subst bit_length.simps) simp
qed

lemma round53_bounds:
  assumes "bit_length m \<le> 53 + d"
  shows "(m div 2 ^ (bit_length m - 53)) * 2 ^ (bit_length m - 53) \<le> round53 m"
    and "round53 m \<le> m + 2 ^ d"
proof -
  let ?e = "bit_length m - 53"
  show "(m div 2 ^ ?e) * 2 ^ ?e \<le> round53 m"
    by (simp add: round53_def Let_def)
  have e: "?e \<le> d" using assms by simp
  have "round53 m \<le> (m div 2 ^ ?e + 1) * 2 ^ ?e"
    by (simp add: round53_def Let_def)
  also have "\<dots> \<le> m + 2 ^ ?e" by (simp add: algebra_simps)
  also have "\<dots> \<le> m + 2 ^ d" using e by simp
  finally show "round53 m \<le> m + 2 ^ d" .
qed

text \<open>The rounding never shows: the truncated product is the exact \<open>\<lfloor>9 n / 10\<rfloor>\<close>.\<close>

lemma mul_0_9_exact:
  assumes "n < 2 ^ 31"
  shows "mul_0_9 n = 9 * n div 10"
proof -
  let ?m = "8106479329266893 * n"
  let ?e = "bit_length ?m - 53"
  have "?m < 2 ^ 84" using assms by simp
  then have bl: "bit_length ?m \<le> 53 + 31" using bit_length_le [of ?m 84] by simp
  then have e: "?e \<le> 53" by simp
  have lo: "(?m div 2 ^ ?e) * 2 ^ ?e \<le> round53 ?m" and hi: "round53 ?m \<le> ?m + 2 ^ 31"
    using round53_bounds [OF bl] by simp_all
  have "?m div 2 ^ 53 = ?m div (2 ^ ?e * 2 ^ (53 - ?e))"
    using e by (simp flip: power_add)
  also have "\<dots> = (?m div 2 ^ ?e) * 2 ^ ?e div (2 ^ ?e * 2 ^ (53 - ?e))"
    by (simp add: div_mult2_eq)
  also have "\<dots> \<le> round53 ?m div (2 ^ ?e * 2 ^ (53 - ?e))"
    by (rule div_le_mono [OF lo])
  also have "2 ^ ?e * 2 ^ (53 - ?e) = (2::nat) ^ 53"
    using e by (simp flip: power_add)
  finally have "?m div 2 ^ 53 \<le> mul_0_9 n" by (simp add: mul_0_9_def)
  moreover have "mul_0_9 n \<le> (?m + 2 ^ 31) div 2 ^ 53"
    unfolding mul_0_9_def by (rule div_le_mono [OF hi])
  moreover have "?m div 2 ^ 53 = 9 * n div 10" and "(?m + 2 ^ 31) div 2 ^ 53 = 9 * n div 10"
    using assms by simp_all
  ultimately show ?thesis by simp
qed

end
