(* ===== verification/CiLib.thy ===== *)
theory CiLib
  imports Prelude
begin

text \<open>
  The compiler-interrupt runtime, \<^verbatim>\<open>CheapPreemptions/src/ci_lib.c\<close>: the thread-local
  variables as one record, and one definition per API call. A handler pointer is either a
  function of the application (the no-op \<^verbatim>\<open>dummy\<close> or a registered one, named by a
  number) or the file's own \<^verbatim>\<open>interrupt_handler\<close>, which is static and so cannot
  be registered from outside. What an application handler does to the thread-local state is
  not code of the repository: it is the argument \<open>app\<close> of the definitions that call one.
\<close>

section \<open>State\<close>

datatype ci_handler = dummy | user_handler nat

datatype ci_hook = direct ci_handler | interrupt_hook

record ci_state =
  intvActionHook :: ci_hook
  app_handler :: ci_handler
  ci_ir_interval :: u64
  ci_reset_ir_interval :: u64
  ci_cycles_interval :: u64
  ci_cycles_threshold :: u64
  enableHook :: "nat option"
  disableHook :: "nat option"
  LocalLC :: i32
  lc_disabled_count :: i32
  NextInterval :: i64
  LastCycleTS :: i64
  LastIRIncr :: i64
  NumProbes :: i64
  cp_pid :: i32

definition LARGE_INTERVAL :: nat where "LARGE_INTERVAL = 100000"
definition SMALL_INTERVAL :: nat where "SMALL_INTERVAL = 10000"

definition ci_init :: ci_state where
  "ci_init =
     \<lparr> intvActionHook = direct dummy, app_handler = dummy,
       ci_ir_interval = of_nat LARGE_INTERVAL,
       ci_reset_ir_interval = of_nat (LARGE_INTERVAL div 2),
       ci_cycles_interval = of_nat SMALL_INTERVAL,
       ci_cycles_threshold = of_nat (mul_0_9 LARGE_INTERVAL),
       enableHook = None, disableHook = None,
       LocalLC = 0, lc_disabled_count = 0, NextInterval = 0,
       LastCycleTS = 0, LastIRIncr = 0, NumProbes = 0, cp_pid = 1 \<rparr>"

section \<open>Operations\<close>

text \<open>
  The two intervals are C \<^verbatim>\<open>int\<close> parameters; the callers pass non-negative
  values, so they are naturals here, below \<open>2 ^ 31\<close> where a bound matters.
  \<^verbatim>\<open>LocalLC += ci_ir_interval\<close> adds a 64-bit value to an \<^verbatim>\<open>int\<close> and keeps
  the low 32 bits.
\<close>

definition set_intervals :: "nat \<Rightarrow> nat \<Rightarrow> ci_state \<Rightarrow> ci_state" where
  "set_intervals ir_interval cycles_interval s =
     s\<lparr> ci_ir_interval := of_nat ir_interval,
        ci_reset_ir_interval := of_nat (ir_interval div 2),
        ci_cycles_interval := of_nat cycles_interval,
        ci_cycles_threshold := of_nat (mul_0_9 cycles_interval) \<rparr>"

definition register_ci :: "nat \<Rightarrow> nat \<Rightarrow> ci_handler \<Rightarrow> ci_state \<Rightarrow> ci_state" where
  "register_ci ir_interval cycles_interval ci_func s =
     (set_intervals ir_interval cycles_interval
       (s\<lparr> LocalLC := LocalLC s + ucast (ci_ir_interval s) \<rparr>))
     \<lparr> app_handler := ci_func, intvActionHook := interrupt_hook \<rparr>"

definition register_ci_direct :: "nat \<Rightarrow> nat \<Rightarrow> ci_handler \<Rightarrow> ci_state \<Rightarrow> ci_state" where
  "register_ci_direct ir_interval cycles_interval ci_func s =
     (set_intervals ir_interval cycles_interval
       (s\<lparr> LocalLC := LocalLC s + ucast (ci_ir_interval s) \<rparr>))
     \<lparr> intvActionHook := direct ci_func \<rparr>"

definition deregister_ci :: "ci_state \<Rightarrow> ci_state" where
  "deregister_ci s =
     (set_intervals LARGE_INTERVAL LARGE_INTERVAL s)
     \<lparr> app_handler := dummy, intvActionHook := direct dummy \<rparr>"

definition register_ci_disable_hook :: "nat \<Rightarrow> ci_state \<Rightarrow> ci_state" where
  "register_ci_disable_hook h s = s\<lparr> disableHook := Some h \<rparr>"

definition register_ci_enable_hook :: "nat \<Rightarrow> ci_state \<Rightarrow> ci_state" where
  "register_ci_enable_hook h s = s\<lparr> enableHook := Some h \<rparr>"

text \<open>
  The margin hooks are application functions too; \<open>margin\<close> says what each does to the
  thread-local state.
\<close>

definition call_margin :: "(nat \<Rightarrow> ci_state \<Rightarrow> ci_state) \<Rightarrow> nat option \<Rightarrow> ci_state \<Rightarrow> ci_state" where
  "call_margin margin h s = (case h of None \<Rightarrow> s | Some f \<Rightarrow> margin f s)"

definition ci_disable :: "(nat \<Rightarrow> ci_state \<Rightarrow> ci_state) \<Rightarrow> ci_state \<Rightarrow> ci_state" where
  "ci_disable margin s =
     (let s1 = s\<lparr> intvActionHook := direct dummy, lc_disabled_count := lc_disabled_count s + 1 \<rparr>
      in call_margin margin (disableHook s1) s1)"

definition ci_enable :: "(nat \<Rightarrow> ci_state \<Rightarrow> ci_state) \<Rightarrow> ci_state \<Rightarrow> ci_state" where
  "ci_enable margin s =
     (let s1 = (if slt 0 (lc_disabled_count s)
                then s\<lparr> lc_disabled_count := lc_disabled_count s - 1 \<rparr> else s);
          s2 = call_margin margin (enableHook s1) s1
      in if lc_disabled_count s2 = 0 then s2\<lparr> intvActionHook := interrupt_hook \<rparr> else s2)"

text \<open>Calling a handler, and calling through \<^verbatim>\<open>intvActionHook\<close> as every probe does.\<close>

definition call_handler ::
    "(nat \<Rightarrow> i64 \<Rightarrow> ci_state \<Rightarrow> ci_state) \<Rightarrow> ci_handler \<Rightarrow> i64 \<Rightarrow> ci_state \<Rightarrow> ci_state" where
  "call_handler app h ic s = (case h of dummy \<Rightarrow> s | user_handler f \<Rightarrow> app f ic s)"

definition interrupt_handler ::
    "(nat \<Rightarrow> i64 \<Rightarrow> ci_state \<Rightarrow> ci_state) \<Rightarrow> i64 \<Rightarrow> ci_state \<Rightarrow> ci_state" where
  "interrupt_handler app ic s =
     (let s1 = s\<lparr> intvActionHook := direct dummy \<rparr>;
          s2 = call_handler app (app_handler s1) ic s1
      in s2\<lparr> intvActionHook := interrupt_hook \<rparr>)"

definition call_hook ::
    "(nat \<Rightarrow> i64 \<Rightarrow> ci_state \<Rightarrow> ci_state) \<Rightarrow> i64 \<Rightarrow> ci_state \<Rightarrow> ci_state" where
  "call_hook app ic s =
     (case intvActionHook s of direct h \<Rightarrow> call_handler app h ic s
      | interrupt_hook \<Rightarrow> interrupt_handler app ic s)"

text \<open>
  A run of disable and enable calls, and the nesting depth it leaves: an unmatched enable
  is ignored, as the guard of \<^verbatim>\<open>ci_enable\<close> ignores it.
\<close>

datatype ci_op = Disable | Enable

fun run_ci_ops :: "(nat \<Rightarrow> ci_state \<Rightarrow> ci_state) \<Rightarrow> ci_op list \<Rightarrow> ci_state \<Rightarrow> ci_state" where
  "run_ci_ops margin [] s = s"
| "run_ci_ops margin (Disable # ops) s = run_ci_ops margin ops (ci_disable margin s)"
| "run_ci_ops margin (Enable # ops) s = run_ci_ops margin ops (ci_enable margin s)"

fun ci_depth :: "nat \<Rightarrow> ci_op list \<Rightarrow> nat" where
  "ci_depth d [] = d"
| "ci_depth d (Disable # ops) = ci_depth (Suc d) ops"
| "ci_depth d (Enable # ops) = ci_depth (d - 1) ops"

section \<open>Lemmas\<close>

lemmas ci_defs = set_intervals_def register_ci_def register_ci_direct_def deregister_ci_def
  ci_disable_def ci_enable_def call_margin_def call_handler_def interrupt_handler_def
  call_hook_def

lemma unat_threshold:
  assumes "c < 2 ^ 31"
  shows "unat (of_nat (mul_0_9 c) :: u64) = 9 * c div 10"
  using assms by (simp add: mul_0_9_exact unat_of_nat take_bit_nat_eq_self_iff)

text \<open>What the proofs about margin hooks need of them: that they leave the hook pointer and
  the disable count alone.\<close>

definition margin_neutral :: "(nat \<Rightarrow> ci_state \<Rightarrow> ci_state) \<Rightarrow> bool" where
  "margin_neutral margin \<longleftrightarrow>
     (\<forall>h s. intvActionHook (margin h s) = intvActionHook s \<and>
            lc_disabled_count (margin h s) = lc_disabled_count s)"

definition ci_nesting :: "nat \<Rightarrow> ci_state \<Rightarrow> bool" where
  "ci_nesting d s \<longleftrightarrow>
     lc_disabled_count s = of_nat d \<and>
     intvActionHook s = (if d = 0 then interrupt_hook else direct dummy)"

lemma call_margin_neutral [simp]:
  assumes "margin_neutral margin"
  shows "intvActionHook (call_margin margin h s) = intvActionHook s"
    and "lc_disabled_count (call_margin margin h s) = lc_disabled_count s"
  using assms by (auto simp: margin_neutral_def call_margin_def split: option.split)

lemma ci_disable_nesting [wf_intros]:
  assumes "margin_neutral margin" and "ci_nesting d s"
  shows "ci_nesting (Suc d) (ci_disable margin s)"
  using assms by (simp add: ci_nesting_def ci_disable_def Let_def)

lemma ci_enable_nesting [wf_intros]:
  assumes "margin_neutral margin" and "ci_nesting d s" and "d < 2 ^ 31"
  shows "ci_nesting (d - 1) (ci_enable margin s)"
proof -
  have cnt: "lc_disabled_count s = of_nat d" using assms(2) by (simp add: ci_nesting_def)
  have pos: "slt 0 (lc_disabled_count s) \<longleftrightarrow> 0 < d"
    unfolding cnt sint_of_nat_i32 [OF assms(3)] by simp
  have pred: "0 < d \<Longrightarrow> (of_nat d - 1 :: i32) = of_nat (d - 1)" by simp
  have zero: "(of_nat (d - 1) :: i32) = 0 \<longleftrightarrow> d - 1 = 0"
    by (rule of_nat_i32_eq_0) (use assms(3) in linarith)
  show ?thesis
    using assms(1,2) zero unfolding ci_nesting_def ci_enable_def Let_def pos
    by (cases "0 < d") (simp_all add: pred del: of_nat_diff)
qed

lemma run_ci_ops_nesting:
  assumes "margin_neutral margin" and "ci_nesting d s" and "d + length ops < 2 ^ 31"
  shows "ci_nesting (ci_depth d ops) (run_ci_ops margin ops s)"
  using assms(2,3)
proof (induction d ops arbitrary: s rule: ci_depth.induct)
  case (1 d)
  then show ?case by simp
next
  case (2 d ops)
  have "ci_nesting (Suc d) (ci_disable margin s)"
    by (rule ci_disable_nesting [OF assms(1) "2.prems"(1)])
  from "2.IH" [OF this] "2.prems"(2) show ?case by simp
next
  case (3 d ops)
  have "d < 2 ^ 31" using "3.prems"(2) by linarith
  from "3.IH" [OF ci_enable_nesting [OF assms(1) "3.prems"(1) this]] "3.prems"(2)
  show ?case by simp
qed

section \<open>Properties\<close>

text \<open>
  C19. Disabling nests: from a registered, enabled state, after any sequence of
  \<^verbatim>\<open>ci_disable\<close> and \<^verbatim>\<open>ci_enable\<close> calls (shorter than \<open>2 ^ 31\<close>, with margin
  hooks that leave the hook pointer and the count alone) the interrupt hook is armed exactly
  when every disable has been matched, the count is the number of unmatched disables, and
  otherwise the hook is the no-op.
\<close>

theorem ci_disable_nests:
  assumes "margin_neutral margin"
    and "intvActionHook s = interrupt_hook" and "lc_disabled_count s = 0"
    and "length ops < 2 ^ 31"
  shows "lc_disabled_count (run_ci_ops margin ops s) = of_nat (ci_depth 0 ops) \<and>
         intvActionHook (run_ci_ops margin ops s) =
           (if ci_depth 0 ops = 0 then interrupt_hook else direct dummy)"
proof -
  have "ci_nesting 0 s" using assms by (simp add: ci_nesting_def)
  from run_ci_ops_nesting [OF assms(1) this] assms(4)
  have "ci_nesting (ci_depth 0 ops) (run_ci_ops margin ops s)" by simp
  then show ?thesis by (simp add: ci_nesting_def)
qed

theorem ci_disable_nests_witness:
  "intvActionHook (run_ci_ops (\<lambda>_. id) [Disable, Disable, Enable]
     (register_ci 1000 5000 (user_handler 0) ci_init)) = direct dummy"
proof -
  have "margin_neutral (\<lambda>_. id)" by (simp add: margin_neutral_def)
  moreover have "intvActionHook (register_ci 1000 5000 (user_handler 0) ci_init) = interrupt_hook"
    and "lc_disabled_count (register_ci 1000 5000 (user_handler 0) ci_init) = 0"
    by (simp_all add: register_ci_def set_intervals_def ci_init_def)
  moreover have "length [Disable, Disable, Enable] < 2 ^ 31" by simp
  ultimately show ?thesis by (subst ci_disable_nests [THEN conjunct2]) simp_all
qed

end
