(* ===== verification/Probe.thy ===== *)
theory Probe
  imports CiLib
begin

text \<open>
  The run-time behaviour of the code that the pass inserts
  (\<^verbatim>\<open>CheapPreemptions/src/CheapPreemption.cpp\<close>): the cycle probe of
  \<^verbatim>\<open>insertCycleProbe\<close> and \<^verbatim>\<open>pushToMLCfromTLLC\<close>, and the two loop probes of
  \<^verbatim>\<open>insertLoopProbe\<close>, one on a private iteration counter and one on the loop's own
  induction variable. Each definition computes what one execution of the emitted
  instructions does; the widths are those of the emitted loads, adds and compares.
\<close>

section \<open>Cycle probe\<close>

type_synonym ci_app = "nat \<Rightarrow> i64 \<Rightarrow> ci_state \<Rightarrow> ci_state"

text \<open>
  \<open>will_update\<close> is the pass option \<^verbatim>\<open>WillUpdateLastCycleTS\<close>; \<open>later\<close> is the
  cycle counter as the second \<^verbatim>\<open>readcyclecounter\<close> reads it, after the handler.
\<close>

definition pushToMLCfromTLLC ::
    "bool \<Rightarrow> ci_app \<Rightarrow> i64 \<Rightarrow> i64 \<Rightarrow> i64 \<Rightarrow> ci_state \<Rightarrow> ci_state" where
  "pushToMLCfromTLLC will_update app currTSC loadedLC later s =
     (let s1 = (if \<not> will_update then s\<lparr> LastCycleTS := currTSC \<rparr> else s);
          s2 = call_hook app loadedLC s1
      in if will_update then s2\<lparr> LastCycleTS := later \<rparr> else s2)"

definition probe_fires :: "i64 \<Rightarrow> ci_state \<Rightarrow> bool" where
  "probe_fires now s = slt (ci_cycles_threshold s) (now - LastCycleTS s)"

definition insertCycleProbe :: "bool \<Rightarrow> ci_app \<Rightarrow> i64 \<Rightarrow> i64 \<Rightarrow> ci_state \<Rightarrow> ci_state" where
  "insertCycleProbe will_update app now later s =
     (if probe_fires now s
      then pushToMLCfromTLLC will_update app now (now - LastCycleTS s) later s
      else s)"

text \<open>
  A job that executes cycle probes from the moment \<open>clock\<close> on. Before each probe it runs
  for \<open>gap\<close> cycles; if the probe calls the hook, \<open>away\<close> cycles pass until the hook
  returns, in which the worker runs other jobs. The result says, for every probe, which
  elapsed time the hook was called with, if it was called.
\<close>

fun run_cycle_probes ::
    "bool \<Rightarrow> ci_app \<Rightarrow> i64 \<Rightarrow> (i64 \<times> i64) list \<Rightarrow> ci_state \<Rightarrow> i64 option list \<times> ci_state" where
  "run_cycle_probes will_update app clock [] s = ([], s)"
| "run_cycle_probes will_update app clock ((gap, away) # es) s =
     (let now = clock + gap; fired = probe_fires now s;
          s1 = insertCycleProbe will_update app now (now + away) s;
          (ys, s2) = run_cycle_probes will_update app (if fired then now + away else now) es s1
      in ((if fired then Some (now - LastCycleTS s) else None) # ys, s2))"

section \<open>Loop probes\<close>

text \<open>
  The counter version: load, add 1, store, compare with \<^verbatim>\<open>NumIters\<close>; the probe that it
  guards first stores 0 back. The result is the counter and whether the cycle probe elapsed.
\<close>

definition loop_probe_count :: "i32 \<Rightarrow> i32 \<Rightarrow> i32 \<times> bool" where
  "loop_probe_count NumIters LoopIterations =
     (let Inc = LoopIterations + 1
      in if Inc = NumIters then (0, True) else (Inc, False))"

text \<open>
  The constants of the induction-variable version. \<^verbatim>\<open>NumIters\<close>, \<^verbatim>\<open>StepValue\<close>
  and their product are C \<^verbatim>\<open>int\<close>s of the pass; a constant of the program is narrowed to
  one (\<^verbatim>\<open>int StepVal = StepCI->getSExtValue()\<close>), and \<^verbatim>\<open>getConstInteger\<close> emits an
  \<^verbatim>\<open>int\<close> at the width of the induction variable (8, 16, 32 or 64).
\<close>

definition getSExtInt :: "'w::len word \<Rightarrow> i32" where
  "getSExtInt c = of_int (sint c)"

definition getConstInteger :: "i32 \<Rightarrow> 'w::len word" where
  "getConstInteger ConstValue = of_int (sint ConstValue)"

text \<open>
  On the back edge the value of the step instruction is compared with a threshold, which is
  advanced by \<^verbatim>\<open>NumIters * StepValue\<close> when it is met.
\<close>

definition loop_probe_ind :: "i32 \<Rightarrow> i32 \<Rightarrow> 'w::len word \<Rightarrow> 'w word \<Rightarrow> 'w word \<times> bool" where
  "loop_probe_ind NumIters StepValue StepInst LoopThreshold =
     (if StepInst = LoopThreshold
      then (LoopThreshold + getConstInteger (NumIters * StepValue), True)
      else (LoopThreshold, False))"

text \<open>
  The preheader code. A constant initial value goes through a C \<^verbatim>\<open>int\<close>; a computed one
  is used as it is.
\<close>

datatype 'a initial_value = ConstantInt (iv_start: 'a) | Computed (iv_start: 'a)

definition initial_threshold :: "i32 \<Rightarrow> i32 \<Rightarrow> 'w::len word initial_value \<Rightarrow> 'w word" where
  "initial_threshold NumIters StepValue InitialValue =
     (case InitialValue of
        ConstantInt v \<Rightarrow> getConstInteger (getSExtInt v + NumIters * StepValue)
      | Computed v \<Rightarrow> v + getConstInteger (NumIters * StepValue))"

text \<open>
  In a nested loop the threshold restarts from the steps left over: \<^verbatim>\<open>ResidualSteps\<close> is
  set to a whole stride at the entry of the function, and every exit block saves what is
  left, except in a self loop (\<^verbatim>\<open>LatchBB == HeaderBB\<close>).
\<close>

definition initial_residual :: "i32 \<Rightarrow> i32 \<Rightarrow> 'w::len word" where
  "initial_residual NumIters StepValue = getConstInteger (NumIters * StepValue)"

definition nested_threshold :: "'w::len word \<Rightarrow> 'w word initial_value \<Rightarrow> 'w word" where
  "nested_threshold ResidualSteps InitialValue =
     (case InitialValue of
        ConstantInt v \<Rightarrow> ResidualSteps + getConstInteger (getSExtInt v)
      | Computed v \<Rightarrow> ResidualSteps + v)"

definition residual_at_exit :: "'w::len word \<Rightarrow> 'w word \<Rightarrow> 'w word" where
  "residual_at_exit LoopThreshold IndVar = LoopThreshold - IndVar"

text \<open>
  Runs over \<open>n\<close> traversals of the back edge. The loop adds \<open>step\<close> to its induction
  variable on each; the pass only knows \<open>step\<close> narrowed to \<^verbatim>\<open>StepValue\<close>.
\<close>

fun run_count :: "i32 \<Rightarrow> nat \<Rightarrow> i32 \<Rightarrow> i32 \<times> bool list" where
  "run_count N 0 c = (c, [])"
| "run_count N (Suc n) c =
     (let (c1, b) = loop_probe_count N c; (c2, bs) = run_count N n c1 in (c2, b # bs))"

fun run_ind ::
    "i32 \<Rightarrow> i32 \<Rightarrow> 'w::len word \<Rightarrow> nat \<Rightarrow> 'w word \<Rightarrow> 'w word \<Rightarrow> 'w word \<times> 'w word \<times> bool list" where
  "run_ind N StepValue step 0 iv thr = (iv, thr, [])"
| "run_ind N StepValue step (Suc n) iv thr =
     (let StepInst = iv + step; (thr1, b) = loop_probe_ind N StepValue StepInst thr;
          (iv2, thr2, bs) = run_ind N StepValue step n StepInst thr1
      in (iv2, thr2, b # bs))"

text \<open>
  Several entries of the loop within one call of the function, each with its initial value
  and number of traversals. The counter is reset in the preheader, or, in a nested loop, only
  at the entry of the function.
\<close>

fun run_count_entries :: "bool \<Rightarrow> i32 \<Rightarrow> nat list \<Rightarrow> i32 \<Rightarrow> bool list" where
  "run_count_entries IsNested N [] c = []"
| "run_count_entries IsNested N (n # ns) c =
     (let (c1, bs) = run_count N n (if IsNested then c else 0)
      in bs @ run_count_entries IsNested N ns c1)"

fun run_ind_entries ::
    "bool \<Rightarrow> bool \<Rightarrow> i32 \<Rightarrow> 'w::len word \<Rightarrow> ('w word initial_value \<times> nat) list \<Rightarrow> 'w word \<Rightarrow>
     bool list" where
  "run_ind_entries IsNested self_loop N step [] res = []"
| "run_ind_entries IsNested self_loop N step ((ini, n) # es) res =
     (let StepValue = getSExtInt step;
          thr0 = (if IsNested then nested_threshold res ini else initial_threshold N StepValue ini);
          (iv, thr, bs) = run_ind N StepValue step n (iv_start ini) thr0;
          res1 = (if IsNested \<and> \<not> self_loop then residual_at_exit thr iv else res)
      in bs @ run_ind_entries IsNested self_loop N step es res1)"





text \<open>The reference: the cycle probe runs on every \<open>N\<close>-th traversal.\<close>

definition every_nth :: "nat \<Rightarrow> nat \<Rightarrow> bool list" where
  "every_nth N n = map (\<lambda>k. N dvd k) [1..<Suc n]"

text \<open>
  Notions the statements use: the traversals after \<open>c\<close> earlier ones that run the probe;
  the values that a C \<^verbatim>\<open>int\<close> holds; loops whose stride is computed without signed
  overflow and does not wrap around the width of the variable; initial values that the
  preheader code computes with.
\<close>

definition fires :: "nat \<Rightarrow> nat \<Rightarrow> nat \<Rightarrow> bool list" where
  "fires N c n = map (\<lambda>k. N dvd c + k) [1..<Suc n]"

definition fits_int :: "int \<Rightarrow> bool" where
  "fits_int x \<longleftrightarrow> - (2 ^ 31) \<le> x \<and> x < 2 ^ 31"

definition stride_fits :: "i32 \<Rightarrow> 'w::len word \<Rightarrow> bool" where
  "stride_fits N step \<longleftrightarrow> fits_int (sint step) \<and> fits_int (sint N * sint step) \<and>
     \<bar>sint N * sint step\<bar> < 2 ^ LENGTH('w)"

definition initial_fits :: "bool \<Rightarrow> i32 \<Rightarrow> 'w::len word \<Rightarrow> 'w word initial_value \<Rightarrow> bool" where
  "initial_fits IsNested N step ini =
     (case ini of
        ConstantInt v \<Rightarrow> fits_int (sint v) \<and> (IsNested \<or> fits_int (sint v + sint N * sint step))
      | Computed v \<Rightarrow> True)"

text \<open>
  A handler that leaves the threshold alone; for every probe, how long the job has run since
  it last came back from a yield, together with what the probe did.
\<close>

definition app_keeps_threshold :: "ci_app \<Rightarrow> bool" where
  "app_keeps_threshold app \<longleftrightarrow>
     (\<forall>f ic s. ci_cycles_threshold (app f ic s) = ci_cycles_threshold s)"

fun stretches :: "nat \<Rightarrow> nat list \<Rightarrow> 'a option list \<Rightarrow> (nat \<times> 'a option) list" where
  "stretches elapsed (g # gs) (y # ys) =
     (elapsed + g, y) # stretches (if y = None then elapsed + g else 0) gs ys"
| "stretches elapsed _ _ = []"

section \<open>Lemmas\<close>

lemma fires_0 [simp]: "fires N c 0 = []"
  by (simp add: fires_def)

lemma fires_Suc [simp]: "fires N c (Suc n) = (N dvd Suc c) # fires N (Suc c) n"
proof -
  have "map (\<lambda>k. N dvd c + k) (1 # map Suc [1..<Suc n]) =
          (N dvd Suc c) # map (\<lambda>k. N dvd Suc c + k) [1..<Suc n]"
    by (simp del: upt_Suc)
  moreover have "1 # map Suc [1..<Suc n] = [1..<Suc (Suc n)]"
    unfolding map_Suc_upt by (subst (2) upt_rec) (simp del: upt_Suc)
  ultimately show ?thesis by (simp only: fires_def)
qed

lemma fires_mod: "fires N (c mod N) n = fires N c n"
  by (simp add: fires_def dvd_eq_mod_eq_0 mod_add_left_eq)

lemma fires_append: "fires N c (m + n) = fires N c m @ fires N (c + m) n"
proof (induction m arbitrary: c)
  case (Suc m)
  show ?case using Suc.IH [of "Suc c"] by simp
qed simp

lemma run_count_fires:
  assumes "c < N" and "N < 2 ^ 32"
  shows "run_count (of_nat N) n (of_nat c) = (of_nat ((c + n) mod N), fires N c n)"
  using assms(1)
proof (induction n arbitrary: c)
  case (Suc n)
  have inj: "(of_nat (Suc c) :: i32) = of_nat N \<longleftrightarrow> Suc c = N"
    by (rule of_nat_i32_inject) (use Suc.prems assms(2) in simp_all)
  show ?case
  proof (cases "Suc c = N")
    case True
    have "fires N 0 n = fires N N n" using fires_mod [of N N n] by simp
    moreover have "(c + Suc n) mod N = n mod N" using True Suc_add_mod [of c n] by auto
    ultimately show ?thesis using True Suc.IH [of 0] Suc.prems
      by (auto simp: loop_probe_count_def Let_def)
  next
    case False
    then have lt: "Suc c < N" using Suc.prems by simp
    have ne: "(of_nat c + 1 :: i32) \<noteq> of_nat N" using False inj by (simp add: add.commute)
    show ?thesis using False lt Suc.IH [OF lt] ne
      by (simp add: loop_probe_count_def Let_def dvd_Suc_less Suc.prems add.commute)
  qed
qed simp

lemma run_ind_fires:
  fixes iv step :: "'w::len word"
  assumes "c < N" and "st \<noteq> 0" and "int N * \<bar>st\<bar> < 2 ^ LENGTH('w)" and step: "step = of_int st"
    and stride: "(getConstInteger (M * sv) :: 'w word) = of_int (int N * st)"
  shows "run_ind M sv step n iv (iv + of_int (int (N - c) * st)) =
           (iv + of_int (int n * st),
            iv + of_int (int n * st) + of_int (int (N - (c + n) mod N) * st),
            fires N c n)"
  using assms(1)
proof (induction n arbitrary: c iv)
  case (Suc n)
  have met: "iv + of_int st = iv + of_int (int (N - c) * st) \<longleftrightarrow> Suc c = N"
  proof
    assume "iv + of_int st = iv + of_int (int (N - c) * st)"
    then have "(of_int ((int (N - c) - 1) * st) :: 'w word) = 0"
      by (simp add: algebra_simps)
    moreover have "\<bar>(int (N - c) - 1) * st\<bar> < 2 ^ LENGTH('w)"
    proof -
      have "\<bar>(int (N - c) - 1) * st\<bar> \<le> int N * \<bar>st\<bar>"
        using Suc.prems by (simp add: abs_mult mult_right_mono)
      with assms(3) show ?thesis by linarith
    qed
    ultimately have "(int (N - c) - 1) * st = 0" by (rule of_int_eq_0_small)
    with assms(2) Suc.prems show "Suc c = N" by auto
  next
    assume "Suc c = N"
    then have "N - c = 1" by auto
    then show "iv + of_int st = iv + of_int (int (N - c) * st)" by simp
  qed
  show ?case
  proof (cases "Suc c = N")
    case True
    have f: "fires N 0 n = fires N N n" using fires_mod [of N N n] by simp
    have 0: "0 < N" using Suc.prems by simp
    note m = Suc_add_mod [of c n]
    show ?thesis
      using True f m Suc.IH [OF 0, of "iv + of_int st"]
      by (simp add: loop_probe_ind_def Let_def stride step algebra_simps flip: True)
  next
    case False
    then have lt: "Suc c < N" using Suc.prems by simp
    have t: "iv + of_int (int (N - c) * st) = iv + of_int st + of_int (int (N - Suc c) * st)"
      using lt by (simp add: algebra_simps of_nat_diff)
    show ?thesis using False met lt Suc.IH [OF lt, of "iv + of_int st"]
      by (simp add: loop_probe_ind_def Let_def step dvd_Suc_less Suc.prems t)(simp add: algebra_simps)
  qed
qed simp

text \<open>The constants, under the conditions that no C \<^verbatim>\<open>int\<close> overflows.\<close>

lemma sint_of_int_fits: "fits_int x \<Longrightarrow> sint (of_int x :: i32) = x"
  by (simp add: fits_int_def signed_of_int signed_take_bit_int_eq_self)

lemma sint_i32_mult: "fits_int (sint a * sint b) \<Longrightarrow> sint (a * b :: i32) = sint a * sint b"
  using sint_of_int_fits [of "sint a * sint b"] by simp

lemma sint_i32_add: "fits_int (sint a + sint b) \<Longrightarrow> sint (a + b :: i32) = sint a + sint b"
  using sint_of_int_fits [of "sint a + sint b"] by simp

lemma getSExtInt_fits: "fits_int (sint c) \<Longrightarrow> sint (getSExtInt c) = sint c"
  unfolding getSExtInt_def by (rule sint_of_int_fits)

lemma getConstInteger_getSExtInt: "fits_int (sint c) \<Longrightarrow> getConstInteger (getSExtInt c) = c"
  by (simp add: getConstInteger_def getSExtInt_fits)

lemma stride_value:
  fixes step :: "'w::len word"
  assumes "stride_fits N step"
  shows "sint (N * getSExtInt step) = sint N * sint step"
    and "(getConstInteger (N * getSExtInt step) :: 'w word) = of_int (sint N * sint step)"
proof -
  show eq: "sint (N * getSExtInt step) = sint N * sint step"
    using assms by (simp add: stride_fits_def sint_i32_mult getSExtInt_fits)
  then show "(getConstInteger (N * getSExtInt step) :: 'w word) = of_int (sint N * sint step)"
    unfolding getConstInteger_def by (simp only: eq)
qed

lemma initial_threshold_value:
  fixes step :: "'w::len word"
  assumes "stride_fits N step" and "initial_fits False N step ini"
  shows "initial_threshold N (getSExtInt step) ini = iv_start ini + of_int (sint N * sint step)"
proof (cases ini)
  case (ConstantInt v)
  then have fits: "fits_int (sint v)" "fits_int (sint v + sint N * sint step)"
    using assms(2) by (simp_all add: initial_fits_def)
  have "sint (getSExtInt v + N * getSExtInt step) = sint v + sint N * sint step"
    using sint_i32_add [of "getSExtInt v" "N * getSExtInt step"] fits
    by (simp add: stride_value [OF assms(1)] getSExtInt_fits)
  then show ?thesis by (simp add: ConstantInt initial_threshold_def getConstInteger_def)
next
  case (Computed v)
  then show ?thesis by (simp add: initial_threshold_def stride_value [OF assms(1)])
qed

lemma nested_threshold_value:
  "initial_fits True N step ini \<Longrightarrow> nested_threshold res ini = iv_start ini + res"
  by (cases ini) (simp_all add: nested_threshold_def initial_fits_def getConstInteger_getSExtInt)

lemma run_ind_entry:
  fixes step :: "'w::len word"
  assumes "stride_fits N step" and "0 < sint N" and "step \<noteq> 0" and "c < nat (sint N)"
  shows "run_ind N (getSExtInt step) step n iv
             (iv + of_int (int (nat (sint N) - c) * sint step)) =
           (iv + of_int (int n * sint step),
            iv + of_int (int n * sint step) +
              of_int (int (nat (sint N) - (c + n) mod nat (sint N)) * sint step),
            fires (nat (sint N)) c n)"
proof (rule run_ind_fires)
  show "int (nat (sint N)) * \<bar>sint step\<bar> < 2 ^ LENGTH('w)"
    using assms(1,2) by (simp add: stride_fits_def abs_mult)
  show "(getConstInteger (N * getSExtInt step) :: 'w word) = of_int (int (nat (sint N)) * sint step)"
    using stride_value(2) [OF assms(1)] assms(2) by simp
  show "sint step \<noteq> 0" using assms(3) by (simp add: signed_eq_0_iff)
qed (use assms in simp_all)

lemma run_ind_entries_restart:
  fixes step :: "'w::len word"
  assumes "stride_fits N step" and "0 < sint N" and "step \<noteq> 0"
    and "list_all (\<lambda>(ini, n). initial_fits IsNested N step ini) es"
    and "IsNested \<Longrightarrow> self_loop \<and> res = initial_residual N (getSExtInt step)"
  shows "run_ind_entries IsNested self_loop N step es res =
           concat (map (\<lambda>(ini, n). fires (nat (sint N)) 0 n) es)"
  using assms(4,5)
proof (induction es arbitrary: res)
  case (Cons e es)
  obtain ini n where e: "e = (ini, n)" by (cases e)
  have ini: "initial_fits IsNested N step ini" using Cons.prems(1) e by simp
  have thr: "(if IsNested then nested_threshold res ini
              else initial_threshold N (getSExtInt step) ini) =
             iv_start ini + of_int (int (nat (sint N) - 0) * sint step)"
    using ini Cons.prems(2) assms(1,2)
    by (cases IsNested) (simp_all add: nested_threshold_value initial_threshold_value
          initial_residual_def stride_value)
  have lt: "0 < nat (sint N)" using assms(2) by simp
  have es: "run_ind_entries IsNested self_loop N step es (if IsNested \<and> \<not> self_loop then r else res) =
              concat (map (\<lambda>(ini, n). fires (nat (sint N)) 0 n) es)" for r
    by (rule Cons.IH) (use Cons.prems in \<open>simp_all add: e\<close>)
  show ?case
    unfolding e run_ind_entries.simps Let_def thr run_ind_entry [OF assms(1-3) lt] prod.case es
    by simp
qed simp

lemma run_ind_entries_fires:
  fixes step :: "'w::len word"
  assumes "stride_fits N step" and "0 < sint N" and "step \<noteq> 0" and "c < nat (sint N)"
    and "list_all (\<lambda>(ini, n). initial_fits True N step ini) es"
  shows "run_ind_entries True False N step es (of_int (int (nat (sint N) - c) * sint step)) =
           fires (nat (sint N)) c (sum_list (map snd es))"
  using assms(4,5)
proof (induction es arbitrary: c)
  case (Cons e es)
  obtain ini n where e: "e = (ini, n)" by (cases e)
  have ini: "initial_fits True N step ini" using Cons.prems(2) e by simp
  have lt: "(c + n) mod nat (sint N) < nat (sint N)" using assms(2) by simp
  have "fires (nat (sint N)) ((c + n) mod nat (sint N)) = fires (nat (sint N)) (c + n)"
    by (rule ext) (rule fires_mod)
  then show ?case
    using Cons.IH [OF lt] Cons.prems(2)
    by (simp add: e nested_threshold_value [OF ini] run_ind_entry [OF assms(1-3) Cons.prems(1)]
          residual_at_exit_def fires_append Let_def del: of_int_mult of_int_of_nat_eq)
qed simp

text \<open>The counter, over several entries.\<close>

lemma run_count_fires_i32:
  assumes "0 < sint N" and "c < nat (sint N)"
  shows "run_count N n (of_nat c) = (of_nat ((c + n) mod nat (sint N)), fires (nat (sint N)) c n)"
proof -
  have "sint N < 2 ^ 31" using sint_lt [of N] by simp
  then have "nat (sint N) < 2 ^ 32" by simp
  moreover have "(of_nat (nat (sint N)) :: i32) = N" using assms(1) by (simp add: of_nat_nat)
  ultimately show ?thesis using run_count_fires [OF assms(2), of n] by simp
qed

lemma run_count_entries_restart:
  assumes "0 < sint N"
  shows "run_count_entries False N ns c = concat (map (fires (nat (sint N)) 0) ns)"
proof (induction ns arbitrary: c)
  case (Cons n ns)
  then show ?case using run_count_fires_i32 [OF assms, of 0 n] assms by simp
qed simp

lemma run_count_entries_fires:
  assumes "0 < sint N" and "c < nat (sint N)"
  shows "run_count_entries True N ns (of_nat c) = fires (nat (sint N)) c (sum_list ns)"
  using assms(2)
proof (induction ns arbitrary: c)
  case (Cons n ns)
  have lt: "(c + n) mod nat (sint N) < nat (sint N)" using assms(1) by simp
  have "fires (nat (sint N)) ((c + n) mod nat (sint N)) = fires (nat (sint N)) (c + n)"
    by (rule ext) (rule fires_mod)
  then show ?case
    using Cons.IH [OF lt] by (simp add: run_count_fires_i32 [OF assms(1) Cons.prems] fires_append)
qed simp

lemma fires_every_nth: "fires N 0 n = every_nth N n"
  by (simp add: fires_def every_nth_def)






text \<open>The probe clock.\<close>

lemma call_hook_threshold [simp]:
  "app_keeps_threshold app \<Longrightarrow> ci_cycles_threshold (call_hook app ic s) = ci_cycles_threshold s"
  by (auto simp: app_keeps_threshold_def ci_defs Let_def split: ci_hook.split ci_handler.split)

lemma probe_fires_unat:
  assumes "unat (LastCycleTS s) \<le> unat now" and "unat now < 2 ^ 63"
    and "unat (ci_cycles_threshold s) < 2 ^ 63"
  shows "probe_fires now s \<longleftrightarrow> unat (LastCycleTS s) + unat (ci_cycles_threshold s) < unat now"
proof -
  note sint = sint_unat_i64
  have sub: "unat (now - LastCycleTS s) = unat now - unat (LastCycleTS s)"
    using assms(1) by (simp add: unat_sub word_le_nat_alt)
  have "sint (now - LastCycleTS s) = int (unat now - unat (LastCycleTS s))"
    using sint [of "now - LastCycleTS s"] sub assms(2) by simp
  then show ?thesis
    unfolding probe_fires_def sint [OF assms(3)] using assms(1) by linarith
qed

lemma run_cycle_probes_Cons:
  "fst (run_cycle_probes u app clock ((gap, away) # es) s) =
     (if probe_fires (clock + gap) s then Some (clock + gap - LastCycleTS s) else None) #
       fst (run_cycle_probes u app
              (if probe_fires (clock + gap) s then clock + gap + away else clock + gap) es
              (insertCycleProbe u app (clock + gap) (clock + gap + away) s))"
  by (simp add: Let_def case_prod_beta)

lemma unat_add_i64: "unat a + unat b < 2 ^ 63 \<Longrightarrow> unat (a + b :: i64) = unat a + unat b"
  by (simp add: unat_add_lem [THEN iffD1])

lemma run_cycle_probes_stretches:
  assumes "app_keeps_threshold app"
    and "thr = unat (ci_cycles_threshold s)" and "thr < 2 ^ 63"
    and "unat (LastCycleTS s) + elapsed = unat clock" and "elapsed \<le> thr"
    and "list_all (\<lambda>(gap, away). unat gap \<le> g) es"
    and "unat clock + sum_list (map (\<lambda>(gap, away). unat gap + unat away) es) < 2 ^ 63"
  shows "length (fst (run_cycle_probes True app clock es s)) = length es \<and>
         list_all (\<lambda>(r, y). y = (if thr < r then Some (of_nat r) else None) \<and> r \<le> thr + g)
           (stretches elapsed (map (unat \<circ> fst) es) (fst (run_cycle_probes True app clock es s)))"
  using assms(2-)
proof (induction es arbitrary: s elapsed clock)
  case Nil
  then show ?case by simp
next
  case (Cons e es)
  obtain gap away where e: "e = (gap, away)" by (cases e)
  note prems = Cons.prems
  define now where "now = clock + gap"
  have sums: "unat clock + unat gap + unat away +
                sum_list (map (\<lambda>(gap, away). unat gap + unat away) es) < 2 ^ 63"
    using prems(6) by (simp add: e)
  have now: "unat now = unat (LastCycleTS s) + (elapsed + unat gap)"
    unfolding now_def using unat_add_i64 [of clock gap] sums prems(3) by simp
  have bound: "unat now < 2 ^ 63" using now sums prems(3) by linarith
  have fires: "probe_fires now s \<longleftrightarrow> thr < elapsed + unat gap"
    using probe_fires_unat [of s now] now bound prems(1,2) by simp
  have diff: "now - LastCycleTS s = of_nat (elapsed + unat gap)"
    using arg_cong [OF now, of "of_nat :: nat \<Rightarrow> i64"] by simp
  have gap: "elapsed + unat gap \<le> thr + g" and rest: "list_all (\<lambda>(gap, away). unat gap \<le> g) es"
    using prems(4,5) by (simp_all add: e)
  show ?case
  proof (cases "probe_fires now s")
    case True
    let ?s = "insertCycleProbe True app now (now + away) s"
    have s: "LastCycleTS ?s = now + away" "ci_cycles_threshold ?s = ci_cycles_threshold s"
      using True assms(1) by (simp_all add: insertCycleProbe_def pushToMLCfromTLLC_def Let_def)
    have later: "unat (now + away) = unat now + unat away"
      by (rule unat_add_i64) (use now sums prems(3) in linarith)
    have "unat (now + away) + sum_list (map (\<lambda>(gap, away). unat gap + unat away) es) < 2 ^ 63"
      using later now sums prems(3) by linarith
    note IH = Cons.IH [of ?s 0 "now + away", OF _ prems(2) _ _ rest this]
    have "fst (run_cycle_probes True app clock (e # es) s) =
            Some (of_nat (elapsed + unat gap)) # fst (run_cycle_probes True app (now + away) es ?s)"
      unfolding e run_cycle_probes_Cons now_def [symmetric] diff using True by simp
    then show ?thesis using IH True fires gap by (simp add: e s prems(1) del: of_nat_add)
  next
    case False
    then have s: "insertCycleProbe True app now (now + away) s = s" by (simp add: insertCycleProbe_def)
    have "unat now + sum_list (map (\<lambda>(gap, away). unat gap + unat away) es) < 2 ^ 63"
      using now sums prems(3) by linarith
    note IH = Cons.IH [of s "elapsed + unat gap" now, OF prems(1,2) _ _ rest this]
    have "fst (run_cycle_probes True app clock (e # es) s) =
            None # fst (run_cycle_probes True app now es s)"
      unfolding e run_cycle_probes_Cons now_def [symmetric] s using False by simp
    then show ?thesis using IH False fires gap now by (simp add: e)
  qed
qed

lemma run_ind_silent:
  fixes iv step :: "'w::len word"
  assumes "\<And>k. 0 < k \<Longrightarrow> k \<le> n \<Longrightarrow> iv + of_nat k * step \<noteq> thr"
  shows "snd (snd (run_ind N StepValue step n iv thr)) = replicate n False"
  using assms
proof (induction n arbitrary: iv)
  case (Suc n)
  have "iv + step \<noteq> thr" using Suc.prems [of 1] by simp
  moreover have "snd (snd (run_ind N StepValue step n (iv + step) thr)) = replicate n False"
  proof (rule Suc.IH)
    fix k :: nat
    assume "0 < k" "k \<le> n"
    then show "iv + step + of_nat k * step \<noteq> thr"
      using Suc.prems [of "Suc k"] by (simp add: algebra_simps)
  qed
  ultimately show ?case by (simp add: loop_probe_ind_def Let_def case_prod_beta)
qed simp

section \<open>Properties\<close>

text \<open>
  C14. The optimised probe of an outermost loop is equivalent to the reference. Whether the
  initial value is a constant or computed, and however often the loop is entered, the
  threshold compare runs the cycle probe on exactly the traversals on which the iteration
  counter does, namely every \<open>NumIters\<close>-th of each entry. This needs what the pass takes
  for granted: its \<^verbatim>\<open>int\<close> arithmetic on the step, the stride and a constant initial
  value does not overflow, and the stride does not wrap around the width of the variable.
\<close>

theorem loop_probe_equiv:
  fixes step :: "'w::len word"
  assumes "0 < sint NumIters" and "step \<noteq> 0" and "stride_fits NumIters step"
    and "list_all (\<lambda>(ini, n). initial_fits False NumIters step ini) es"
  shows "run_ind_entries False self_loop NumIters step es res =
           concat (map (\<lambda>(ini, n). every_nth (nat (sint NumIters)) n) es) \<and>
         run_count_entries False NumIters (map snd es) c =
           concat (map (\<lambda>(ini, n). every_nth (nat (sint NumIters)) n) es)"
  using run_ind_entries_restart [OF assms(3,1,2,4), of self_loop res]
    run_count_entries_restart [OF assms(1), of "map snd es" c]
  by (simp add: fires_every_nth comp_def case_prod_beta')

theorem loop_probe_equiv_witness:
  "run_ind_entries False False 3 (- 2 :: 8 word) [(ConstantInt 100, 4), (Computed 0, 3)] 0 =
     [False, False, True, False, False, False, True]"
proof -
  have "run_ind_entries False False 3 (- 2 :: 8 word) [(ConstantInt 100, 4), (Computed 0, 3)] 0 =
          concat (map (\<lambda>(ini, n). every_nth (nat (sint (3 :: i32))) n)
            [(ConstantInt (100 :: 8 word), 4), (Computed 0, 3)])"
    by (rule loop_probe_equiv [THEN conjunct1])
      (simp_all add: stride_fits_def initial_fits_def fits_int_def)
  also have "\<dots> = every_nth 3 4 @ every_nth 3 3" by simp
  also have "\<dots> = [False, False, True, False, False, False, True]" by code_simp
  finally show ?thesis .
qed

text \<open>
  C15. In a nested loop whose latch is not its header, the residual that the exit blocks save
  makes the probe count across entries: whatever the initial values and lengths of the
  successive entries, the cycle probe runs on every \<open>NumIters\<close>-th traversal counted over
  all of them, exactly as with the iteration counter. In a nested self loop the residual is
  never saved, so there every entry counts from its own start. The conditions are those of
  the outermost loop, except that a constant initial value only has to fit an \<^verbatim>\<open>int\<close>.
\<close>

theorem nested_probe_carries_over:
  fixes step :: "'w::len word"
  assumes "0 < sint NumIters" and "step \<noteq> 0" and "stride_fits NumIters step"
    and "list_all (\<lambda>(ini, n). initial_fits True NumIters step ini) es"
  shows "run_ind_entries True False NumIters step es
             (initial_residual NumIters (getSExtInt step)) =
           every_nth (nat (sint NumIters)) (sum_list (map snd es)) \<and>
         run_count_entries True NumIters (map snd es) 0 =
           every_nth (nat (sint NumIters)) (sum_list (map snd es)) \<and>
         run_ind_entries True True NumIters step es
             (initial_residual NumIters (getSExtInt step)) =
           concat (map (\<lambda>(ini, n). every_nth (nat (sint NumIters)) n) es)"
  using run_ind_entries_fires [OF assms(3,1,2) _ assms(4), of 0]
    run_ind_entries_restart [OF assms(3,1,2,4), of True "initial_residual NumIters (getSExtInt step)"]
    run_count_entries_fires [OF assms(1), of 0 "map snd es"] assms(1)
  by (simp add: fires_every_nth initial_residual_def stride_value [OF assms(3)])

theorem nested_probe_carries_over_witness:
  "run_ind_entries True False 4 (1 :: 8 word) [(ConstantInt 10, 3), (Computed 200, 3)]
     (initial_residual 4 (getSExtInt (1 :: 8 word))) =
     [False, False, False, True, False, False]"
proof -
  have "run_ind_entries True False 4 (1 :: 8 word) [(ConstantInt 10, 3), (Computed 200, 3)]
          (initial_residual 4 (getSExtInt (1 :: 8 word))) =
        every_nth (nat (sint (4 :: i32)))
          (sum_list (map snd [(ConstantInt (10 :: 8 word), 3), (Computed 200, 3)]))"
    by (rule nested_probe_carries_over [THEN conjunct1])
      (simp_all add: stride_fits_def initial_fits_def fits_int_def)
  also have "\<dots> = every_nth 4 6" by simp
  also have "\<dots> = [False, False, False, True, False, False]" by code_simp
  finally show ?thesis .
qed



text \<open>
  C13. Quantum bound, for the configuration all Makefiles use (\<^verbatim>\<open>-will-update-last-cycle-ts\<close>).
  A job that meets a cycle probe at least every \<open>g\<close> cycles is made to yield by exactly those
  probes at which it has run for more than the threshold since it last came back from a yield
  (or was first resumed), the hook gets that running time as its argument, and so the job
  never runs for more than the threshold plus \<open>g\<close> without a yield. This holds whatever the
  hook does, for however long it keeps the job away, if it leaves the threshold alone and the
  cycle counter stays below \<open>2 ^ 63\<close>.
\<close>

theorem yields_within_quantum:
  assumes "app_keeps_threshold app" and "unat (ci_cycles_threshold s) < 2 ^ 63"
    and "LastCycleTS s = clock" and "list_all (\<lambda>(gap, away). unat gap \<le> g) es"
    and "unat clock + sum_list (map (\<lambda>(gap, away). unat gap + unat away) es) < 2 ^ 63"
  shows "length (fst (run_cycle_probes True app clock es s)) = length es \<and>
         list_all (\<lambda>(elapsed, y).
             y = (if unat (ci_cycles_threshold s) < elapsed then Some (of_nat elapsed) else None) \<and>
             elapsed \<le> unat (ci_cycles_threshold s) + g)
           (stretches 0 (map (unat \<circ> fst) es) (fst (run_cycle_probes True app clock es s)))"
  by (rule run_cycle_probes_stretches [OF assms(1) refl assms(2) _ _ assms(4,5)])
    (simp_all add: assms(3))

theorem yields_within_quantum_witness:
  "fst (run_cycle_probes True (\<lambda>_ _. id) 0 [(4, 50), (6, 50), (8, 7), (5, 1)]
     (ci_init\<lparr> ci_cycles_threshold := 9 \<rparr>)) = [None, Some 10, None, Some 13] \<and>
   length (fst (run_cycle_probes True (\<lambda>_ _. id) 0 [(4, 50), (6, 50), (8, 7), (5, 1)]
     (ci_init\<lparr> ci_cycles_threshold := 9 \<rparr>))) = 4"
proof -
  let ?s = "ci_init\<lparr> ci_cycles_threshold := 9 \<rparr>"
  let ?es = "[(4, 50), (6, 50), (8, 7), (5, 1)] :: (i64 \<times> i64) list"
  let ?ys = "fst (run_cycle_probes True (\<lambda>_ _. id) 0 ?es ?s)"
  have s: "unat (ci_cycles_threshold ?s) = 9" "LastCycleTS ?s = 0" by (simp_all add: ci_init_def)
  have "length ?ys = length ?es \<and> list_all (\<lambda>(elapsed, y).
            y = (if unat (ci_cycles_threshold ?s) < elapsed then Some (of_nat elapsed) else None) \<and>
            elapsed \<le> unat (ci_cycles_threshold ?s) + 8) (stretches 0 (map (unat \<circ> fst) ?es) ?ys)"
    by (rule yields_within_quantum) (simp_all add: s app_keeps_threshold_def)
  then have len: "length ?ys = 4" and
      all: "list_all (\<lambda>(elapsed, y). y = (if 9 < elapsed then Some (of_nat elapsed) else None) \<and> elapsed \<le> 17)
              (stretches 0 [4, 6, 8, 5] ?ys)"
    unfolding s by simp_all
  obtain a b c d where ys: "?ys = [a, b, c, d]" using len by (auto simp: length_Suc_conv eval_nat_numeral)
  show ?thesis using all unfolding ys by simp
qed

text \<open>
  A constant initial value that does not fit a C \<^verbatim>\<open>int\<close> is narrowed when the threshold
  is computed: a 64-bit loop from \<open>2 ^ 32\<close> upwards then never meets its threshold, so its
  probe never runs.
\<close>

lemma wide_constant_never_probed:
  assumes "N < 2 ^ 31" and "n < 2 ^ 63"
  shows "snd (snd (run_ind (of_nat N) (getSExtInt (1 :: 64 word)) 1 n (2 ^ 32 :: 64 word)
           (initial_threshold (of_nat N) (getSExtInt (1 :: 64 word)) (ConstantInt (2 ^ 32))))) =
         replicate n False"
proof (rule run_ind_silent)
  fix k :: nat
  assume k: "0 < k" "k \<le> n"
  have "getSExtInt (2 ^ 32 :: 64 word) = 0" "getSExtInt (1 :: 64 word) = 1"
    by (simp_all add: getSExtInt_def)
  then have thr: "initial_threshold (of_nat N) (getSExtInt (1 :: 64 word)) (ConstantInt (2 ^ 32)) =
                    (of_nat N :: 64 word)"
    using sint_of_nat_i32 [OF assms(1)] by (simp add: initial_threshold_def getConstInteger_def)
  have "unat (of_nat (2 ^ 32 + k) :: 64 word) = 2 ^ 32 + k"
    using k assms(2) by (subst unat_of_nat_small) simp_all
  moreover have "unat (of_nat N :: 64 word) = N"
    using assms(1) by (subst unat_of_nat_small) simp_all
  moreover have "N \<noteq> 2 ^ 32 + k" using assms(1) by auto
  ultimately have "(of_nat (2 ^ 32 + k) :: 64 word) \<noteq> of_nat N" by metis
  then show "(2 ^ 32 :: 64 word) + of_nat k * 1 \<noteq>
               initial_threshold (of_nat N) (getSExtInt (1 :: 64 word)) (ConstantInt (2 ^ 32))"
    unfolding thr by simp
qed

end
