(* ===== verification/Packet.thy ===== *)
theory Packet
  imports Prelude
begin

unbundle bit_operations_syntax

text \<open>
  Packets as \<^verbatim>\<open>tq_server.cpp\<close> reads and builds them: message buffers as bytes, the
  header checks, the request fields a worker reads, and the reply that
  \<^verbatim>\<open>process_rx_mbuf\<close> assembles. Multi-byte header fields are in network byte order;
  the request words behind the UDP header are read by an x86 host, so little-endian. The
  header layouts are those of Ethernet, IPv4 and UDP.
\<close>

section \<open>Byte order\<close>

definition be16 :: "u16 \<Rightarrow> byte list" where
  "be16 v = [ucast (drop_bit 8 v), ucast v]"

definition be32 :: "u32 \<Rightarrow> byte list" where
  "be32 v = [ucast (drop_bit 24 v), ucast (drop_bit 16 v), ucast (drop_bit 8 v), ucast v]"

definition of_be16 :: "byte list \<Rightarrow> u16" where
  "of_be16 b = push_bit 8 (ucast (b ! 0)) OR ucast (b ! 1)"

definition of_be32 :: "byte list \<Rightarrow> u32" where
  "of_be32 b = push_bit 24 (ucast (b ! 0)) OR push_bit 16 (ucast (b ! 1)) OR
               push_bit 8 (ucast (b ! 2)) OR ucast (b ! 3)"

fun of_le :: "byte list \<Rightarrow> u64" where
  "of_le [] = 0"
| "of_le (b # bs) = ucast b OR push_bit 8 (of_le bs)"

text \<open>A slice of a buffer: \<open>n\<close> bytes from offset \<open>off\<close>.\<close>

definition bytes_at :: "nat \<Rightarrow> nat \<Rightarrow> byte list \<Rightarrow> byte list" where
  "bytes_at off n bs = take n (drop off bs)"

section \<open>Message buffers and jobs\<close>

text \<open>
  A buffer is named by its pointer. Its data room is what a read at an offset sees, whatever
  the length of the received packet: the source never compares an offset with
  \<^verbatim>\<open>pkt_len\<close>.
\<close>

record mbuf =
  m_ptr :: nat
  m_room :: "byte list"
  pkt_len :: nat

datatype job_type = GET | SCAN | job_other u32

definition job_type_of :: "u64 \<Rightarrow> job_type" where
  "job_type_of v = (let t = (ucast v :: u32) in if t = 1 then GET else if t = 2 then SCAN else job_other t)"

record job_info =
  jtype :: job_type
  key :: u64
  ns_sleep :: u64

record coro_info =
  jinfo :: job_info
  rx_mbuf :: "mbuf option"
  tx_mbuf :: "mbuf option"
  num_quanta :: u32
  execution_time :: u64

record server_cfg =
  my_eth :: "byte list"
  my_ip :: u32
  server_port :: u16
  use_leveldb :: bool

definition RTE_ETHER_HDR_LEN :: nat where "RTE_ETHER_HDR_LEN = 14"
definition IPV4_HDR_LEN :: nat where "IPV4_HDR_LEN = 20"
definition UDP_HDR_LEN :: nat where "UDP_HDR_LEN = 8"
definition ROCKSDB_HDR_LEN :: nat where "ROCKSDB_HDR_LEN = 16"
definition PAYLOAD_LEN :: nat where "PAYLOAD_LEN = 48"
definition IPPROTO_UDP :: byte where "IPPROTO_UDP = 17"
definition ETHER_TYPE_IPV4 :: u16 where "ETHER_TYPE_IPV4 = 0x0800"

definition MAKE_IP_ADDR :: "byte \<Rightarrow> byte \<Rightarrow> byte \<Rightarrow> byte \<Rightarrow> u32" where
  "MAKE_IP_ADDR a b c d =
     push_bit 24 (ucast a) OR push_bit 16 (ucast b) OR push_bit 8 (ucast c) OR ucast d"

section \<open>Header checks\<close>

definition check_eth_hdr :: "server_cfg \<Rightarrow> mbuf \<Rightarrow> bool" where
  "check_eth_hdr cfg buf =
     (if bytes_at 0 6 (m_room buf) \<noteq> my_eth cfg then False
      else if bytes_at 12 2 (m_room buf) \<noteq> be16 ETHER_TYPE_IPV4 then False
      else True)"

definition check_ip_hdr :: "server_cfg \<Rightarrow> mbuf \<Rightarrow> bool" where
  "check_ip_hdr cfg buf =
     (let ipv4_hdr = drop RTE_ETHER_HDR_LEN (m_room buf)
      in if bytes_at 16 4 ipv4_hdr \<noteq> be32 (my_ip cfg) \<or> bytes_at 9 1 ipv4_hdr \<noteq> [IPPROTO_UDP]
         then False else True)"

definition is_rx_mbuf_valid :: "server_cfg \<Rightarrow> mbuf \<Rightarrow> bool" where
  "is_rx_mbuf_valid cfg buf = (check_eth_hdr cfg buf \<and> check_ip_hdr cfg buf)"

section \<open>Request and reply\<close>

definition rx_ipv4 :: "mbuf \<Rightarrow> byte list" where
  "rx_ipv4 buf = drop RTE_ETHER_HDR_LEN (m_room buf)"

definition rx_udp :: "mbuf \<Rightarrow> byte list" where
  "rx_udp buf = drop (RTE_ETHER_HDR_LEN + IPV4_HDR_LEN) (m_room buf)"

definition rx_data :: "mbuf \<Rightarrow> byte list" where
  "rx_data buf = drop (RTE_ETHER_HDR_LEN + IPV4_HDR_LEN + UDP_HDR_LEN) (m_room buf)"

definition data_word :: "mbuf \<Rightarrow> nat \<Rightarrow> u64" where
  "data_word buf i = of_le (bytes_at (8 * i) 8 (rx_data buf))"

definition reply_eth :: "server_cfg \<Rightarrow> mbuf \<Rightarrow> byte list" where
  "reply_eth cfg rx = bytes_at 6 6 (m_room rx) @ my_eth cfg @ be16 ETHER_TYPE_IPV4"

definition reply_ipv4 :: "server_cfg \<Rightarrow> mbuf \<Rightarrow> byte list" where
  "reply_ipv4 cfg rx =
     [0x45, 0] @ be16 (of_nat (IPV4_HDR_LEN + UDP_HDR_LEN + ROCKSDB_HDR_LEN)) @
     bytes_at 4 2 (rx_ipv4 rx) @ bytes_at 6 2 (rx_ipv4 rx) @ [64, IPPROTO_UDP] @
     bytes_at 10 2 (rx_ipv4 rx) @ be32 (my_ip cfg) @ bytes_at 12 4 (rx_ipv4 rx)"

definition reply_udp :: "server_cfg \<Rightarrow> mbuf \<Rightarrow> byte list" where
  "reply_udp cfg rx =
     be16 (server_port cfg) @ bytes_at 0 2 (rx_udp rx) @
     be16 (of_nat (UDP_HDR_LEN + ROCKSDB_HDR_LEN)) @ [0, 0]"

definition reply_bytes :: "server_cfg \<Rightarrow> mbuf \<Rightarrow> byte list" where
  "reply_bytes cfg rx =
     reply_eth cfg rx @ reply_ipv4 cfg rx @ reply_udp cfg rx @ bytes_at 0 PAYLOAD_LEN (rx_data rx)"

definition reply_mbuf :: "server_cfg \<Rightarrow> mbuf \<Rightarrow> nat \<Rightarrow> mbuf" where
  "reply_mbuf cfg rx p = \<lparr> m_ptr = p, m_room = reply_bytes cfg rx, pkt_len = length (reply_bytes cfg rx) \<rparr>"

definition job_of_request :: "server_cfg \<Rightarrow> mbuf \<Rightarrow> job_info \<Rightarrow> job_info" where
  "job_of_request cfg rx j =
     (if use_leveldb cfg then j\<lparr> jtype := job_type_of (data_word rx 3), key := data_word rx 5 \<rparr>
      else j\<lparr> ns_sleep := data_word rx 4 \<rparr>)"

text \<open>
  \<open>alloc\<close> is what \<^verbatim>\<open>rte_pktmbuf_alloc\<close> returns. The assertion on it is compiled out
  (\<^verbatim>\<open>-DNDEBUG\<close>), so a null pointer is dereferenced by the first append: an error.
\<close>

datatype worker_error = null_tx_mbuf | null_mbuf | array_overflow | empty_container

definition process_rx_mbuf ::
    "server_cfg \<Rightarrow> mbuf \<Rightarrow> nat option \<Rightarrow> coro_info \<Rightarrow> worker_error + coro_info" where
  "process_rx_mbuf cfg rx alloc idle_coro =
     (let c1 = idle_coro\<lparr> rx_mbuf := Some rx, num_quanta := 0,
                          jinfo := job_of_request cfg rx (jinfo idle_coro) \<rparr>
      in case alloc of None \<Rightarrow> Inl null_tx_mbuf
         | Some p \<Rightarrow> Inr (c1\<lparr> tx_mbuf := Some (reply_mbuf cfg rx p) \<rparr>))"

text \<open>The party a request came from, as the header checks identify a party.\<close>

definition client_of :: "server_cfg \<Rightarrow> mbuf \<Rightarrow> server_cfg" where
  "client_of cfg rx = cfg\<lparr> my_eth := bytes_at 6 6 (m_room rx), my_ip := of_be32 (bytes_at 12 4 (rx_ipv4 rx)) \<rparr>"

section \<open>Lemmas\<close>

lemma be32_of_be32: "length b = 4 \<Longrightarrow> be32 (of_be32 b) = b"
proof -
  assume "length b = 4"
  then obtain b0 b1 b2 b3 where b: "b = [b0, b1, b2, b3]"
    by (auto simp: length_Suc_conv numeral_eq_Suc)
  let ?w = "push_bit 24 (ucast b0) OR push_bit 16 (ucast b1) OR push_bit 8 (ucast b2) OR ucast b3 :: u32"
  have "ucast (drop_bit 24 ?w) = b0" "ucast (drop_bit 16 ?w) = b1"
       "ucast (drop_bit 8 ?w) = b2" "ucast ?w = b3"
    by (rule bit_word_eqI; auto simp: bit_simps dest: bit_byte)+
  then show ?thesis unfolding b be32_def of_be32_def by simp
qed

lemma length_bytes_at [simp]: "length (bytes_at off n bs) = min n (length bs - off)"
  by (simp add: bytes_at_def)

lemma length_be [simp]: "length (be16 v) = 2" "length (be32 u) = 4"
  by (simp_all add: be16_def be32_def)

lemmas hdr_len_defs = RTE_ETHER_HDR_LEN_def IPV4_HDR_LEN_def UDP_HDR_LEN_def ROCKSDB_HDR_LEN_def
  PAYLOAD_LEN_def

lemma reply_lengths:
  assumes "length (my_eth cfg) = 6" and "90 \<le> length (m_room rx)"
  shows "length (reply_eth cfg rx) = 14" "length (reply_ipv4 cfg rx) = 20" "length (reply_udp cfg rx) = 8"
   "length (bytes_at 0 PAYLOAD_LEN (rx_data rx)) = 48"
 using assms by (simp_all add: reply_eth_def reply_ipv4_def reply_udp_def rx_ipv4_def rx_udp_def rx_data_def
   RTE_ETHER_HDR_LEN_def IPV4_HDR_LEN_def UDP_HDR_LEN_def ROCKSDB_HDR_LEN_def PAYLOAD_LEN_def)


lemma reply_views:
  assumes "length (my_eth cfg) = 6" and "90 \<le> length (m_room rx)"
  shows "bytes_at 0 6 (m_room (reply_mbuf cfg rx p)) = bytes_at 6 6 (m_room rx)"
    and "bytes_at 12 2 (m_room (reply_mbuf cfg rx p)) = be16 ETHER_TYPE_IPV4"
    and "rx_ipv4 (reply_mbuf cfg rx p) = 
         reply_ipv4 cfg rx @ reply_udp cfg rx @ bytes_at 0 PAYLOAD_LEN (rx_data rx)"
    and "rx_udp (reply_mbuf cfg rx p) = reply_udp cfg rx @ bytes_at 0 PAYLOAD_LEN (rx_data rx)"
    and "rx_data (reply_mbuf cfg rx p) = bytes_at 0 PAYLOAD_LEN (rx_data rx)"
proof -
  note L = reply_lengths [OF assms]
  have room: "m_room (reply_mbuf cfg rx p) =
      reply_eth cfg rx @ reply_ipv4 cfg rx @ reply_udp cfg rx @ bytes_at 0 PAYLOAD_LEN (rx_data rx)"
    by (simp add: reply_mbuf_def reply_bytes_def)
  show "rx_ipv4 (reply_mbuf cfg rx p) = 
         reply_ipv4 cfg rx @ reply_udp cfg rx @ bytes_at 0 PAYLOAD_LEN (rx_data rx)"
   and "rx_udp (reply_mbuf cfg rx p) = reply_udp cfg rx @ bytes_at 0 PAYLOAD_LEN (rx_data rx)"
   and "rx_data (reply_mbuf cfg rx p) = bytes_at 0 PAYLOAD_LEN (rx_data rx)"
    using L(1-3)
    by (simp_all add: rx_ipv4_def [of "reply_mbuf cfg rx p"] rx_udp_def [of "reply_mbuf cfg rx p"]
        rx_data_def [of "reply_mbuf cfg rx p"] room hdr_len_defs del: length_bytes_at)
  have "m_room (reply_mbuf cfg rx p) = bytes_at 6 6 (m_room rx) @ my_eth cfg @ be16 ETHER_TYPE_IPV4 @
     (reply_ipv4 cfg rx @ reply_udp cfg rx @ bytes_at 0 PAYLOAD_LEN (rx_data rx))"
    by (simp add: room reply_eth_def)
  moreover have "length (bytes_at 6 6 (m_room rx)) = 6" using assms(2) by simp
  ultimately show "bytes_at 0 6 (m_room (reply_mbuf cfg rx p)) = bytes_at 6 6 (m_room rx)"
    and "bytes_at 12 2 (m_room (reply_mbuf cfg rx p)) = be16 ETHER_TYPE_IPV4"
    using assms(1) by (simp_all add: bytes_at_def [of 0 6 "_ @ _"] bytes_at_def [of 12 2] be16_def)
qed

lemma reply_ipv4_views:
  assumes "90 \<le> length (m_room rx)"
  shows "bytes_at 16 4 (reply_ipv4 cfg rx @ bs) = bytes_at 12 4 (rx_ipv4 rx)"
    and "bytes_at 9 1 (reply_ipv4 cfg rx @ bs) = [IPPROTO_UDP]"
    and "bytes_at 2 2 (reply_ipv4 cfg rx @ bs) = be16 44"
proof -
  have L: "length (bytes_at 4 2 (rx_ipv4 rx)) = 2" "length (bytes_at 6 2 (rx_ipv4 rx)) = 2"
    "length (bytes_at 10 2 (rx_ipv4 rx)) = 2" "length (bytes_at 12 4 (rx_ipv4 rx)) = 4"
    using assms by (simp_all add: rx_ipv4_def hdr_len_defs)
  show "bytes_at 16 4 (reply_ipv4 cfg rx @ bs) = bytes_at 12 4 (rx_ipv4 rx)"
    and "bytes_at 9 1 (reply_ipv4 cfg rx @ bs) = [IPPROTO_UDP]"
    and "bytes_at 2 2 (reply_ipv4 cfg rx @ bs) = be16 44"
    unfolding reply_ipv4_def bytes_at_def [of 16 4] bytes_at_def [of 9 1] bytes_at_def [of 2 2 "_ @ _"]
    using L by (simp_all add: hdr_len_defs be16_def be32_def drop_Cons' del: length_bytes_at)
qed

section \<open>Properties\<close>

text \<open>
  C18. The reply to any request whose headers and six payload words lie in the buffer reaches
  the requester: it passes the server's own Ethernet and IP checks when made with the
  requester's addresses, its UDP ports are the server's and the request's source port, and
  its payload is the request's.
\<close>

theorem reply_reaches_client:
  assumes "length (my_eth cfg) = 6" and "90 \<le> length (m_room rx)"
  shows "is_rx_mbuf_valid (client_of cfg rx) (reply_mbuf cfg rx p) \<and>
         bytes_at 0 2 (rx_udp (reply_mbuf cfg rx p)) = be16 (server_port cfg) \<and>
         bytes_at 2 2 (rx_udp (reply_mbuf cfg rx p)) = bytes_at 0 2 (rx_udp rx) \<and>
         rx_data (reply_mbuf cfg rx p) = bytes_at 0 48 (rx_data rx)"
proof -
  have L: "length (bytes_at 12 4 (rx_ipv4 rx)) = 4" "length (bytes_at 0 2 (rx_udp rx)) = 2"
    using assms(2) by (simp_all add: rx_ipv4_def rx_udp_def hdr_len_defs)
  have "is_rx_mbuf_valid (client_of cfg rx) (reply_mbuf cfg rx p)"
    using reply_views [OF assms, of p] reply_ipv4_views [OF assms(2)] be32_of_be32 [OF L(1)]
    by (simp add: is_rx_mbuf_valid_def check_eth_hdr_def check_ip_hdr_def client_of_def rx_ipv4_def Let_def)
  moreover have "bytes_at 0 2 (reply_udp cfg rx @ bs) = be16 (server_port cfg)"
    and "bytes_at 2 2 (reply_udp cfg rx @ bs) = bytes_at 0 2 (rx_udp rx)" for bs
    unfolding reply_udp_def bytes_at_def [of 0 2 "_ @ _"] bytes_at_def [of 2 2 "_ @ _"] using L(2)
    by (simp_all add: be16_def del: length_bytes_at)
  ultimately show ?thesis using reply_views [OF assms, of p] by (simp add: PAYLOAD_LEN_def)
qed

theorem reply_reaches_client_witness:
  "is_rx_mbuf_valid
     (client_of \<lparr> my_eth = [1, 2, 3, 4, 5, 6], my_ip = 167772161, server_port = 6789, use_leveldb = False \<rparr>
        \<lparr> m_ptr = 0, m_room = replicate 90 7, pkt_len = 90 \<rparr>)
     (reply_mbuf \<lparr> my_eth = [1, 2, 3, 4, 5, 6], my_ip = 167772161, server_port = 6789, use_leveldb = False \<rparr>
        \<lparr> m_ptr = 0, m_room = replicate 90 7, pkt_len = 90 \<rparr> 1)"
  by (rule reply_reaches_client [THEN conjunct1]) simp_all

text \<open>
  The length fields of the reply do not describe it: they count a 16-byte RocksDB header
  where the code appends 48 bytes of payload.
\<close>

lemma reply_length_fields_short:
  assumes "length (my_eth cfg) = 6" and "90 \<le> length (m_room rx)"
  shows "bytes_at 2 2 (rx_ipv4 (reply_mbuf cfg rx p)) = be16 44"
    and "length (rx_ipv4 (reply_mbuf cfg rx p)) = 76"
  using reply_views [OF assms, of p] reply_ipv4_views [OF assms(2)] reply_lengths [OF assms]
  by simp_all

text \<open>The checks ignore the received length: a truncated packet is served from stale bytes.\<close>

lemma validity_ignores_pkt_len:
  "is_rx_mbuf_valid cfg (rx\<lparr> pkt_len := n \<rparr>) = is_rx_mbuf_valid cfg rx"
  by (simp add: is_rx_mbuf_valid_def check_eth_hdr_def check_ip_hdr_def)

end
