(* ===== verification/Worker.thy ===== *)
theory Worker
  imports Packet
begin

text \<open>
  The worker thread, \<^verbatim>\<open>worker\<close> of \<^verbatim>\<open>tq_server.cpp\<close>, in the configuration the
  Makefile builds (\<^verbatim>\<open>NEW_DISPATCHER\<close>, \<^verbatim>\<open>MSQ\<close>, neither \<^verbatim>\<open>LAS\<close> nor
  \<^verbatim>\<open>FCFS\<close>). The main loop is one definition per stage, in the order of the source:
  run a coroutine, take new requests, transmit, return receive buffers. Coroutines are
  named by their index, so \<^verbatim>\<open>busy_coros\<close> and \<^verbatim>\<open>idle_coros\<close> are lists of indices
  into the array of coroutine records. What the environment decides is an argument: whether
  the resumed coroutine finished (\<^verbatim>\<open>coro->get() != nullptr\<close>) or was preempted, which
  packets the ring hands out and which transmit buffer the pool gives for each, how many
  packets the NIC accepts, and the time stamp counter.
\<close>

section \<open>State\<close>

definition RETURN_RING_BURST_SIZE :: nat where "RETURN_RING_BURST_SIZE = 64"
definition TX_QUEUE_BURST_SIZE :: nat where "TX_QUEUE_BURST_SIZE = 2"
definition TX_DEQUEUE_PERIOD :: nat where "TX_DEQUEUE_PERIOD = 4"
definition DISPATCH_RING_DEQUEUE_PERIOD :: nat where "DISPATCH_RING_DEQUEUE_PERIOD = 4"

text \<open>
  The arrays \<^verbatim>\<open>return_rx_bufs\<close> and \<^verbatim>\<open>tx_bufs\<close> are the lists of their filled
  entries; their fill counts are the lengths. The last four fields log the effects on the
  outside: buffers freed to the pool, packets the NIC took, packets it refused, and received
  buffers the code forgets.
\<close>

record worker =
  coros :: "coro_info list"
  idle_coros :: "nat list"
  busy_coros :: "nat list"
  return_rx_bufs :: "mbuf list"
  tx_bufs :: "mbuf list"
  dispatch_index :: u16
  flush_index :: u16
  force_flush :: bool
  force_dispatch :: bool
  last_cycle_ts :: i64
  size_count :: u64
  sq_count :: u64
  freed_rx :: "mbuf list"
  sent_tx :: "mbuf list"
  refused_tx :: "mbuf list"
  leaked_rx :: "mbuf list"

definition coro_info_init :: coro_info where
  "coro_info_init =
     \<lparr> jinfo = \<lparr> jtype = job_other 0, key = 0, ns_sleep = 0 \<rparr>, rx_mbuf = None, tx_mbuf = None,
       num_quanta = 0, execution_time = 0 \<rparr>"

text \<open>\<open>sq0\<close> is what the shared counter \<^verbatim>\<open>curr_sizes[tid].sq\<close> holds when the worker
  starts: the dispatcher initialises \<^verbatim>\<open>size\<close> only.\<close>

definition worker_init :: "nat \<Rightarrow> u64 \<Rightarrow> worker" where
  "worker_init num_coros sq0 =
     \<lparr> coros = replicate num_coros coro_info_init, idle_coros = [0..<num_coros], busy_coros = [],
       return_rx_bufs = [], tx_bufs = [], dispatch_index = 0, flush_index = 0,
       force_flush = False, force_dispatch = False, last_cycle_ts = 0,
       size_count = 0, sq_count = sq0,
       freed_rx = [], sent_tx = [], refused_tx = [], leaked_rx = [] \<rparr>"

text \<open>An array store \<^verbatim>\<open>a[idx++] = x\<close> past the allocated size is an error.\<close>

definition array_push :: "nat \<Rightarrow> 'a list \<Rightarrow> 'a \<Rightarrow> worker_error + 'a list" where
  "array_push cap xs x = (if length xs < cap then Inr (xs @ [x]) else Inl array_overflow)"

definition upd_coro :: "nat \<Rightarrow> (coro_info \<Rightarrow> coro_info) \<Rightarrow> worker \<Rightarrow> worker" where
  "upd_coro i f w = w\<lparr> coros := (coros w)[i := f (coros w ! i)] \<rparr>"

section \<open>Stage 1: run a coroutine\<close>

definition preempted :: "nat \<Rightarrow> worker \<Rightarrow> worker" where
  "preempted i w =
     (upd_coro i (\<lambda>c. c\<lparr> num_quanta := num_quanta c + 1 \<rparr>) w)
       \<lparr> busy_coros := busy_coros w @ [i], sq_count := sq_count w + 1 \<rparr>"

definition finished :: "nat \<Rightarrow> worker \<Rightarrow> worker_error + worker" where
  "finished i w =
     (case (rx_mbuf (coros w ! i), tx_mbuf (coros w ! i)) of
        (Some rx, Some tx) \<Rightarrow>
          (case array_push RETURN_RING_BURST_SIZE (return_rx_bufs w) rx of Inl e \<Rightarrow> Inl e
           | Inr rets \<Rightarrow>
             (case array_push TX_QUEUE_BURST_SIZE (tx_bufs w) tx of Inl e \<Rightarrow> Inl e
              | Inr txs \<Rightarrow>
                  Inr (w\<lparr> return_rx_bufs := rets, tx_bufs := txs,
                          idle_coros := idle_coros w @ [i],
                          size_count := size_count w + 1,
                          sq_count := sq_count w - ucast (num_quanta (coros w ! i)) \<rparr>)))
      | _ \<Rightarrow> Inl null_mbuf)"

definition resume_coro :: "bool \<Rightarrow> i64 \<Rightarrow> worker \<Rightarrow> worker_error + worker" where
  "resume_coro fin now w =
     (case busy_coros w of [] \<Rightarrow> Inr w
      | i # rest \<Rightarrow>
          (let w1 = w\<lparr> busy_coros := rest,
                       last_cycle_ts := (if num_quanta (coros w ! i) = 0 then now
                                         else last_cycle_ts w) \<rparr>
           in case (if fin then finished i w1 else Inr (preempted i w1)) of Inl e \<Rightarrow> Inl e
              | Inr w2 \<Rightarrow> Inr (w2\<lparr> dispatch_index := dispatch_index w2 + 1,
                                   flush_index := flush_index w2 + 1 \<rparr>)))"

definition worker_run :: "bool \<Rightarrow> i64 \<Rightarrow> worker \<Rightarrow> worker_error + worker" where
  "worker_run fin now w =
     (case resume_coro fin now (w\<lparr> force_flush := False, force_dispatch := False \<rparr>) of Inl e \<Rightarrow> Inl e
      | Inr w1 \<Rightarrow>
          Inr (if busy_coros w1 = []
               then w1\<lparr> force_dispatch := True, force_flush := (tx_bufs w1 \<noteq> []) \<rparr> else w1))"

section \<open>Stage 2: take new requests\<close>

definition wants_dispatch :: "worker \<Rightarrow> bool" where
  "wants_dispatch w \<longleftrightarrow> force_dispatch w \<or>
     (DISPATCH_RING_DEQUEUE_PERIOD \<le> unat (dispatch_index w) \<and> idle_coros w \<noteq> [])"

definition take_packet ::
    "server_cfg \<Rightarrow> mbuf \<times> nat option \<Rightarrow> worker \<Rightarrow> worker_error + worker" where
  "take_packet cfg rxa w =
     (case rxa of (rx, alloc) \<Rightarrow>
        if \<not> is_rx_mbuf_valid cfg rx then
          Inr (if length (return_rx_bufs w) < RETURN_RING_BURST_SIZE
               then w\<lparr> return_rx_bufs := return_rx_bufs w @ [rx] \<rparr>
               else w\<lparr> leaked_rx := leaked_rx w @ [rx] \<rparr>)
        else if idle_coros w = [] then Inl empty_container
        else (let i = last (idle_coros w)
              in case process_rx_mbuf cfg rx alloc (coros w ! i) of Inl e \<Rightarrow> Inl e
                 | Inr c \<Rightarrow>
                     Inr (w\<lparr> idle_coros := butlast (idle_coros w), coros := (coros w)[i := c],
                             busy_coros := i # busy_coros w \<rparr>)))"

fun take_packets ::
    "server_cfg \<Rightarrow> (mbuf \<times> nat option) list \<Rightarrow> worker \<Rightarrow> worker_error + worker" where
  "take_packets cfg [] w = Inr w"
| "take_packets cfg (p # ps) w =
     (case take_packet cfg p w of Inl e \<Rightarrow> Inl e | Inr w1 \<Rightarrow> take_packets cfg ps w1)"

text \<open>The source goes through \<^verbatim>\<open>rx_bufs\<close> from the last packet to the first.\<close>

definition worker_dispatch ::
    "server_cfg \<Rightarrow> (mbuf \<times> nat option) list \<Rightarrow> worker \<Rightarrow> worker_error + worker" where
  "worker_dispatch cfg rx_bufs w =
     (if wants_dispatch w
      then (case take_packets cfg (rev rx_bufs) w of Inl e \<Rightarrow> Inl e
            | Inr w1 \<Rightarrow> Inr (w1\<lparr> dispatch_index := 0 \<rparr>))
      else Inr w)"

section \<open>Stages 3 and 4: transmit, return receive buffers\<close>

definition wants_flush :: "worker \<Rightarrow> bool" where
  "wants_flush w \<longleftrightarrow> force_flush w \<or>
     (TX_DEQUEUE_PERIOD \<le> unat (flush_index w) \<and> tx_bufs w \<noteq> []) \<or>
     length (tx_bufs w) = TX_QUEUE_BURST_SIZE"

definition worker_tx :: "nat \<Rightarrow> worker \<Rightarrow> worker" where
  "worker_tx nb_tx w =
     (if wants_flush w
      then w\<lparr> sent_tx := sent_tx w @ take nb_tx (tx_bufs w),
              refused_tx := refused_tx w @ drop nb_tx (tx_bufs w),
              tx_bufs := [], flush_index := 0 \<rparr>
      else w)"

definition worker_return :: "worker \<Rightarrow> worker" where
  "worker_return w =
     (if force_flush w \<or> length (return_rx_bufs w) = RETURN_RING_BURST_SIZE
      then w\<lparr> freed_rx := freed_rx w @ return_rx_bufs w, return_rx_bufs := [] \<rparr>
      else w)"

section \<open>One iteration of the main loop\<close>

record worker_input =
  in_finished :: bool
  in_now :: i64
  in_rx :: "(mbuf \<times> nat option) list"
  in_nb_tx :: nat

definition worker_iter :: "server_cfg \<Rightarrow> worker_input \<Rightarrow> worker \<Rightarrow> worker_error + worker" where
  "worker_iter cfg inp w =
     (case worker_run (in_finished inp) (in_now inp) w of Inl e \<Rightarrow> Inl e
      | Inr w1 \<Rightarrow>
        (case worker_dispatch cfg (in_rx inp) w1 of Inl e \<Rightarrow> Inl e
         | Inr w2 \<Rightarrow> Inr (worker_return (worker_tx (in_nb_tx inp) w2))))"

fun worker_loop :: "server_cfg \<Rightarrow> worker_input list \<Rightarrow> worker \<Rightarrow> worker_error + worker" where
  "worker_loop cfg [] w = Inr w"
| "worker_loop cfg (inp # inps) w =
     (case worker_iter cfg inp w of Inl e \<Rightarrow> Inl e | Inr w1 \<Rightarrow> worker_loop cfg inps w1)"

section \<open>The invariant of the main loop\<close>

definition has_bufs :: "coro_info \<Rightarrow> bool" where
  "has_bufs c \<longleftrightarrow> rx_mbuf c \<noteq> None \<and> tx_mbuf c \<noteq> None"

definition pool_ok :: "nat \<Rightarrow> worker \<Rightarrow> bool" where
  "pool_ok n w \<longleftrightarrow> length (coros w) = n \<and> mset (idle_coros w) + mset (busy_coros w) = mset [0..<n] \<and>
     list_all (\<lambda>i. has_bufs (coros w ! i)) (busy_coros w)"

text \<open>At the head of the loop, and between two stages.\<close>

definition worker_ok :: "nat \<Rightarrow> worker \<Rightarrow> bool" where
  "worker_ok n w \<longleftrightarrow> pool_ok n w \<and>
     length (return_rx_bufs w) < RETURN_RING_BURST_SIZE \<and> length (tx_bufs w) < TX_QUEUE_BURST_SIZE \<and>
     (tx_bufs w \<noteq> [] \<longrightarrow> unat (flush_index w) < TX_DEQUEUE_PERIOD)"

definition worker_mid :: "nat \<Rightarrow> worker \<Rightarrow> bool" where
  "worker_mid n w \<longleftrightarrow> pool_ok n w \<and>
     length (return_rx_bufs w) \<le> RETURN_RING_BURST_SIZE \<and> length (tx_bufs w) \<le> TX_QUEUE_BURST_SIZE"

text \<open>
  What \<^verbatim>\<open>rte_ring_dequeue_burst\<close> promises: it hands out no more packets than it is asked
  for, here \<^verbatim>\<open>idle_coros.size()\<close>. The pool promises nothing: \<^verbatim>\<open>rte_pktmbuf_alloc\<close>
  may return no buffer, also for a valid request.
\<close>

definition input_ok :: "worker_input \<Rightarrow> worker \<Rightarrow> bool" where
  "input_ok inp w1 \<longleftrightarrow> length (in_rx inp) \<le> length (idle_coros w1)"

definition no_reply_buffer :: "server_cfg \<Rightarrow> mbuf \<times> nat option \<Rightarrow> bool" where
  "no_reply_buffer cfg p \<longleftrightarrow> is_rx_mbuf_valid cfg (fst p) \<and> snd p = None"

lemmas worker_consts = RETURN_RING_BURST_SIZE_def TX_QUEUE_BURST_SIZE_def TX_DEQUEUE_PERIOD_def
  DISPATCH_RING_DEQUEUE_PERIOD_def

lemma mset_upt_facts:
  assumes "mset xs + mset ys = mset [0..<n]"
  shows "distinct xs" "distinct ys" "set xs \<inter> set ys = {}" "i \<in> set xs \<Longrightarrow> i < n" "i \<in> set ys \<Longrightarrow> i < n"
proof -
  from assms have m: "mset (xs @ ys) = mset [0..<n]" by simp
  from mset_eq_imp_distinct_iff [OF m] mset_eq_setD [OF m]
  show "distinct xs" "distinct ys" "set xs \<inter> set ys = {}" "i \<in> set xs \<Longrightarrow> i < n" "i \<in> set ys \<Longrightarrow> i < n"
    by auto
qed

lemma pool_ok_upd [simp]:
  "pool_ok n (w\<lparr> force_flush := b1 \<rparr>) = pool_ok n w"
  "pool_ok n (w\<lparr> force_dispatch := b2 \<rparr>) = pool_ok n w"
  "pool_ok n (w\<lparr> dispatch_index := d \<rparr>) = pool_ok n w"
  "pool_ok n (w\<lparr> flush_index := f \<rparr>) = pool_ok n w"
  by (simp_all add: pool_ok_def)

lemma resume_mid:
  assumes "worker_ok n w"
  obtains w1 where "resume_coro fin now w = Inr w1" "worker_mid n w1"
proof (cases "busy_coros w")
  case Nil
  with assms that show ?thesis by (simp add: resume_coro_def worker_ok_def worker_mid_def)
next
  case (Cons i rest)
  from assms Cons have P: "mset (idle_coros w) + mset (i # rest) = mset [0..<n]" "length (coros w) = n"
    "has_bufs (coros w ! i)" "list_all (\<lambda>i. has_bufs (coros w ! i)) rest"
    by (auto simp: worker_ok_def pool_ok_def)
  from mset_upt_facts [OF P(1)] have "i \<notin> set rest" "i < n" by auto
  then show ?thesis using assms that P Cons
    by (cases fin) (auto simp: resume_coro_def worker_ok_def worker_mid_def pool_ok_def preempted_def
        finished_def array_push_def upd_coro_def has_bufs_def worker_consts Let_def list_all_iff
        nth_list_update)
qed

lemma run_mid:
  assumes "worker_ok n w"
  obtains w1 where "worker_run fin now w = Inr w1" "worker_mid n w1"
    "busy_coros w1 = [] \<Longrightarrow> force_dispatch w1" 
proof -
  have "worker_ok n (w\<lparr> force_flush := False, force_dispatch := False \<rparr>)"
    using assms by (simp add: worker_ok_def pool_ok_def)
  from resume_mid [OF this, of fin now] obtain w1 where
    "resume_coro fin now (w\<lparr> force_flush := False, force_dispatch := False \<rparr>) = Inr w1" "worker_mid n w1" .
  then show ?thesis using that by (cases "busy_coros w1 = []") (simp_all add: worker_run_def worker_mid_def)
qed

definition start_job :: "server_cfg \<Rightarrow> mbuf \<Rightarrow> nat \<Rightarrow> coro_info \<Rightarrow> coro_info" where
  "start_job cfg rx p c =
     c\<lparr> rx_mbuf := Some rx, num_quanta := 0, jinfo := job_of_request cfg rx (jinfo c),
        tx_mbuf := Some (reply_mbuf cfg rx p) \<rparr>"

lemma start_job_sel [simp]:
  "rx_mbuf (start_job cfg rx p c) = Some rx" "tx_mbuf (start_job cfg rx p c) = Some (reply_mbuf cfg rx p)"
  "num_quanta (start_job cfg rx p c) = 0" "has_bufs (start_job cfg rx p c)"
  by (simp_all add: start_job_def has_bufs_def)

definition store_invalid :: "mbuf \<Rightarrow> worker \<Rightarrow> worker" where
  "store_invalid rx w =
     (if length (return_rx_bufs w) < RETURN_RING_BURST_SIZE
      then w\<lparr> return_rx_bufs := return_rx_bufs w @ [rx] \<rparr>
      else w\<lparr> leaked_rx := leaked_rx w @ [rx] \<rparr>)"

definition store_valid :: "server_cfg \<Rightarrow> mbuf \<Rightarrow> nat \<Rightarrow> worker \<Rightarrow> worker" where
  "store_valid cfg rx p w =
     (let i = last (idle_coros w)
      in w\<lparr> idle_coros := butlast (idle_coros w),
            coros := (coros w)[i := start_job cfg rx p (coros w ! i)],
            busy_coros := i # busy_coros w \<rparr>)"

lemma take_packet_eq:
  "\<not> is_rx_mbuf_valid cfg rx \<Longrightarrow> take_packet cfg (rx, a) w = Inr (store_invalid rx w)"
  "is_rx_mbuf_valid cfg rx \<Longrightarrow> idle_coros w \<noteq> [] \<Longrightarrow>
   take_packet cfg (rx, Some p) w = Inr (store_valid cfg rx p w)"
  by (simp_all add: take_packet_def store_invalid_def store_valid_def process_rx_mbuf_def start_job_def Let_def)

lemma idle_last:
  assumes "pool_ok n w" and "idle_coros w \<noteq> []"
  shows "mset (idle_coros w) = add_mset (last (idle_coros w)) (mset (butlast (idle_coros w)))"
    and "last (idle_coros w) \<notin> set (busy_coros w)" and "last (idle_coros w) < length (coros w)"
proof -
  let ?i = "last (idle_coros w)"
  from assms(2) have "idle_coros w = butlast (idle_coros w) @ [?i]" by simp
  then show "mset (idle_coros w) = add_mset ?i (mset (butlast (idle_coros w)))"
    by (metis append.right_neutral mset_append mset.simps add_mset_add_single)
  from assms(1) have m: "mset (idle_coros w) + mset (busy_coros w) = mset [0..<length (coros w)]"
    by (auto simp: pool_ok_def)
  have "?i \<in> set (idle_coros w)" using assms(2) by (rule last_in_set)
  with mset_upt_facts [OF m] show "?i \<notin> set (busy_coros w)" "?i < length (coros w)" by blast+
qed

lemma store_valid_pool:
  assumes "pool_ok n w" and "idle_coros w \<noteq> []" shows "pool_ok n (store_valid cfg rx p w)"
  using idle_last [OF assms] assms(1)
  by (auto simp: pool_ok_def store_valid_def Let_def list_all_iff nth_list_update)

lemma store_invalid_mid: "worker_mid n w \<Longrightarrow> worker_mid n (store_invalid rx w)"
  by (auto simp: worker_mid_def store_invalid_def pool_ok_def)

lemma take_packet_no_buffer:
  "no_reply_buffer cfg p \<Longrightarrow> idle_coros w \<noteq> [] \<Longrightarrow> take_packet cfg p w = Inl null_tx_mbuf"
  by (cases p) (simp add: no_reply_buffer_def take_packet_def process_rx_mbuf_def Let_def)

lemma take_packet_mid:
  assumes "worker_mid n w" and "idle_coros w \<noteq> []" and "\<not> no_reply_buffer cfg p"
  obtains w1 where "take_packet cfg p w = Inr w1" "worker_mid n w1"
    "length (idle_coros w) \<le> Suc (length (idle_coros w1))"
proof -
  obtain rx a where p: "p = (rx, a)" by (cases p)
  show ?thesis
  proof (cases "is_rx_mbuf_valid cfg rx")
    case True
    then obtain q where a: "a = Some q" using assms(3) by (auto simp: p no_reply_buffer_def)
    have "worker_mid n (store_valid cfg rx q w)"
      using assms(1) store_valid_pool [OF _ assms(2), of n cfg rx q]
      by (simp add: worker_mid_def) (simp add: store_valid_def Let_def)
    with True that [of "store_valid cfg rx q w"] assms(2) show ?thesis
      by (simp add: p a take_packet_eq) (simp add: store_valid_def Let_def)
  next
    case False
    with that [of "store_invalid rx w"] store_invalid_mid [OF assms(1)] show ?thesis
      by (simp add: p take_packet_eq) (simp add: store_invalid_def)
  qed
qed

lemma take_packets_mid:
  assumes "worker_mid n w" and "length ps \<le> length (idle_coros w)"
  shows "case take_packets cfg ps w of
           Inl e \<Rightarrow> e = null_tx_mbuf \<and> list_ex (no_reply_buffer cfg) ps
         | Inr w1 \<Rightarrow> \<not> list_ex (no_reply_buffer cfg) ps \<and> worker_mid n w1"
  using assms
proof (induction ps arbitrary: w)
  case (Cons p ps)
  then have ne: "idle_coros w \<noteq> []" by auto
  show ?case
  proof (cases "no_reply_buffer cfg p")
    case True
    then show ?thesis by (simp add: take_packet_no_buffer [OF _ ne])
  next
    case False
    from take_packet_mid [OF Cons.prems(1) ne this] obtain w1 where w1: "take_packet cfg p w = Inr w1"
      "worker_mid n w1" "length (idle_coros w) \<le> Suc (length (idle_coros w1))" .
    with Cons.IH [OF w1(2)] Cons.prems(2) False show ?thesis by (auto split: sum.split)
  qed
qed simp

lemma tail_ok:
  assumes "worker_mid n w" shows "worker_ok n (worker_return (worker_tx nb w))"
  using assms by (auto simp: worker_ok_def worker_mid_def pool_ok_def worker_return_def worker_tx_def
      wants_flush_def worker_consts not_le)

text \<open>The packets the worker really takes from the ring in an iteration.\<close>

definition taken :: "worker_input \<Rightarrow> worker \<Rightarrow> (mbuf \<times> nat option) list" where
  "taken inp w =
     (case worker_run (in_finished inp) (in_now inp) w of
        Inl _ \<Rightarrow> [] | Inr w1 \<Rightarrow> if wants_dispatch w1 then in_rx inp else [])"

lemma iter_ok:
  assumes "worker_ok n w" and "\<And>w1. worker_run (in_finished inp) (in_now inp) w = Inr w1 \<Longrightarrow> input_ok inp w1"
  shows "case worker_iter cfg inp w of
           Inl e \<Rightarrow> e = null_tx_mbuf \<and> list_ex (no_reply_buffer cfg) (taken inp w)
         | Inr w' \<Rightarrow> \<not> list_ex (no_reply_buffer cfg) (taken inp w) \<and> worker_ok n w'"
proof -
  from run_mid [OF assms(1), of "in_finished inp" "in_now inp"] obtain w1 where
    w1: "worker_run (in_finished inp) (in_now inp) w = Inr w1" "worker_mid n w1" by metis
  show ?thesis
  proof (cases "wants_dispatch w1")
    case True
    have "length (rev (in_rx inp)) \<le> length (idle_coros w1)"
      using assms(2) [OF w1(1)] by (simp add: input_ok_def)
    from take_packets_mid [OF w1(2) this, of cfg] show ?thesis
      by (auto simp: worker_iter_def worker_dispatch_def taken_def w1(1) True list_ex_iff
          worker_mid_def intro!: tail_ok split: sum.splits)
  next
    case False
    then show ?thesis using w1(2) by (simp add: worker_iter_def worker_dispatch_def taken_def w1(1) tail_ok)
  qed
qed

section \<open>What one iteration moves\<close>

text \<open>The received buffers a worker answers for, the replies, and its unfinished quanta.\<close>

definition rx_of :: "coro_info \<Rightarrow> mbuf" where "rx_of c = the (rx_mbuf c)"
definition tx_of :: "coro_info \<Rightarrow> mbuf" where "tx_of c = the (tx_mbuf c)"

lemma buf_of_simps [simp]:
  "rx_of (c\<lparr> num_quanta := q \<rparr>) = rx_of c" "tx_of (c\<lparr> num_quanta := q \<rparr>) = tx_of c"
  "rx_mbuf c = Some b \<Longrightarrow> rx_of c = b" "tx_mbuf c = Some b \<Longrightarrow> tx_of c = b"
  by (simp_all add: rx_of_def tx_of_def)

definition rx_held :: "worker \<Rightarrow> mbuf multiset" where
  "rx_held w = mset (map (\<lambda>i. rx_of (coros w ! i)) (busy_coros w)) +
     mset (return_rx_bufs w) + mset (freed_rx w) + mset (leaked_rx w)"

definition tx_held :: "worker \<Rightarrow> mbuf multiset" where
  "tx_held w = mset (map (\<lambda>i. tx_of (coros w ! i)) (busy_coros w)) +
     mset (tx_bufs w) + mset (sent_tx w) + mset (refused_tx w)"

definition backlog :: "worker \<Rightarrow> u32" where
  "backlog w = sum_list (map (\<lambda>i. num_quanta (coros w ! i)) (busy_coros w))"

definition replies :: "server_cfg \<Rightarrow> (mbuf \<times> nat option) list \<Rightarrow> mbuf list" where
  "replies cfg ps = map (\<lambda>(rx, a). reply_mbuf cfg rx (the a)) (filter (\<lambda>p. is_rx_mbuf_valid cfg (fst p)) ps)"

text \<open>The packets taken in a run, also those of an iteration that fails.\<close>

fun loop_taken :: "server_cfg \<Rightarrow> worker_input list \<Rightarrow> worker \<Rightarrow> (mbuf \<times> nat option) list" where
  "loop_taken cfg [] w = []"
| "loop_taken cfg (inp # inps) w = taken inp w @
     (case worker_iter cfg inp w of Inl _ \<Rightarrow> [] | Inr w1 \<Rightarrow> loop_taken cfg inps w1)"

lemma resume_cases:
  assumes "resume_coro fin now w = Inr w1" and "pool_ok n w"
  obtains (idle) "busy_coros w = []" "w1 = w"
    | (preempt) i rest where "busy_coros w = i # rest" "\<not> fin" "i \<notin> set rest" "i < length (coros w)"
        "w1 = w\<lparr> busy_coros := rest @ [i], sq_count := sq_count w + 1,
                 last_cycle_ts := (if num_quanta (coros w ! i) = 0 then now else last_cycle_ts w),
                 coros := (coros w)[i := (coros w ! i)\<lparr> num_quanta := num_quanta (coros w ! i) + 1 \<rparr>],
                 dispatch_index := dispatch_index w + 1, flush_index := flush_index w + 1 \<rparr>"
    | (finish) i rest rx tx where "busy_coros w = i # rest" "fin" "i \<notin> set rest" "i < length (coros w)"
        "rx_mbuf (coros w ! i) = Some rx" "tx_mbuf (coros w ! i) = Some tx"
        "w1 = w\<lparr> busy_coros := rest, idle_coros := idle_coros w @ [i],
                 return_rx_bufs := return_rx_bufs w @ [rx], tx_bufs := tx_bufs w @ [tx],
                 size_count := size_count w + 1, sq_count := sq_count w - ucast (num_quanta (coros w ! i)),
                 last_cycle_ts := (if num_quanta (coros w ! i) = 0 then now else last_cycle_ts w),
                 dispatch_index := dispatch_index w + 1, flush_index := flush_index w + 1 \<rparr>"
proof (cases "busy_coros w")
  case Nil
  with assms(1) have "w1 = w" by (simp add: resume_coro_def)
  with Nil show ?thesis by (rule idle)
next
  case (Cons i rest)
  with assms(2) have m: "mset (idle_coros w) + mset (i # rest) = mset [0..<length (coros w)]"
    by (auto simp: pool_ok_def)
  from mset_upt_facts [OF m] have i: "i \<notin> set rest" "i < length (coros w)" by auto
  show ?thesis
  proof (cases fin)
    case True
    with assms Cons obtain rx tx where bufs: "rx_mbuf (coros w ! i) = Some rx" "tx_mbuf (coros w ! i) = Some tx"
      by (auto simp: pool_ok_def has_bufs_def)
    from Cons True i bufs show ?thesis
      by (rule finish) (use assms(1) True Cons bufs in
        \<open>auto simp: resume_coro_def Let_def finished_def array_push_def split: if_splits\<close>)
  next
    case False
    from Cons False i show ?thesis
      by (rule preempt) (use assms(1) False Cons in \<open>auto simp: resume_coro_def Let_def preempted_def upd_coro_def\<close>)
  qed
qed

lemma resume_held:
  assumes "resume_coro fin now w = Inr w1" and "pool_ok n w"
  shows "rx_held w1 = rx_held w \<and> tx_held w1 = tx_held w \<and>
         ucast (sq_count w1) - backlog w1 = ucast (sq_count w) - backlog w"
  using assms
proof (cases rule: resume_cases)
  case (preempt i rest)
  then show ?thesis by (simp add: rx_held_def tx_held_def backlog_def ucast_down_add)
next
  case (finish i rest rx tx)
  then show ?thesis by (simp add: rx_held_def tx_held_def backlog_def ucast_down_sub ucast_down_up)
qed simp

lemma run_held:
  assumes "worker_run fin now w = Inr w1" and "pool_ok n w"
  shows "rx_held w1 = rx_held w \<and> tx_held w1 = tx_held w \<and>
         ucast (sq_count w1) - backlog w1 = ucast (sq_count w) - backlog w"
proof -
  let ?w = "w\<lparr> force_flush := False, force_dispatch := False \<rparr>"
  from assms(1) obtain w0 where w0: "resume_coro fin now ?w = Inr w0"
    "w1 = (if busy_coros w0 = [] then w0\<lparr> force_dispatch := True, force_flush := (tx_bufs w0 \<noteq> []) \<rparr> else w0)"
    by (auto simp: worker_run_def split: sum.splits)
  have "rx_held w1 = rx_held w0" "tx_held w1 = tx_held w0" "sq_count w1 = sq_count w0" "backlog w1 = backlog w0"
    by (simp_all add: w0(2) rx_held_def tx_held_def backlog_def)
  with resume_held [OF w0(1), of n] assms(2) show ?thesis
    by (simp add: rx_held_def tx_held_def backlog_def)
qed

lemma take_packet_cases:
  assumes "take_packet cfg p w = Inr w1"
  obtains (invalid) rx a where "p = (rx, a)" "\<not> is_rx_mbuf_valid cfg rx" "w1 = store_invalid rx w"
    | (valid) rx q where "p = (rx, Some q)" "is_rx_mbuf_valid cfg rx" "idle_coros w \<noteq> []"
        "w1 = store_valid cfg rx q w"
proof (cases p)
  case (Pair rx a)
  show ?thesis
  proof (cases "is_rx_mbuf_valid cfg rx")
    case False
    with invalid Pair assms show ?thesis by (simp add: take_packet_eq)
  next
    case True
    with assms Pair obtain q where "a = Some q" "idle_coros w \<noteq> []"
      by (cases a) (auto simp: take_packet_def process_rx_mbuf_def Let_def split: if_splits)
    with True valid Pair assms show ?thesis by (simp add: take_packet_eq)
  qed
qed

lemma take_packet_pool:
  assumes "take_packet cfg p w = Inr w1" and "worker_mid n w" shows "worker_mid n w1"
  using assms(1)
proof (cases rule: take_packet_cases)
  case (valid rx q)
  with assms(2) have "pool_ok n w1" by (simp add: store_valid_pool worker_mid_def)
  with valid assms(2) show ?thesis by (simp add: worker_mid_def store_valid_def Let_def)
qed (use assms(2) store_invalid_mid in simp)

lemma take_packet_held:
  assumes "take_packet cfg p w = Inr w1" and "pool_ok n w"
  shows "rx_held w1 = rx_held w + {#fst p#} \<and> tx_held w1 = tx_held w + mset (replies cfg [p]) \<and>
         sq_count w1 = sq_count w \<and> backlog w1 = backlog w \<and> size_count w1 = size_count w"
  using assms(1)
proof (cases rule: take_packet_cases)
  case invalid
  then show ?thesis by (simp add: store_invalid_def rx_held_def tx_held_def backlog_def replies_def)
next
  case (valid rx q)
  with idle_last [OF assms(2)] show ?thesis
    by (simp add: store_valid_def rx_held_def tx_held_def backlog_def replies_def Let_def)
qed

lemma take_packets_held:
  assumes "take_packets cfg ps w = Inr w1" and "worker_mid n w"
  shows "worker_mid n w1 \<and> rx_held w1 = rx_held w + mset (map fst ps) \<and>
         tx_held w1 = tx_held w + mset (replies cfg ps) \<and>
         sq_count w1 = sq_count w \<and> backlog w1 = backlog w \<and> size_count w1 = size_count w"
  using assms
proof (induction ps arbitrary: w)
  case (Cons p ps)
  then obtain w0 where w0: "take_packet cfg p w = Inr w0" "take_packets cfg ps w0 = Inr w1"
    by (auto split: sum.splits)
  have "replies cfg (p # ps) = replies cfg [p] @ replies cfg ps" by (simp add: replies_def)
  with Cons.IH [OF w0(2) take_packet_pool [OF w0(1) Cons.prems(2)]] take_packet_held [OF w0(1), of n] Cons.prems(2)
  show ?case by (simp add: worker_mid_def)
qed (simp add: replies_def)

lemma tail_held:
  "rx_held (worker_return (worker_tx nb w)) = rx_held w" "tx_held (worker_return (worker_tx nb w)) = tx_held w"
  "backlog (worker_return (worker_tx nb w)) = backlog w"
  "sq_count (worker_return (worker_tx nb w)) = sq_count w" "size_count (worker_return (worker_tx nb w)) = size_count w"
proof -
  have "mset (take nb xs) + mset (drop nb xs) = mset xs" for xs :: "mbuf list"
    by (metis append_take_drop_id mset_append)
  then show "tx_held (worker_return (worker_tx nb w)) = tx_held w"
    by (simp add: worker_return_def worker_tx_def tx_held_def)
qed (simp_all add: worker_return_def worker_tx_def rx_held_def backlog_def)

lemma mset_replies_rev [simp]: "mset (replies cfg (rev ps)) = mset (replies cfg ps)"
  by (simp add: replies_def rev_filter [symmetric] flip: rev_map)

lemma iter_split:
  assumes "worker_iter cfg inp w = Inr w'"
  obtains w1 w2 where "worker_run (in_finished inp) (in_now inp) w = Inr w1"
    "take_packets cfg (rev (taken inp w)) w1 = Inr w2"
    "w' = worker_return (worker_tx (in_nb_tx inp) (if wants_dispatch w1 then w2\<lparr> dispatch_index := 0 \<rparr> else w2))"
  using assms by (auto simp: worker_iter_def worker_dispatch_def taken_def split: sum.splits if_splits)

lemma iter_held:
  assumes "worker_iter cfg inp w = Inr w'" and "worker_ok n w"
  shows "worker_ok n w' \<and> rx_held w' = rx_held w + mset (map fst (taken inp w)) \<and>
         tx_held w' = tx_held w + mset (replies cfg (taken inp w)) \<and>
         ucast (sq_count w') - backlog w' = ucast (sq_count w) - backlog w"
  using assms(1)
proof (cases rule: iter_split)
  case (1 w1 w2)
  let ?w = "if wants_dispatch w1 then w2\<lparr> dispatch_index := 0 \<rparr> else w2"
  from run_mid [OF assms(2), of "in_finished inp" "in_now inp"] 1(1) have "worker_mid n w1" by auto
  note T = take_packets_held [OF 1(2) this]
  moreover have "rx_held ?w = rx_held w2" "tx_held ?w = tx_held w2" "backlog ?w = backlog w2" 
    "sq_count ?w = sq_count w2" "worker_mid n ?w = worker_mid n w2"
    by (simp_all add: rx_held_def tx_held_def backlog_def worker_mid_def)
  ultimately show ?thesis
    using run_held [OF 1(1), of n] assms(2) tail_ok [of n ?w]
    by (simp add: 1(3) tail_held worker_ok_def)
qed

section \<open>Runs of the loop\<close>

text \<open>In every iteration the ring hands out no more packets than it is asked for.\<close>

fun inputs_ok :: "server_cfg \<Rightarrow> worker_input list \<Rightarrow> worker \<Rightarrow> bool" where
  "inputs_ok cfg [] w = True"
| "inputs_ok cfg (inp # inps) w =
     ((case worker_run (in_finished inp) (in_now inp) w of Inl _ \<Rightarrow> True | Inr w1 \<Rightarrow> input_ok inp w1) \<and>
      (case worker_iter cfg inp w of Inl _ \<Rightarrow> True | Inr w1 \<Rightarrow> inputs_ok cfg inps w1))"

lemma worker_init_ok: "worker_ok n (worker_init n sq0)"
  by (simp add: worker_ok_def pool_ok_def worker_init_def worker_consts)

lemma loop_result:
  assumes "worker_ok n w" and "inputs_ok cfg inps w"
  shows "case worker_loop cfg inps w of
           Inl e \<Rightarrow> e = null_tx_mbuf \<and> list_ex (no_reply_buffer cfg) (loop_taken cfg inps w)
         | Inr w' \<Rightarrow> \<not> list_ex (no_reply_buffer cfg) (loop_taken cfg inps w) \<and> worker_ok n w'"
  using assms
proof (induction inps arbitrary: w)
  case (Cons inp inps)
  from Cons.prems have "\<And>w1. worker_run (in_finished inp) (in_now inp) w = Inr w1 \<Longrightarrow> input_ok inp w1"
    by simp
  note I = iter_ok [OF Cons.prems(1) this, of cfg]
  show ?case
  proof (cases "worker_iter cfg inp w")
    case (Inl e)
    then show ?thesis using I by simp
  next
    case (Inr w1)
    then show ?thesis using I Cons.IH [of w1] Cons.prems(2) by (auto split: sum.split)
  qed
qed simp

lemma loop_ok:
  assumes "worker_ok n w" and "inputs_ok cfg inps w"
    and "\<not> list_ex (no_reply_buffer cfg) (loop_taken cfg inps w)"
  shows "\<exists>w'. worker_loop cfg inps w = Inr w' \<and> worker_ok n w'"
  using loop_result [OF assms(1,2)] assms(3) by (auto split: sum.splits)

lemma replies_append: "replies cfg (ps @ qs) = replies cfg ps @ replies cfg qs"
  by (simp add: replies_def)

lemma loop_held:
  assumes "worker_loop cfg inps w = Inr w'" and "worker_ok n w"
  shows "worker_ok n w' \<and> rx_held w' = rx_held w + mset (map fst (loop_taken cfg inps w)) \<and>
         tx_held w' = tx_held w + mset (replies cfg (loop_taken cfg inps w)) \<and>
         ucast (sq_count w') - backlog w' = ucast (sq_count w) - backlog w"
  using assms
proof (induction inps arbitrary: w)
  case (Cons inp inps)
  then obtain w1 where w1: "worker_iter cfg inp w = Inr w1" "worker_loop cfg inps w1 = Inr w'"
    by (auto split: sum.splits)
  note I = iter_held [OF w1(1) Cons.prems(2)]
  with Cons.IH [OF w1(2)] w1(1) show ?case by (simp add: replies_append)
qed (simp add: replies_def)

text \<open>Jobs whose reply is ready.\<close>

definition num_done :: "worker \<Rightarrow> nat" where
  "num_done w = length (tx_bufs w) + length (sent_tx w) + length (refused_tx w)"

lemma take_packets_done:
  "take_packets cfg ps w = Inr w1 \<Longrightarrow> num_done w1 = num_done w \<and> size_count w1 = size_count w"
proof (induction ps arbitrary: w)
  case (Cons p ps)
  then obtain w0 where w0: "take_packet cfg p w = Inr w0" "take_packets cfg ps w0 = Inr w1"
    by (auto split: sum.splits)
  from w0(1) have "num_done w0 = num_done w \<and> size_count w0 = size_count w"
    by (cases rule: take_packet_cases) (simp_all add: num_done_def store_invalid_def store_valid_def Let_def)
  with Cons.IH [OF w0(2)] show ?case by simp
qed simp

lemma run_done:
  assumes "worker_run fin now w = Inr w1" and "pool_ok n w"
  shows "size_count w1 - of_nat (num_done w1) = size_count w - of_nat (num_done w)"
proof -
  let ?w = "w\<lparr> force_flush := False, force_dispatch := False \<rparr>"
  from assms(1) obtain w0 where w0: "resume_coro fin now ?w = Inr w0"
    "w1 = (if busy_coros w0 = [] then w0\<lparr> force_dispatch := True, force_flush := (tx_bufs w0 \<noteq> []) \<rparr> else w0)"
    by (auto simp: worker_run_def split: sum.splits)
  have p: "pool_ok n ?w" using assms(2) by simp
  from w0(1) p have "size_count w0 - of_nat (num_done w0) = size_count ?w - of_nat (num_done ?w)"
    by (cases rule: resume_cases) (simp_all add: num_done_def)
  with w0(2) show ?thesis by (simp add: num_done_def)
qed

lemma tail_done [simp]: "num_done (worker_return (worker_tx nb w)) = num_done w"
  by (simp add: num_done_def worker_return_def worker_tx_def min_def)

lemma iter_done:
  assumes "worker_iter cfg inp w = Inr w1" and "worker_ok n w"
  shows "size_count w1 - of_nat (num_done w1) = size_count w - of_nat (num_done w)"
  using assms(1)
proof (cases rule: iter_split)
  case (1 u v)
  from take_packets_done [OF 1(2)] have "num_done (if wants_dispatch u then v\<lparr> dispatch_index := 0 \<rparr> else v) = num_done u"
    by (simp add: num_done_def)
  with run_done [OF 1(1), of n] assms(2) take_packets_done [OF 1(2)] show ?thesis
    by (simp add: 1(3) tail_held worker_ok_def)
qed

lemma loop_done:
  assumes "worker_loop cfg inps w = Inr w'" and "worker_ok n w"
  shows "size_count w' - of_nat (num_done w') = size_count w - of_nat (num_done w)"
  using assms
proof (induction inps arbitrary: w)
  case (Cons inp inps)
  then obtain w1 where w1: "worker_iter cfg inp w = Inr w1" "worker_loop cfg inps w1 = Inr w'"
    by (auto split: sum.splits)
  from iter_done [OF w1(1) Cons.prems(2)] Cons.IH [OF w1(2)] iter_held [OF w1(1) Cons.prems(2)]
  show ?case by simp
qed simp

lemma num_jobs: "size (tx_held w) = length (busy_coros w) + num_done w"
  by (simp add: tx_held_def num_done_def)

section \<open>Order of service\<close>

lemma take_packets_order:
  assumes "take_packets cfg ps w = Inr w1" and "worker_mid n w"
  shows "\<exists>new. busy_coros w1 = rev new @ busy_coros w \<and>
      map (\<lambda>i. rx_of (coros w1 ! i)) new = map fst (filter (\<lambda>p. is_rx_mbuf_valid cfg (fst p)) ps) \<and>
      (\<forall>i. i \<in> set (busy_coros w) \<longrightarrow> coros w1 ! i = coros w ! i)"
  using assms
proof (induction ps arbitrary: w)
  case (Cons p ps)
  then obtain w0 where w0: "take_packet cfg p w = Inr w0" "take_packets cfg ps w0 = Inr w1"
    by (auto split: sum.splits)
  from Cons.IH [OF w0(2) take_packet_pool [OF w0(1) Cons.prems(2)]] obtain new where
    new: "busy_coros w1 = rev new @ busy_coros w0"
      "map (\<lambda>i. rx_of (coros w1 ! i)) new = map fst (filter (\<lambda>p. is_rx_mbuf_valid cfg (fst p)) ps)"
      "\<forall>i. i \<in> set (busy_coros w0) \<longrightarrow> coros w1 ! i = coros w0 ! i" by blast
  from w0(1) show ?case
  proof (cases rule: take_packet_cases)
    case invalid
    then have "busy_coros w0 = busy_coros w" "coros w0 = coros w" by (simp_all add: store_invalid_def)
    with invalid new show ?thesis by auto
  next
    case (valid rx q)
    let ?i = "last (idle_coros w)"
    from idle_last [of n w] valid(3) Cons.prems(2) have i: "?i \<notin> set (busy_coros w)" "?i < length (coros w)"
      by (simp_all add: worker_mid_def)
    from valid(4) have w: "busy_coros w0 = ?i # busy_coros w" "coros w0 = (coros w)[?i := start_job cfg rx q (coros w ! ?i)]"
      by (simp_all add: store_valid_def Let_def)
    have "rx_of (coros w1 ! ?i) = rx" using new(3) w i(2) by simp
    moreover have "coros w1 ! j = coros w ! j" if "j \<in> set (busy_coros w)" for j
    proof -
      have "?i \<noteq> j" using that i(1) by blast
      with new(3) w that show ?thesis by simp
    qed
    ultimately show ?thesis using new(1,2) w(1) valid
      by (intro exI [of _ "?i # new"]) simp
  qed
qed simp

text \<open>An iteration in which the running job is preempted and the ring is empty.\<close>

definition quiet :: "worker_input \<Rightarrow> bool" where
  "quiet inp \<longleftrightarrow> \<not> in_finished inp \<and> in_rx inp = []"

lemma tail_sel [simp]:
  "busy_coros (worker_return (worker_tx nb w)) = busy_coros w"
  "idle_coros (worker_return (worker_tx nb w)) = idle_coros w"
  "coros (worker_return (worker_tx nb w)) = coros w"
  "dispatch_index (worker_return (worker_tx nb w)) = dispatch_index w"
  by (simp_all add: worker_return_def worker_tx_def)

lemma quiet_iter:
  assumes "quiet inp" and "busy_coros w = i # rest"
  shows "\<exists>w'. worker_iter cfg inp w = Inr w' \<and> busy_coros w' = rest @ [i] \<and>
    coros w' = (coros w)[i := (coros w ! i)\<lparr> num_quanta := num_quanta (coros w ! i) + 1 \<rparr>] \<and>
    sq_count w' = sq_count w + 1 \<and> idle_coros w' = idle_coros w"
proof -
  have d: "worker_dispatch cfg [] v = Inr (if wants_dispatch v then v\<lparr> dispatch_index := 0 \<rparr> else v)" for v
    by (simp add: worker_dispatch_def)
  have "\<exists>v. worker_run False (in_now inp) w = Inr v \<and> busy_coros v = rest @ [i] \<and>
      coros v = (coros w)[i := (coros w ! i)\<lparr> num_quanta := num_quanta (coros w ! i) + 1 \<rparr>] \<and>
      sq_count v = sq_count w + 1 \<and> idle_coros v = idle_coros w"
    using assms(2) by (simp add: worker_run_def resume_coro_def preempted_def upd_coro_def Let_def)
  with assms(1) show ?thesis by (auto simp: quiet_def worker_iter_def d tail_held)
qed

lemma quiet_loop:
  assumes "list_all quiet inps" and "busy_coros w = front @ rear" and "length inps = length front"
    and "distinct (front @ rear)" and "list_all (\<lambda>i. i < length (coros w)) (front @ rear)"
  shows "\<exists>w'. worker_loop cfg inps w = Inr w' \<and> busy_coros w' = rear @ front \<and>
      sq_count w' = sq_count w + of_nat (length front) \<and> idle_coros w' = idle_coros w \<and>
      (\<forall>i. coros w' ! i = (if i \<in> set front then (coros w ! i)\<lparr> num_quanta := num_quanta (coros w ! i) + 1 \<rparr>
                           else coros w ! i))"
  using assms
proof (induction inps arbitrary: w front rear)
  case (Cons inp inps)
  then obtain i front' where f: "front = i # front'" by (cases front) auto
  with Cons.prems have b: "quiet inp" "busy_coros w = i # (front' @ rear)" by auto
  from quiet_iter [OF this, of cfg] obtain w1 where w1: "worker_iter cfg inp w = Inr w1"
    "busy_coros w1 = front' @ (rear @ [i])" "idle_coros w1 = idle_coros w" "sq_count w1 = sq_count w + 1"
    "coros w1 = (coros w)[i := (coros w ! i)\<lparr> num_quanta := num_quanta (coros w ! i) + 1 \<rparr>]"
    by auto
  have "i < length (coros w)" "i \<notin> set front'" using Cons.prems(4,5) f by auto
  with Cons.IH [of w1 front' "rear @ [i]"] Cons.prems f w1 show ?case
    by (auto simp: nth_list_update)
qed simp

section \<open>Replies leave\<close>

lemma take_packets_tx:
  "take_packets cfg ps w = Inr w1 \<Longrightarrow> tx_bufs w1 = tx_bufs w \<and> sent_tx w1 = sent_tx w \<and>
     refused_tx w1 = refused_tx w \<and> flush_index w1 = flush_index w \<and> force_flush w1 = force_flush w"
proof (induction ps arbitrary: w)
  case (Cons p ps)
  then obtain w0 where w0: "take_packet cfg p w = Inr w0" "take_packets cfg ps w0 = Inr w1"
    by (auto split: sum.splits)
  from w0(1) have "tx_bufs w0 = tx_bufs w \<and> sent_tx w0 = sent_tx w \<and> refused_tx w0 = refused_tx w \<and>
      flush_index w0 = flush_index w \<and> force_flush w0 = force_flush w"
    by (cases rule: take_packet_cases) (simp_all add: store_invalid_def store_valid_def Let_def)
  with Cons.IH [OF w0(2)] show ?case by simp
qed simp

lemma run_tx:
  assumes "worker_run fin now w = Inr w1" and "pool_ok n w"
  shows "sent_tx w1 = sent_tx w" "refused_tx w1 = refused_tx w" "set (tx_bufs w) \<subseteq> set (tx_bufs w1)"
    "tx_bufs w \<noteq> [] \<Longrightarrow> force_flush w1 \<or> flush_index w1 = flush_index w + 1"
proof -
  let ?w = "w\<lparr> force_flush := False, force_dispatch := False \<rparr>"
  from assms(1) obtain w0 where w0: "resume_coro fin now ?w = Inr w0"
    "w1 = (if busy_coros w0 = [] then w0\<lparr> force_dispatch := True, force_flush := (tx_bufs w0 \<noteq> []) \<rparr> else w0)"
    by (auto simp: worker_run_def split: sum.splits)
  have p: "pool_ok n ?w" using assms(2) by simp
  from w0(1) p show "sent_tx w1 = sent_tx w" "refused_tx w1 = refused_tx w"
    by (cases rule: resume_cases; simp add: w0(2))+
  from w0(1) p show "set (tx_bufs w) \<subseteq> set (tx_bufs w1)"
    by (cases rule: resume_cases) (auto simp: w0(2))
  assume "tx_bufs w \<noteq> []"
  with w0(1) p show "force_flush w1 \<or> flush_index w1 = flush_index w + 1"
    by (cases rule: resume_cases) (simp_all add: w0(2))
qed

lemma iter_tx:
  assumes "worker_iter cfg inp w = Inr w'" and "pool_ok n w" and "tx_bufs w \<noteq> []"
  shows "set (tx_bufs w) \<subseteq> set (sent_tx w') \<union> set (refused_tx w') \<or>
      set (tx_bufs w) \<subseteq> set (tx_bufs w') \<and> flush_index w' = flush_index w + 1"
  using assms(1)
proof (cases rule: iter_split)
  case (1 w1 w2)
  let ?v = "if wants_dispatch w1 then w2\<lparr> dispatch_index := 0 \<rparr> else w2"
  note R = run_tx [OF 1(1) assms(2)] take_packets_tx [OF 1(2)]
  have ff: "wants_flush ?v" if "force_flush w1" using that R(5) by (simp add: wants_flush_def)
  have flush: "set (take k xs) \<union> set (drop k xs) = set xs" for k and xs :: "mbuf list"
    by (metis append_take_drop_id set_append)
  show ?thesis
  proof (cases "wants_flush ?v")
    case True
    then have "set (tx_bufs w2) \<subseteq> set (sent_tx w') \<union> set (refused_tx w')"
      using flush [of "in_nb_tx inp" "tx_bufs w2"] by (auto simp: 1(3) worker_return_def worker_tx_def)
    with R(3,5) show ?thesis by auto
  next
    case False
    with ff R(4) [OF assms(3)] R(3,5) show ?thesis by (auto simp: 1(3) worker_return_def worker_tx_def)
  qed
qed

lemma iter_tx_log:
  assumes "worker_iter cfg inp w = Inr w'" and "pool_ok n w"
  shows "set (sent_tx w) \<union> set (refused_tx w) \<subseteq> set (sent_tx w') \<union> set (refused_tx w')"
  using assms(1)
proof (cases rule: iter_split)
  case (1 w1 w2)
  with run_tx [OF 1(1) assms(2)] take_packets_tx [OF 1(2)] show ?thesis
    by (auto simp: worker_return_def worker_tx_def)
qed

lemma loop_tx_log:
  "worker_loop cfg inps w = Inr w' \<Longrightarrow> worker_ok n w \<Longrightarrow>
   set (sent_tx w) \<union> set (refused_tx w) \<subseteq> set (sent_tx w') \<union> set (refused_tx w')"
proof (induction inps arbitrary: w)
  case (Cons inp inps)
  then obtain w1 where w1: "worker_iter cfg inp w = Inr w1" "worker_loop cfg inps w1 = Inr w'"
    by (auto split: sum.splits)
  have "worker_ok n w1" using iter_held [OF w1(1) Cons.prems(2)] by simp
  with Cons.IH [OF w1(2)] iter_tx_log [OF w1(1), of n] Cons.prems(2) show ?case
    unfolding worker_ok_def by blast
qed simp

lemma loop_flushes:
  assumes "worker_loop cfg inps w = Inr w'" and "worker_ok n w" and "b \<in> set (tx_bufs w)"
    and "TX_DEQUEUE_PERIOD \<le> length inps + unat (flush_index w)"
  shows "b \<in> set (sent_tx w') \<union> set (refused_tx w')"
  using assms
proof (induction inps arbitrary: w)
  case Nil
  then have "unat (flush_index w) < TX_DEQUEUE_PERIOD" by (auto simp: worker_ok_def)
  with Nil show ?case by simp
next
  case (Cons inp inps)
  then obtain w1 where w1: "worker_iter cfg inp w = Inr w1" "worker_loop cfg inps w1 = Inr w'"
    by (auto split: sum.splits)
  have ok: "worker_ok n w1" using iter_held [OF w1(1) Cons.prems(2)] by simp
  have p: "pool_ok n w" "tx_bufs w \<noteq> []" "unat (flush_index w) < 4"
    using Cons.prems by (auto simp: worker_ok_def worker_consts)
  from p(3) have u: "unat (flush_index w + 1) = Suc (unat (flush_index w))"
    by (subst unat_add_lem [THEN iffD1]) simp_all
  from iter_tx [OF w1(1) p(1,2)] show ?case
  proof
    assume "set (tx_bufs w) \<subseteq> set (sent_tx w1) \<union> set (refused_tx w1)"
    with loop_tx_log [OF w1(2) ok] Cons.prems(3) show ?thesis by blast
  next
    assume "set (tx_bufs w) \<subseteq> set (tx_bufs w1) \<and> flush_index w1 = flush_index w + 1"
    with Cons.IH [OF w1(2) ok] Cons.prems(3,4) u show ?thesis by auto
  qed
qed

section \<open>A concrete run\<close>

text \<open>
  The run the witnesses use: two coroutines; the first iteration takes a valid request and a
  packet for another host, the second runs the job for a quantum, the third finishes it.
\<close>

definition demo_cfg :: server_cfg where
  "demo_cfg = \<lparr> my_eth = [1, 1, 1, 1, 1, 1], my_ip = 0x0A000001, server_port = 6789, use_leveldb = False \<rparr>"

definition demo_room :: "byte \<Rightarrow> byte list" where
  "demo_room host = [1, 1, 1, 1, 1, 1, 2, 2, 2, 2, 2, 2, 8, 0] @
     [0x45, 0, 0, 0, 0, 0, 0, 0, 64, 17, 0, 0, 10, 0, 0, 2, 10, 0, 0, host] @ replicate 56 0"

definition demo_rx :: "nat \<Rightarrow> byte \<Rightarrow> mbuf" where
  "demo_rx p host = \<lparr> m_ptr = p, m_room = demo_room host, pkt_len = 90 \<rparr>"

definition demo_inputs :: "worker_input list" where
  "demo_inputs =
     [\<lparr> in_finished = False, in_now = 5, in_rx = [(demo_rx 1 1, Some 10), (demo_rx 2 9, Some 11)], in_nb_tx = 0 \<rparr>,
      \<lparr> in_finished = False, in_now = 6, in_rx = [], in_nb_tx = 0 \<rparr>,
      \<lparr> in_finished = True, in_now = 7, in_rx = [], in_nb_tx = 1 \<rparr>]"

lemma demo_inputs_ok: "inputs_ok demo_cfg demo_inputs (worker_init 2 7)"
  by code_simp

lemma demo_buffers: "\<not> list_ex (no_reply_buffer demo_cfg) (loop_taken demo_cfg demo_inputs (worker_init 2 7))"
  by code_simp

lemma demo_run: "\<exists>w. worker_loop demo_cfg demo_inputs (worker_init 2 7) = Inr w"
  using loop_ok [OF worker_init_ok demo_inputs_ok demo_buffers] by blast

section \<open>Properties\<close>

text \<open>
  C3. The worker's main loop faults in one way only. From its initial state, and as long as the
  ring hands out no more packets than asked for, no iteration overflows
  \<^verbatim>\<open>return_rx_bufs\<close> or \<^verbatim>\<open>tx_bufs\<close>, takes from an empty container or finds a finished
  job without its buffers, and at each loop head every coroutine is in exactly one of
  \<^verbatim>\<open>idle_coros\<close> and \<^verbatim>\<open>busy_coros\<close>. The one fault left is the use of the null pointer
  that \<^verbatim>\<open>rte_pktmbuf_alloc\<close> returns from an exhausted pool: the loop stops with it exactly
  when the worker has taken a valid request for which there is no transmit buffer.
\<close>

theorem worker_loop_safe:
  assumes "inputs_ok cfg inps (worker_init n sq0)"
  shows "case worker_loop cfg inps (worker_init n sq0) of
      Inl e \<Rightarrow> e = null_tx_mbuf \<and>
        list_ex (no_reply_buffer cfg) (loop_taken cfg inps (worker_init n sq0))
    | Inr w \<Rightarrow> \<not> list_ex (no_reply_buffer cfg) (loop_taken cfg inps (worker_init n sq0)) \<and>
        mset (idle_coros w) + mset (busy_coros w) = mset [0..<n] \<and>
        length (return_rx_bufs w) < RETURN_RING_BURST_SIZE \<and> length (tx_bufs w) < TX_QUEUE_BURST_SIZE"
  using loop_result [OF worker_init_ok assms] by (auto simp: worker_ok_def pool_ok_def split: sum.split)

theorem worker_loop_safe_witness:
  "(\<exists>w. worker_loop demo_cfg demo_inputs (worker_init 2 7) = Inr w \<and>
     mset (idle_coros w) + mset (busy_coros w) = mset [0..<2] \<and>
     length (return_rx_bufs w) < RETURN_RING_BURST_SIZE \<and> length (tx_bufs w) < TX_QUEUE_BURST_SIZE) \<and>
   worker_loop demo_cfg [hd demo_inputs\<lparr> in_rx := [(demo_rx 1 1, None)] \<rparr>] (worker_init 2 7) =
     Inl null_tx_mbuf"
proof -
  let ?inps = "[hd demo_inputs\<lparr> in_rx := [(demo_rx 1 1, None)] \<rparr>]"
  have "inputs_ok demo_cfg ?inps (worker_init 2 7)" by code_simp
  note fail = worker_loop_safe [OF this]
  have "list_ex (no_reply_buffer demo_cfg) (loop_taken demo_cfg ?inps (worker_init 2 7))" by code_simp
  with fail have "worker_loop demo_cfg ?inps (worker_init 2 7) = Inl null_tx_mbuf"
    by (auto split: sum.splits)
  then show ?thesis
    using worker_loop_safe [OF demo_inputs_ok] demo_run by auto
qed

text \<open>
  C4. Requests and replies are conserved. After any run of the loop, the received buffers that
  running coroutines use, that wait to be returned, that were freed or that were forgotten are
  exactly the buffers taken from the ring; and the replies of running coroutines, waiting to be
  sent, sent, or refused by the NIC are exactly one reply per valid request taken.
\<close>

theorem worker_conserves_packets:
  assumes "worker_loop cfg inps (worker_init n sq0) = Inr w"
  shows "rx_held w = mset (map fst (loop_taken cfg inps (worker_init n sq0))) \<and>
         tx_held w = mset (replies cfg (loop_taken cfg inps (worker_init n sq0)))"
proof -
  have "rx_held (worker_init n sq0) = {#}" "tx_held (worker_init n sq0) = {#}"
    by (simp_all add: worker_init_def rx_held_def tx_held_def)
  with loop_held [OF assms worker_init_ok] show ?thesis by simp
qed

theorem worker_conserves_packets_witness:
  "\<exists>w. worker_loop demo_cfg demo_inputs (worker_init 2 7) = Inr w \<and>
     rx_held w = {#demo_rx 1 1, demo_rx 2 9#} \<and> tx_held w = {#reply_mbuf demo_cfg (demo_rx 1 1) 10#}"
proof -
  have "loop_taken demo_cfg demo_inputs (worker_init 2 7) = [(demo_rx 1 1, Some 10), (demo_rx 2 9, Some 11)]"
    by code_simp
  moreover have "is_rx_mbuf_valid demo_cfg (demo_rx 1 1)" "\<not> is_rx_mbuf_valid demo_cfg (demo_rx 2 9)"
    by code_simp+
  moreover obtain w where w: "worker_loop demo_cfg demo_inputs (worker_init 2 7) = Inr w"
    using demo_run by blast
  ultimately show ?thesis using worker_conserves_packets [OF w] by (simp add: w replies_def)
qed

text \<open>
  C9. The counters a worker publishes mean what the dispatcher takes them for: \<^verbatim>\<open>size\<close> is
  the number of jobs whose reply is complete, the running jobs and those are all valid requests
  taken, and \<^verbatim>\<open>sq\<close>, read as a 32-bit value, exceeds its initial value by the quanta
  already given to the jobs still running.
\<close>

theorem worker_counters:
  assumes "worker_loop cfg inps (worker_init n sq0) = Inr w"
  shows "size_count w = of_nat (num_done w) \<and>
         length (busy_coros w) + num_done w = length (replies cfg (loop_taken cfg inps (worker_init n sq0))) \<and>
         ucast (sq_count w) = ucast sq0 + backlog w"
proof -
  have i: "tx_held (worker_init n sq0) = {#}" "size_count (worker_init n sq0) = 0"
    "num_done (worker_init n sq0) = 0" "sq_count (worker_init n sq0) = sq0" "backlog (worker_init n sq0) = 0"
    by (simp_all add: worker_init_def tx_held_def num_done_def backlog_def)
  from loop_held [OF assms worker_init_ok] i num_jobs [of w] loop_done [OF assms worker_init_ok]
  show ?thesis by (simp add: algebra_simps)
qed

theorem worker_counters_witness:
  "\<exists>w. worker_loop demo_cfg demo_inputs (worker_init 2 7) = Inr w \<and> size_count w = of_nat (num_done w) \<and>
     length (busy_coros w) + num_done w = 1"
proof -
  have "length (replies demo_cfg (loop_taken demo_cfg demo_inputs (worker_init 2 7))) = 1"
    by code_simp
  moreover obtain w where w: "worker_loop demo_cfg demo_inputs (worker_init 2 7) = Inr w"
    using demo_run by blast
  ultimately show ?thesis using worker_counters [OF w] w by auto
qed

text \<open>
  C10. Jobs share the worker round robin: while no job finishes and none arrives, after as many
  iterations as there are busy coroutines each of them has run for one quantum more, the order
  is the one at the start, and \<^verbatim>\<open>sq\<close> has grown by their number.
\<close>

theorem worker_round_robin:
  assumes "worker_ok n w" and "list_all quiet inps" and "length inps = length (busy_coros w)"
  shows "\<exists>w'. worker_loop cfg inps w = Inr w' \<and> busy_coros w' = busy_coros w \<and>
     map (\<lambda>i. num_quanta (coros w' ! i)) (busy_coros w) = map (\<lambda>i. num_quanta (coros w ! i) + 1) (busy_coros w) \<and>
     sq_count w' = sq_count w + of_nat (length (busy_coros w))"
proof -
  from assms(1) have m: "mset (idle_coros w) + mset (busy_coros w) = mset [0..<length (coros w)]"
    by (auto simp: worker_ok_def pool_ok_def)
  from quiet_loop [OF assms(2), of w "busy_coros w" "[]" cfg] assms(3) mset_upt_facts [OF m]
  show ?thesis by (fastforce simp: list_all_iff)
qed

theorem worker_round_robin_witness:
  "\<exists>w'. worker_loop demo_cfg (replicate 1 (demo_inputs ! 1))
       (worker_init 2 7\<lparr> idle_coros := [0], busy_coros := [1],
          coros := [coro_info_init, start_job demo_cfg (demo_rx 1 1) 10 coro_info_init] \<rparr>) = Inr w' \<and>
     busy_coros w' = [1] \<and> num_quanta (coros w' ! 1) = 1"
proof -
  let ?w = "worker_init 2 7\<lparr> idle_coros := [0], busy_coros := [1],
     coros := [coro_info_init, start_job demo_cfg (demo_rx 1 1) 10 coro_info_init] \<rparr>"
  have ok: "worker_ok 2 ?w"
    by (simp add: worker_ok_def pool_ok_def worker_init_def worker_consts numeral_2_eq_2)
  have q: "list_all quiet (replicate 1 (demo_inputs ! 1))" by (simp add: quiet_def demo_inputs_def)
  have "length (replicate 1 (demo_inputs ! 1)) = length (busy_coros ?w)" by simp
  from worker_round_robin [OF ok q this, of demo_cfg] show ?thesis by (auto simp: start_job_def)
qed

text \<open>
  C11. New jobs come first: the coroutines started by a dispatch are put before all running ones,
  in the order in which their packets were taken from the ring, and the running ones are left
  as they were.
\<close>

theorem worker_new_jobs_first:
  assumes "worker_mid n w" and "wants_dispatch w" and "worker_dispatch cfg rxs w = Inr w'"
  shows "\<exists>new. busy_coros w' = new @ busy_coros w \<and>
     map (\<lambda>i. rx_of (coros w' ! i)) new = map fst (filter (\<lambda>p. is_rx_mbuf_valid cfg (fst p)) rxs) \<and>
     map (\<lambda>i. coros w' ! i) (busy_coros w) = map (\<lambda>i. coros w ! i) (busy_coros w)"
proof -
  from assms(2,3) obtain v where v: "take_packets cfg (rev rxs) w = Inr v" "w' = v\<lparr> dispatch_index := 0 \<rparr>"
    by (auto simp: worker_dispatch_def split: sum.splits)
  from take_packets_order [OF v(1) assms(1)] obtain new where
    "busy_coros v = rev new @ busy_coros w"
    "map (\<lambda>i. rx_of (coros v ! i)) new = map fst (filter (\<lambda>p. is_rx_mbuf_valid cfg (fst p)) (rev rxs))"
    "\<forall>i. i \<in> set (busy_coros w) \<longrightarrow> coros v ! i = coros w ! i" by blast
  moreover have "map fst (filter P (rev rxs)) = rev (map fst (filter P rxs))" for P
    by (simp add: rev_map rev_filter)
  ultimately show ?thesis
    by (intro exI [of _ "rev new"]) (simp add: v(2) flip: rev_map)
qed

theorem worker_new_jobs_first_witness:
  "\<exists>w' new. worker_dispatch demo_cfg [(demo_rx 1 1, Some 10)] (worker_init 2 7\<lparr> force_dispatch := True \<rparr>) = Inr w' \<and>
     busy_coros w' = new \<and> map (\<lambda>i. rx_of (coros w' ! i)) new = [demo_rx 1 1]"
proof -
  let ?w = "worker_init 2 7\<lparr> force_dispatch := True \<rparr>"
  have ok: "worker_mid 2 ?w" using worker_init_ok [of 2 7] by (simp add: worker_mid_def worker_ok_def)
  have d: "wants_dispatch ?w" by (simp add: wants_dispatch_def)
  have v: "is_rx_mbuf_valid demo_cfg (demo_rx 1 1)" by code_simp
  then have "\<exists>w'. worker_dispatch demo_cfg [(demo_rx 1 1, Some 10)] ?w = Inr w'"
    by (simp add: worker_dispatch_def d take_packet_eq worker_init_def)
  then obtain w' where w': "worker_dispatch demo_cfg [(demo_rx 1 1, Some 10)] ?w = Inr w'" by blast
  have "busy_coros ?w = []" by (simp add: worker_init_def)
  with worker_new_jobs_first [OF ok d w'] v w' show ?thesis by auto
qed

text \<open>
  C12. A finished reply never waits: a packet in \<^verbatim>\<open>tx_bufs\<close> at a loop head has been
  handed to the NIC after at most \<^verbatim>\<open>TX_DEQUEUE_PERIOD\<close> further iterations, whatever
  jobs run meanwhile.
\<close>

theorem reply_leaves_in_time:
  assumes "worker_ok n w" and "worker_loop cfg inps w = Inr w'" and "TX_DEQUEUE_PERIOD \<le> length inps"
  shows "set (tx_bufs w) \<subseteq> set (sent_tx w') \<union> set (refused_tx w')"
  using loop_flushes [OF assms(2,1)] assms(3) by auto

theorem reply_leaves_in_time_witness:
  "\<exists>w'. worker_loop demo_cfg (replicate 4 (demo_inputs ! 1)) (worker_init 2 7\<lparr> tx_bufs := [demo_rx 1 1] \<rparr>) = Inr w' \<and>
     demo_rx 1 1 \<in> set (sent_tx w') \<union> set (refused_tx w')"
proof -
  let ?w = "worker_init 2 7\<lparr> tx_bufs := [demo_rx 1 1] \<rparr>"
  have ok: "worker_ok 2 ?w"
    using worker_init_ok [of 2 7] by (simp add: worker_ok_def pool_ok_def worker_init_def worker_consts)
  have "inputs_ok demo_cfg (replicate 4 (demo_inputs ! 1)) ?w" by code_simp
  moreover have "\<not> list_ex (no_reply_buffer demo_cfg) (loop_taken demo_cfg (replicate 4 (demo_inputs ! 1)) ?w)"
    by code_simp
  ultimately obtain w' where w': "worker_loop demo_cfg (replicate 4 (demo_inputs ! 1)) ?w = Inr w'"
    using loop_ok [OF ok] by blast
  from reply_leaves_in_time [OF ok w'] w' show ?thesis by (simp add: worker_consts)
qed

end
