(* ===== verification/Dispatcher.thy ===== *)
theory Dispatcher
  imports Packet "HOL-Library.Product_Lexorder"
begin

text \<open>
  The dispatcher thread, \<^verbatim>\<open>run_server\<close> of \<^verbatim>\<open>tq_server.cpp\<close>: the order on
  worker records, the queue of workers, the dispatch of a burst in chunks, and the check-in that
  reads the counters the workers publish. \<^verbatim>\<open>std::priority_queue\<close> holds the workers; the
  C++ standard only says that \<^verbatim>\<open>top\<close> is an element no other is ordered above, so the
  choice is an argument \<open>wtop\<close> under that contract. How many packets a ring accepts
  (\<^verbatim>\<open>rte_ring_enqueue_burst\<close>) is an argument too.
\<close>

section \<open>Worker records and their order\<close>

definition NUM_WORKER_THREADS :: nat where "NUM_WORKER_THREADS = 14"
definition MAX_DISPATCH_UNIT :: nat where "MAX_DISPATCH_UNIT = 4"
definition RX_QUEUE_BURST_SIZE :: nat where "RX_QUEUE_BURST_SIZE = NUM_WORKER_THREADS * MAX_DISPATCH_UNIT"
definition RETURN_RING_CHECKIN_PERIOD :: u16 where "RETURN_RING_CHECKIN_PERIOD = 1"

record worker_info =
  wid :: nat
  version_number :: i32
  num_running_jobs :: i32
  serviced_quanta :: i32

definition worker_info_new :: "nat \<Rightarrow> worker_info" where
  "worker_info_new i = \<lparr> wid = i, version_number = 0, num_running_jobs = 0, serviced_quanta = 0 \<rparr>"

definition worker_info_less :: "worker_info \<Rightarrow> worker_info \<Rightarrow> bool" where
  "worker_info_less lhs rhs =
     (if version_number lhs \<noteq> version_number rhs then slt (version_number rhs) (version_number lhs)
      else if num_running_jobs lhs = num_running_jobs rhs
           then slt (serviced_quanta lhs) (serviced_quanta rhs)
           else slt (num_running_jobs rhs) (num_running_jobs lhs))"

section \<open>The contract of the queue\<close>

locale prio_top =
  fixes lt :: "'a \<Rightarrow> 'a \<Rightarrow> bool" and wtop :: "'a list \<Rightarrow> 'a"
  assumes top_in: "q \<noteq> [] \<Longrightarrow> wtop q \<in> set q"
    and top_max: "x \<in> set q \<Longrightarrow> \<not> lt (wtop q) x"
begin

lemma pop_mset: "q \<noteq> [] \<Longrightarrow> mset q = add_mset (wtop q) (mset (remove1 (wtop q) q))"
  using top_in by simp

lemma pop_length: "q \<noteq> [] \<Longrightarrow> length (remove1 (wtop q) q) = length q - 1"
  using top_in by (simp add: length_remove1)

lemma push_pop_mset: "q \<noteq> [] \<Longrightarrow> mset (remove1 (wtop q) q @ [x]) = add_mset x (mset q - {#wtop q#})"
  by simp

text \<open>An element ordered above all of a class is never passed over for a member of the class.\<close>

lemma top_not_below: "x \<in> set q \<Longrightarrow> (\<And>y. P y \<Longrightarrow> lt y x) \<Longrightarrow> \<not> P (wtop q)"
  using top_max by blast

end

text \<open>The queue as a scan: the earliest of the elements no other is ordered above.\<close>

fun scan_top :: "('a \<Rightarrow> 'a \<Rightarrow> bool) \<Rightarrow> 'a list \<Rightarrow> 'a" where
  "scan_top lt [] = undefined"
| "scan_top lt [x] = x"
| "scan_top lt (x # y # q) = (let t = scan_top lt (y # q) in if lt x t then t else x)"

section \<open>The dispatcher\<close>

record dispatcher =
  worker_queue :: "worker_info list"
  return_queue_checkin_idx :: u16
  cur_version_number :: i32
  total_running_jobs :: i32
  packet_drop_count :: i32
  prev_sizes :: "nat \<Rightarrow> u64"
  dropped_rx :: "mbuf list"

definition dispatcher_init :: dispatcher where
  "dispatcher_init =
     \<lparr> worker_queue = map worker_info_new [0..<NUM_WORKER_THREADS], return_queue_checkin_idx = 0,
       cur_version_number = 0, total_running_jobs = 0, packet_drop_count = 0,
       prev_sizes = (\<lambda>_. 0), dropped_rx = [] \<rparr>"

text \<open>One chunk: \<open>nb_return\<close> packets of it fit into the ring of the chosen worker, the others
  are freed. The result carries what went to which worker's ring.\<close>

definition dispatch_chunk ::
    "(worker_info list \<Rightarrow> worker_info) \<Rightarrow> nat \<Rightarrow> mbuf list \<Rightarrow> dispatcher \<Rightarrow> dispatcher \<times> nat \<times> mbuf list" where
  "dispatch_chunk wtop nb_return chunk d =
     (let tmp_w = wtop (worker_queue d);
          q = remove1 tmp_w (worker_queue d);
          w = tmp_w\<lparr> num_running_jobs := num_running_jobs tmp_w + of_nat nb_return \<rparr>;
          d1 = d\<lparr> worker_queue := q @ [w], total_running_jobs := total_running_jobs d + of_nat nb_return \<rparr>
      in (if nb_return \<noteq> length chunk
          then d1\<lparr> dropped_rx := dropped_rx d @ drop nb_return chunk,
                   packet_drop_count := (if packet_drop_count d + 1 = 100000 then 0
                                         else packet_drop_count d + 1) \<rparr>
          else d1\<lparr> return_queue_checkin_idx := return_queue_checkin_idx d + of_nat nb_return \<rparr>,
          wid tmp_w, take nb_return chunk))"

definition max_dispatch_size :: "nat \<Rightarrow> nat" where
  "max_dispatch_size nb_rx = (nb_rx + NUM_WORKER_THREADS - 1) div NUM_WORKER_THREADS"

function chunks :: "nat \<Rightarrow> 'a list \<Rightarrow> 'a list list" where
  "chunks m xs = (if xs = [] \<or> m = 0 then [] else take m xs # chunks m (drop m xs))"
  by auto
termination by (relation "measure (\<lambda>(m, xs). length xs)") auto

declare chunks.simps [simp del]

text \<open>\<open>accepts k\<close> is how many packets of chunk \<open>k\<close> its ring takes.\<close>

fun dispatch_chunks ::
    "(worker_info list \<Rightarrow> worker_info) \<Rightarrow> (nat \<Rightarrow> nat) \<Rightarrow> nat \<Rightarrow> mbuf list list \<Rightarrow> dispatcher \<Rightarrow>
     dispatcher \<times> (nat \<times> mbuf list) list" where
  "dispatch_chunks wtop accepts k [] d = (d, [])"
| "dispatch_chunks wtop accepts k (c # cs) d =
     (case dispatch_chunk wtop (accepts k) c d of
        (d1, e) \<Rightarrow> (case dispatch_chunks wtop accepts (Suc k) cs d1 of (d2, es) \<Rightarrow> (d2, e # es)))"

text \<open>The check-in of one worker; \<open>curr_sizes\<close> are the counters \<^verbatim>\<open>size\<close> and \<^verbatim>\<open>sq\<close> it reads.\<close>

definition check_in_one ::
    "(worker_info list \<Rightarrow> worker_info) \<Rightarrow> (nat \<Rightarrow> u64 \<times> u64) \<Rightarrow> dispatcher \<times> u16 \<Rightarrow> dispatcher \<times> u16" where
  "check_in_one wtop curr_sizes dt =
     (case dt of (d, total_return_size) \<Rightarrow>
       (let tmp_w = wtop (worker_queue d);
            q = remove1 tmp_w (worker_queue d);
            (curr_size, sq) = curr_sizes (wid tmp_w);
            return_size = (ucast (curr_size - prev_sizes d (wid tmp_w)) :: u16);
            w = tmp_w\<lparr> serviced_quanta := ucast sq,
                       num_running_jobs := num_running_jobs tmp_w - ucast return_size,
                       version_number := version_number tmp_w + 1 \<rparr>
        in (d\<lparr> worker_queue := q @ [w], prev_sizes := (prev_sizes d)(wid tmp_w := curr_size) \<rparr>,
            total_return_size + return_size)))"

definition check_in ::
    "(worker_info list \<Rightarrow> worker_info) \<Rightarrow> (nat \<Rightarrow> u64 \<times> u64) \<Rightarrow> dispatcher \<Rightarrow> dispatcher" where
  "check_in wtop curr_sizes d =
     (case (check_in_one wtop curr_sizes ^^ NUM_WORKER_THREADS) (d, 0) of (d1, total_return_size) \<Rightarrow>
        d1\<lparr> return_queue_checkin_idx := 0, cur_version_number := cur_version_number d1 + 1,
            total_running_jobs := total_running_jobs d1 - ucast total_return_size \<rparr>)"

text \<open>One iteration of the main loop on a received burst.\<close>

definition server_iter ::
    "(worker_info list \<Rightarrow> worker_info) \<Rightarrow> (nat \<Rightarrow> nat) \<Rightarrow> (nat \<Rightarrow> u64 \<times> u64) \<Rightarrow> mbuf list \<Rightarrow> dispatcher \<Rightarrow>
     dispatcher \<times> (nat \<times> mbuf list) list" where
  "server_iter wtop accepts curr_sizes rx_bufs d =
     (if rx_bufs = [] then (d, [])
      else (case dispatch_chunks wtop accepts 0 (chunks (max_dispatch_size (length rx_bufs)) rx_bufs) d of
              (d1, es) \<Rightarrow>
                (if RETURN_RING_CHECKIN_PERIOD \<le> return_queue_checkin_idx d1
                 then check_in wtop curr_sizes d1 else d1, es)))"

section \<open>The order is a strict weak order\<close>

text \<open>Smaller keys are served first.\<close>

definition worker_key :: "worker_info \<Rightarrow> int \<times> int \<times> int" where
  "worker_key w = (sint (version_number w), sint (num_running_jobs w), - sint (serviced_quanta w))"

lemma sint_eq_iff: "sint a = sint b \<longleftrightarrow> a = b"
  by (auto intro: signed_word_eqI)

lemma worker_info_less_key: "worker_info_less a b \<longleftrightarrow> worker_key b < worker_key a"
  by (auto simp: worker_info_less_def worker_key_def le_less sint_eq_iff)

lemma scan_top_in: "q \<noteq> [] \<Longrightarrow> scan_top lt q \<in> set q"
proof (induction lt q rule: scan_top.induct)
  case (3 lt x y q)
  then show ?case by (simp add: Let_def)
qed simp_all

lemma scan_top_key:
  "x \<in> set q \<Longrightarrow> worker_key (scan_top worker_info_less q) \<le> worker_key x"
proof (induction "worker_info_less" q rule: scan_top.induct)
  case (3 y z q)
  show ?case
  proof (cases "x = y")
    case False
    with 3 have "worker_key (scan_top worker_info_less (z # q)) \<le> worker_key x" by simp
    then show ?thesis by (auto simp: Let_def worker_info_less_key not_less intro: order_trans)
  qed (auto simp: Let_def worker_info_less_key)
qed simp_all

interpretation scan: prio_top worker_info_less "scan_top worker_info_less"
  by unfold_locales (auto simp: scan_top_in worker_info_less_key not_less intro: scan_top_key)

lemma prio_top_key:
  "prio_top worker_info_less wtop \<Longrightarrow> x \<in> set q \<Longrightarrow> worker_key (wtop q) \<le> worker_key x"
  using prio_top.top_max [of worker_info_less wtop x q] by (simp add: worker_info_less_key not_less)

section \<open>Dispatch of a burst\<close>

lemma concat_chunks: "0 < m \<Longrightarrow> concat (chunks m xs) = xs"
  by (induction m xs rule: chunks.induct) (subst chunks.simps, simp)

lemma chunks_length: "c \<in> set (chunks m xs) \<Longrightarrow> length c \<le> m \<and> c \<noteq> []"
  by (induction m xs rule: chunks.induct) (subst (asm) chunks.simps, auto split: if_splits)

lemma chunks_count: "0 < m \<Longrightarrow> length xs \<le> n * m \<Longrightarrow> length (chunks m xs) \<le> n"
proof (induction m xs arbitrary: n rule: chunks.induct)
  case (1 m xs)
  show ?case
  proof (cases "xs = []")
    case False
    with 1 obtain k where n: "n = Suc k" by (cases n) auto
    from 1 False n have "length (chunks m (drop m xs)) \<le> k" by auto
    with False n show ?thesis by (subst chunks.simps) simp
  qed (simp add: chunks.simps)
qed

lemma max_dispatch_size_bounds:
  assumes "0 < nb"
  shows "0 < max_dispatch_size nb" and "nb \<le> NUM_WORKER_THREADS * max_dispatch_size nb"
    and "nb \<le> RX_QUEUE_BURST_SIZE \<Longrightarrow> max_dispatch_size nb \<le> MAX_DISPATCH_UNIT"
  using assms unfolding max_dispatch_size_def NUM_WORKER_THREADS_def RX_QUEUE_BURST_SIZE_def MAX_DISPATCH_UNIT_def
  by linarith+

lemma dispatch_chunk_mset:
  "dispatch_chunk wtop nb c d = (d', i, sent) \<Longrightarrow>
   mset (dropped_rx d') + mset sent = mset (dropped_rx d) + mset c"
proof -
  assume a: "dispatch_chunk wtop nb c d = (d', i, sent)"
  have "mset (drop nb c) + mset (take nb c) = mset c"
    by (metis append_take_drop_id mset_append union_commute)
  with a show ?thesis by (auto simp: dispatch_chunk_def Let_def split: if_splits)
qed

lemma dispatch_chunks_mset:
  "dispatch_chunks wtop accepts k cs d = (d', es) \<Longrightarrow>
   mset (dropped_rx d') + mset (concat (map snd es)) = mset (dropped_rx d) + mset (concat cs) \<and>
   length es = length cs"
proof (induction cs arbitrary: k d es)
  case (Cons c cs)
  then obtain d1 i sent es1 where e: "dispatch_chunk wtop (accepts k) c d = (d1, i, sent)"
    "dispatch_chunks wtop accepts (Suc k) cs d1 = (d', es1)" "es = (i, sent) # es1"
    by (auto split: prod.splits)
  from Cons.IH [OF e(2)] dispatch_chunk_mset [OF e(1)] e(3) show ?case
    by (simp add: union_assoc [symmetric]) (metis union_assoc union_commute)
qed simp

lemma check_in_one_dropped [simp]:
  "dropped_rx (fst (check_in_one wtop cs dt)) = dropped_rx (fst dt)"
  by (cases dt) (simp add: check_in_one_def Let_def split: prod.splits)

lemma check_in_dropped [simp]: "dropped_rx (check_in wtop cs d) = dropped_rx d"
proof -
  have "dropped_rx (fst ((check_in_one wtop cs ^^ n) (d, 0))) = dropped_rx d" for n
    by (induction n) simp_all
  then show ?thesis by (simp add: check_in_def split: prod.splits) (metis fst_conv)
qed

section \<open>Check-in\<close>

text \<open>What a check-in makes of a worker record.\<close>

definition returned :: "(nat \<Rightarrow> u64 \<times> u64) \<Rightarrow> (nat \<Rightarrow> u64) \<Rightarrow> worker_info \<Rightarrow> u16" where
  "returned cs prev w = ucast (fst (cs (wid w)) - prev (wid w))"

definition checked_in :: "(nat \<Rightarrow> u64 \<times> u64) \<Rightarrow> (nat \<Rightarrow> u64) \<Rightarrow> worker_info \<Rightarrow> worker_info" where
  "checked_in cs prev w =
     w\<lparr> serviced_quanta := ucast (snd (cs (wid w))),
        num_running_jobs := num_running_jobs w - ucast (returned cs prev w),
        version_number := version_number w + 1 \<rparr>"

definition synced :: "dispatcher \<Rightarrow> bool" where
  "synced d \<longleftrightarrow> distinct (map wid (worker_queue d)) \<and> length (worker_queue d) = NUM_WORKER_THREADS \<and>
     list_all (\<lambda>w. version_number w = cur_version_number d) (worker_queue d)"

text \<open>During a check-in: the workers in \<open>vs\<close> are done, those in \<open>rs\<close> are not.\<close>

definition mid_check_in ::
    "(nat \<Rightarrow> u64 \<times> u64) \<Rightarrow> dispatcher \<Rightarrow> worker_info list \<Rightarrow> worker_info list \<Rightarrow> dispatcher \<times> u16 \<Rightarrow> bool" where
  "mid_check_in cs d vs rs dt \<longleftrightarrow>
     mset (worker_queue d) = mset vs + mset rs \<and>
     mset (worker_queue (fst dt)) = mset (map (checked_in cs (prev_sizes d)) vs) + mset rs \<and>
     snd dt = sum_list (map (returned cs (prev_sizes d)) vs) \<and>
     prev_sizes (fst dt) = (\<lambda>i. if i \<in> wid ` set vs then fst (cs i) else prev_sizes d i) \<and>
     cur_version_number (fst dt) = cur_version_number d \<and>
     total_running_jobs (fst dt) = total_running_jobs d"

lemma sint_Suc_version:
  assumes "slt v 0x7FFFFFFF" shows "sint (v + 1 :: i32) = sint v + 1"
proof -
  have "- (2 ^ 31) \<le> sint v" "sint v < 2 ^ 31 - 1"
    using sint_ge [of v] assms by simp_all
  then have "signed_take_bit 31 (sint v + 1) = sint v + 1"
    by (intro signed_take_bit_int_eq_self) simp_all
  moreover have "sint (of_int (sint v + 1) :: i32) = signed_take_bit 31 (sint v + 1)"
    by (subst signed_of_int) simp
  ultimately show ?thesis by simp
qed

lemma check_in_step:
  assumes "prio_top worker_info_less wtop" and "synced d" and "slt (cur_version_number d) 0x7FFFFFFF"
    and "mid_check_in cs d vs rs dt" and "rs \<noteq> []"
  obtains t where "t \<in> set rs" "mid_check_in cs d (vs @ [t]) (remove1 t rs) (check_in_one wtop cs dt)"
proof -
  obtain d1 tot where dt: "dt = (d1, tot)" by (cases dt)
  let ?up = "checked_in cs (prev_sizes d)" and ?q = "worker_queue d1"
  let ?t = "wtop ?q"
  note M = assms(4) [unfolded mid_check_in_def dt fst_conv snd_conv]
  have q: "mset ?q = mset (map ?up vs) + mset rs" "mset (worker_queue d) = mset vs + mset rs" using M by auto
  then have sq: "set ?q = ?up ` set vs \<union> set rs" "set (worker_queue d) = set vs \<union> set rs"
    by (metis set_mset_mset set_mset_union set_map)+
  have ver: "version_number w = cur_version_number d" if "w \<in> set vs \<union> set rs" for w
    using assms(2) sq(2) that by (auto simp: synced_def list_all_iff)
  have "?q \<noteq> []" using sq(1) assms(5) by auto
  then have tq: "?t \<in> set ?q" using prio_top.top_in [OF assms(1)] by blast
  have t: "?t \<in> set rs"
  proof (rule ccontr)
    assume "?t \<notin> set rs"
    with tq sq(1) obtain w where w: "w \<in> set vs" "?t = ?up w" by auto
    obtain r where r: "r \<in> set rs" using assms(5) by (cases rs) auto
    have "worker_key ?t \<le> worker_key r" by (rule prio_top_key [OF assms(1)]) (simp add: sq(1) r)
    moreover have "sint (version_number ?t) = sint (version_number r) + 1"
      using ver [of w] ver [of r] w r sint_Suc_version [OF assms(3)] by (simp add: checked_in_def)
    ultimately show False by (simp add: worker_key_def)
  qed
  have dist: "distinct (map wid (vs @ rs))"
    using assms(2) q(2) by (metis mset_append mset_map mset_eq_imp_distinct_iff synced_def)
  then have nv: "wid ?t \<notin> wid ` set vs" using t by auto
  have p: "prev_sizes d1 (wid ?t) = prev_sizes d (wid ?t)" using M nv by simp
  have "mid_check_in cs d (vs @ [?t]) (remove1 ?t rs) (check_in_one wtop cs dt)"
    using M t tq p by (auto simp: dt mid_check_in_def check_in_one_def checked_in_def returned_def Let_def q
        split: prod.splits)
  with t show thesis by (rule that)
qed

lemma check_in_steps:
  assumes "prio_top worker_info_less wtop" and "synced d" and "slt (cur_version_number d) 0x7FFFFFFF"
    and "k \<le> NUM_WORKER_THREADS"
  shows "\<exists>vs rs. length vs = k \<and> mid_check_in cs d vs rs ((check_in_one wtop cs ^^ k) (d, 0))"
  using assms(4)
proof (induction k)
  case 0
  show ?case by (rule exI [of _ "[]"], rule exI [of _ "worker_queue d"]) (simp add: mid_check_in_def)
next
  case (Suc k)
  then obtain vs rs where v: "length vs = k" "mid_check_in cs d vs rs ((check_in_one wtop cs ^^ k) (d, 0))" by auto
  then have "length (worker_queue d) = length vs + length rs"
    unfolding mid_check_in_def by (metis size_mset size_union)
  with assms(2) Suc.prems v(1) have "rs \<noteq> []" by (auto simp: synced_def)
  from check_in_step [OF assms(1-3) v(2) this] obtain t where
    "mid_check_in cs d (vs @ [t]) (remove1 t rs) (check_in_one wtop cs ((check_in_one wtop cs ^^ k) (d, 0)))" .
  with v(1) show ?case by (intro exI [of _ "vs @ [t]"] exI [of _ "remove1 t rs"]) simp
qed

lemma check_in_result:
  assumes "prio_top worker_info_less wtop" and "synced d" and "slt (cur_version_number d) 0x7FFFFFFF"
  shows "mset (worker_queue (check_in wtop cs d)) = image_mset (checked_in cs (prev_sizes d)) (mset (worker_queue d))"
    and "total_running_jobs (check_in wtop cs d) =
      total_running_jobs d - ucast (\<Sum>w\<in>#mset (worker_queue d). returned cs (prev_sizes d) w)"
    and "prev_sizes (check_in wtop cs d) =
      (\<lambda>i. if i \<in> wid ` set (worker_queue d) then fst (cs i) else prev_sizes d i)"
    and "cur_version_number (check_in wtop cs d) = cur_version_number d + 1"
    and "return_queue_checkin_idx (check_in wtop cs d) = 0"
proof -
  obtain vs rs where v: "length vs = NUM_WORKER_THREADS"
    "mid_check_in cs d vs rs ((check_in_one wtop cs ^^ NUM_WORKER_THREADS) (d, 0))"
    using check_in_steps [OF assms order_refl] by blast
  obtain d1 tot where d1: "(check_in_one wtop cs ^^ NUM_WORKER_THREADS) (d, 0) = (d1, tot)" by fastforce
  from v have "length (worker_queue d) = length vs + length rs"
    unfolding mid_check_in_def by (metis size_mset size_union)
  with v(1) assms(2) have "rs = []" by (simp add: synced_def)
  note M = v(2) [unfolded mid_check_in_def d1 this fst_conv snd_conv]
  then have sets: "set (worker_queue d) = set vs" by (metis add.right_neutral mset.simps(1) mset_eq_setD)
  have C: "check_in wtop cs d = d1\<lparr> return_queue_checkin_idx := 0,
      cur_version_number := cur_version_number d1 + 1, total_running_jobs := total_running_jobs d1 - ucast tot \<rparr>"
    by (simp add: check_in_def d1)
  have "sum_list (map (returned cs (prev_sizes d)) vs) = (\<Sum>w\<in>#mset vs. returned cs (prev_sizes d) w)"
    by (metis mset_map sum_mset_sum_list)
  with M sets show
    "mset (worker_queue (check_in wtop cs d)) = image_mset (checked_in cs (prev_sizes d)) (mset (worker_queue d))"
    "total_running_jobs (check_in wtop cs d) =
      total_running_jobs d - ucast (\<Sum>w\<in>#mset (worker_queue d). returned cs (prev_sizes d) w)"
    "prev_sizes (check_in wtop cs d) =
      (\<lambda>i. if i \<in> wid ` set (worker_queue d) then fst (cs i) else prev_sizes d i)"
    "cur_version_number (check_in wtop cs d) = cur_version_number d + 1"
    "return_queue_checkin_idx (check_in wtop cs d) = 0"
    by (simp_all add: C)
qed

lemma check_in_synced:
  assumes "prio_top worker_info_less wtop" and "synced d" and "slt (cur_version_number d) 0x7FFFFFFF"
  shows "synced (check_in wtop cs d)"
proof -
  let ?q = "worker_queue (check_in wtop cs d)"
  note R = check_in_result [OF assms, of cs]
  have "mset (map wid ?q) = mset (map wid (worker_queue d))"
    by (simp add: R(1) image_mset.compositionality comp_def checked_in_def)
  then have "distinct (map wid ?q)"
    using assms(2) mset_eq_imp_distinct_iff unfolding synced_def by blast
  moreover have "length ?q = length (worker_queue d)" using R(1) by (metis size_image_mset size_mset)
  moreover have "set ?q = checked_in cs (prev_sizes d) ` set (worker_queue d)"
    using R(1) by (metis set_image_mset set_mset_mset)
  ultimately show ?thesis using assms(2) R(4)
    by (auto simp: synced_def list_all_iff checked_in_def)
qed

section \<open>The dispatcher's books\<close>

definition jobs_sum :: "dispatcher \<Rightarrow> i32" where
  "jobs_sum d = (\<Sum>w\<in>#mset (worker_queue d). num_running_jobs w)"

text \<open>\<^verbatim>\<open>total_running_jobs\<close> is the sum of the workers' \<^verbatim>\<open>num_running_jobs\<close>.\<close>

definition books_ok :: "dispatcher \<Rightarrow> bool" where
  "books_ok d \<longleftrightarrow> total_running_jobs d = jobs_sum d"

lemma dispatch_chunk_result:
  assumes "prio_top worker_info_less wtop" and "worker_queue d \<noteq> []"
    and "dispatch_chunk wtop nb c d = (d', i, sent)"
  obtains w where "w = wtop (worker_queue d)" "w \<in> set (worker_queue d)" "wid w = i" "sent = take nb c"
    "mset (worker_queue d') =
       add_mset (w\<lparr> num_running_jobs := num_running_jobs w + of_nat nb \<rparr>) (mset (worker_queue d) - {#w#})"
    "mset (worker_queue d) = add_mset w (mset (worker_queue d) - {#w#})"
    "total_running_jobs d' = total_running_jobs d + of_nat nb" "cur_version_number d' = cur_version_number d"
    "prev_sizes d' = prev_sizes d"
  using assms(3) prio_top.top_in [OF assms(1,2)]
  by (intro that [of "wtop (worker_queue d)"]) (auto simp: dispatch_chunk_def Let_def)

lemma dispatch_chunk_keeps:
  assumes "prio_top worker_info_less wtop" and "worker_queue d \<noteq> []"
    and "dispatch_chunk wtop nb c d = (d', i, sent)"
  shows "synced d \<Longrightarrow> synced d'" and "books_ok d \<Longrightarrow> books_ok d'" and "worker_queue d' \<noteq> []"
    and "mset (map wid (worker_queue d')) = mset (map wid (worker_queue d))"
proof -
  from dispatch_chunk_result [OF assms] obtain w where w: "w \<in> set (worker_queue d)"
    "mset (worker_queue d') =
       add_mset (w\<lparr> num_running_jobs := num_running_jobs w + of_nat nb \<rparr>) (mset (worker_queue d) - {#w#})"
    "mset (worker_queue d) = add_mset w (mset (worker_queue d) - {#w#})"
    "total_running_jobs d' = total_running_jobs d + of_nat nb" "cur_version_number d' = cur_version_number d"
    by metis
  define R where "R = mset (worker_queue d) - {#w#}"
  note w' = w(2,3) [folded R_def]
  show wids: "mset (map wid (worker_queue d')) = mset (map wid (worker_queue d))" by (simp add: w')
  have len: "length (worker_queue d') = length (worker_queue d)" using w' by (metis size_add_mset size_mset)
  have sets: "set (worker_queue d') = insert (w\<lparr> num_running_jobs := num_running_jobs w + of_nat nb \<rparr>) (set_mset R)"
    "set (worker_queue d) = insert w (set_mset R)" using w' by (metis set_mset_add_mset_insert set_mset_mset)+
  show "worker_queue d' \<noteq> []" using len assms(2) by auto
  show "synced d'" if "synced d"
    using that mset_eq_imp_distinct_iff [OF wids] len sets w(5) by (auto simp: synced_def list_all_iff)
  show "books_ok d'" if "books_ok d"
    using that w(4) by (simp add: books_ok_def jobs_sum_def w')
qed

lemma dispatch_chunks_keeps:
  assumes "prio_top worker_info_less wtop" and "worker_queue d \<noteq> []"
    and "dispatch_chunks wtop accepts k cs d = (d', es)"
  shows "(synced d \<longrightarrow> synced d') \<and> (books_ok d \<longrightarrow> books_ok d') \<and>
     cur_version_number d' = cur_version_number d \<and> prev_sizes d' = prev_sizes d \<and>
     mset (map wid (worker_queue d')) = mset (map wid (worker_queue d))"
  using assms(2,3)
proof (induction cs arbitrary: k d es)
  case (Cons c cs)
  then obtain d1 i sent es1 where e: "dispatch_chunk wtop (accepts k) c d = (d1, i, sent)"
    "dispatch_chunks wtop accepts (Suc k) cs d1 = (d', es1)"
    by (auto split: prod.splits)
  note K = dispatch_chunk_keeps [OF assms(1) Cons.prems(1) e(1)]
  from dispatch_chunk_result [OF assms(1) Cons.prems(1) e(1)]
  have "cur_version_number d1 = cur_version_number d \<and> prev_sizes d1 = prev_sizes d" by metis
  with Cons.IH [OF K(3) e(2)] K(1,2,4) show ?case by simp
qed simp

lemma ucast_sum_u16:
  fixes f :: "'a \<Rightarrow> u16"
  assumes "(\<Sum>x\<in>#M. unat (f x)) < 2 ^ 16"
  shows "(ucast (\<Sum>x\<in>#M. f x) :: i32) = (\<Sum>x\<in>#M. ucast (f x))"
proof -
  have s: "(\<Sum>x\<in>#M. f x) = of_nat (\<Sum>x\<in>#M. unat (f x))" by (induction M) simp_all
  have "unat (\<Sum>x\<in>#M. f x) = (\<Sum>x\<in>#M. unat (f x))"
    unfolding s using assms by (intro unat_of_nat_small) simp
  then have "(ucast (\<Sum>x\<in>#M. f x) :: i32) = of_nat (\<Sum>x\<in>#M. unat (f x))"
    by (simp only: ucast_eq_of_nat)
  also have "\<dots> = (\<Sum>x\<in>#M. ucast (f x))" by (induction M) simp_all
  finally show ?thesis .
qed

lemma check_in_books:
  assumes "prio_top worker_info_less wtop" and "synced d" and "slt (cur_version_number d) 0x7FFFFFFF"
    and "books_ok d" and "(\<Sum>w\<in>#mset (worker_queue d). unat (returned cs (prev_sizes d) w)) < 2 ^ 16"
  shows "books_ok (check_in wtop cs d)"
proof -
  note R = check_in_result [OF assms(1-3), of cs]
  have "(\<Sum>w\<in>#M. num_running_jobs (checked_in cs p w)) =
      (\<Sum>w\<in>#M. num_running_jobs w) - (\<Sum>w\<in>#M. ucast (returned cs p w))" for M p
    by (induction M) (simp_all add: checked_in_def)
  then show ?thesis using assms(4) ucast_sum_u16 [OF assms(5)]
    by (simp add: books_ok_def jobs_sum_def R(1,2) image_mset.compositionality comp_def)
qed

section \<open>Properties\<close>

text \<open>
  The comparison of worker records is a strict weak order, as \<^verbatim>\<open>std::priority_queue\<close>
  requires: it is irreflexive and transitive, and being unordered is transitive.
\<close>

lemma worker_order_strict_weak:
  "\<not> worker_info_less a a \<and>
   (worker_info_less a b \<and> worker_info_less b c \<longrightarrow> worker_info_less a c) \<and>
   (\<not> worker_info_less a b \<and> \<not> worker_info_less b a \<and> \<not> worker_info_less b c \<and> \<not> worker_info_less c b \<longrightarrow>
    \<not> worker_info_less a c \<and> \<not> worker_info_less c a)"
  by (auto simp: worker_info_less_key)

text \<open>
  C6. Dispatch joins the shortest queue: between check-ins a chunk goes to a worker with the
  fewest running jobs, and among those to one whose running jobs have received the most quanta;
  that worker's count grows by the packets its ring took and no other record changes.
\<close>

theorem dispatch_joins_shortest_queue:
  assumes "prio_top worker_info_less wtop" and "synced d"
    and "dispatch_chunk wtop nb c d = (d', i, sent)"
  shows "\<exists>w \<in> set (worker_queue d). wid w = i \<and> sent = take nb c \<and>
     (\<forall>x \<in> set (worker_queue d). sint (num_running_jobs w) \<le> sint (num_running_jobs x) \<and>
        (num_running_jobs x = num_running_jobs w \<longrightarrow> sint (serviced_quanta x) \<le> sint (serviced_quanta w))) \<and>
     mset (worker_queue d') =
       add_mset (w\<lparr> num_running_jobs := num_running_jobs w + of_nat nb \<rparr>) (mset (worker_queue d) - {#w#})"
proof -
  have "worker_queue d \<noteq> []" using assms(2) by (auto simp: synced_def NUM_WORKER_THREADS_def)
  from dispatch_chunk_result [OF assms(1) this assms(3)] obtain w where w: "w = wtop (worker_queue d)"
    "w \<in> set (worker_queue d)" "wid w = i" "sent = take nb c" "mset (worker_queue d') =
       add_mset (w\<lparr> num_running_jobs := num_running_jobs w + of_nat nb \<rparr>) (mset (worker_queue d) - {#w#})"
    by metis
  have "sint (num_running_jobs w) \<le> sint (num_running_jobs x) \<and>
        (num_running_jobs x = num_running_jobs w \<longrightarrow> sint (serviced_quanta x) \<le> sint (serviced_quanta w))"
    if "x \<in> set (worker_queue d)" for x
    using prio_top_key [OF assms(1) that] w(1,2) that assms(2)
    by (auto simp: worker_key_def synced_def list_all_iff)
  with w show ?thesis by blast
qed

theorem dispatch_joins_shortest_queue_witness:
  "\<exists>w \<in> set (worker_queue dispatcher_init). wid w = wid (scan_top worker_info_less (worker_queue dispatcher_init)) \<and>
     num_running_jobs w = 0"
proof -
  have s: "synced dispatcher_init"
    by (simp add: synced_def dispatcher_init_def worker_info_new_def comp_def list_all_iff)
  obtain d' i sent where e: "dispatch_chunk (scan_top worker_info_less) 0 [] dispatcher_init = (d', i, sent)"
    by (metis prod_cases3)
  then have "i = wid (scan_top worker_info_less (worker_queue dispatcher_init))"
    by (auto simp: dispatch_chunk_def Let_def)
  with dispatch_joins_shortest_queue [OF scan.prio_top_axioms s e] show ?thesis
    by (auto simp: dispatcher_init_def worker_info_new_def)
qed

text \<open>
  C7. A burst is dispatched completely: every received packet is put on exactly one worker's ring
  or freed, in at most \<^verbatim>\<open>NUM_WORKER_THREADS\<close> chunks, and for a burst as large as the NIC
  may return no chunk exceeds \<^verbatim>\<open>MAX_DISPATCH_UNIT\<close> packets.
\<close>

theorem burst_dispatched_completely:
  assumes "server_iter wtop accepts cs rx_bufs d = (d', es)" and "length rx_bufs \<le> RX_QUEUE_BURST_SIZE"
  shows "mset (dropped_rx d') + mset (concat (map snd es)) = mset (dropped_rx d) + mset rx_bufs \<and>
     length es \<le> NUM_WORKER_THREADS \<and>
     list_all (\<lambda>c. length c \<le> MAX_DISPATCH_UNIT) (chunks (max_dispatch_size (length rx_bufs)) rx_bufs)"
proof (cases "rx_bufs = []")
  case True
  with assms(1) show ?thesis by (simp add: server_iter_def chunks.simps)
next
  case False
  let ?m = "max_dispatch_size (length rx_bufs)"
  from False have l: "0 < length rx_bufs" by simp
  note B = max_dispatch_size_bounds [OF l]
  from assms(1) False obtain d1 where
    d1: "dispatch_chunks wtop accepts 0 (chunks ?m rx_bufs) d = (d1, es)" "dropped_rx d' = dropped_rx d1"
    by (auto simp: server_iter_def split: prod.splits if_splits)
  have "list_all (\<lambda>c. length c \<le> MAX_DISPATCH_UNIT) (chunks ?m rx_bufs)"
    using chunks_length B(3) [OF assms(2)] order_trans unfolding list_all_iff by blast
  with dispatch_chunks_mset [OF d1(1)] concat_chunks [OF B(1), of rx_bufs] chunks_count [OF B(1,2)] d1(2)
  show ?thesis by simp
qed

theorem burst_dispatched_completely_witness:
  "\<exists>d' es. server_iter (scan_top worker_info_less) (\<lambda>_. 1) (\<lambda>_. (0, 0))
       [\<lparr> m_ptr = 1, m_room = [], pkt_len = 0 \<rparr>] dispatcher_init = (d', es) \<and>
     dropped_rx d' = [] \<and> concat (map snd es) = [\<lparr> m_ptr = 1, m_room = [], pkt_len = 0 \<rparr>]"
proof -
  let ?b = "\<lparr> m_ptr = 1, m_room = [], pkt_len = 0 \<rparr>"
  obtain d' es where e: "server_iter (scan_top worker_info_less) (\<lambda>_. 1) (\<lambda>_. (0, 0)) [?b] dispatcher_init = (d', es)"
    by fastforce
  then have d: "dropped_rx d' = []"
    by (auto simp: server_iter_def chunks.simps max_dispatch_size_def NUM_WORKER_THREADS_def
        dispatch_chunk_def Let_def dispatcher_init_def split: if_splits)
  have "length [?b] \<le> RX_QUEUE_BURST_SIZE"
    by (simp add: RX_QUEUE_BURST_SIZE_def NUM_WORKER_THREADS_def MAX_DISPATCH_UNIT_def)
  from burst_dispatched_completely [OF e this] d have "mset (concat (map snd es)) = {#?b#}"
    by (simp add: dispatcher_init_def)
  then have "concat (map snd es) = [?b]" by (metis mset_single_iff)
  with e d show ?thesis by blast
qed

text \<open>
  C5. A check-in visits every worker exactly once although it takes the workers from the queue
  it puts them back into: afterwards every record is the old one with the jobs the worker
  reported done subtracted, its service count read and its version advanced, all versions equal
  \<^verbatim>\<open>cur_version_number\<close> again, and the reported counts are remembered.
\<close>

theorem check_in_visits_each_worker_once:
  assumes "prio_top worker_info_less wtop" and "synced d" and "slt (cur_version_number d) 0x7FFFFFFF"
  shows "mset (worker_queue (check_in wtop cs d)) = image_mset (checked_in cs (prev_sizes d)) (mset (worker_queue d)) \<and>
     synced (check_in wtop cs d) \<and>
     (\<forall>w \<in> set (worker_queue d). prev_sizes (check_in wtop cs d) (wid w) = fst (cs (wid w)))"
  using check_in_result(1,3) [OF assms, of cs] check_in_synced [OF assms, of cs] by simp

theorem check_in_visits_each_worker_once_witness:
  "synced (check_in (scan_top worker_info_less) (\<lambda>i. (of_nat i, 0)) dispatcher_init) \<and>
   prev_sizes (check_in (scan_top worker_info_less) (\<lambda>i. (of_nat i, 0)) dispatcher_init) 3 = 3"
proof -
  have s: "synced dispatcher_init" "slt (cur_version_number dispatcher_init) 0x7FFFFFFF"
    by (simp_all add: synced_def dispatcher_init_def worker_info_new_def comp_def list_all_iff)
  have "worker_info_new 3 \<in> set (worker_queue dispatcher_init)" "wid (worker_info_new 3) = 3"
    by (simp_all add: dispatcher_init_def NUM_WORKER_THREADS_def worker_info_new_def)
  with check_in_visits_each_worker_once [OF scan.prio_top_axioms s, of "\<lambda>i. (of_nat i, 0)"]
  show ?thesis by force
qed

text \<open>
  C8. The dispatcher's total is the sum of its workers' counts: an iteration of the main loop
  keeps \<^verbatim>\<open>total_running_jobs\<close> equal to the sum of \<^verbatim>\<open>num_running_jobs\<close>, on
  every path, as long as fewer than 65536 jobs are reported done at one check-in.
\<close>

theorem dispatcher_books_balance:
  assumes "prio_top worker_info_less wtop" and "synced d" and "slt (cur_version_number d) 0x7FFFFFFF"
    and "books_ok d" and "server_iter wtop accepts cs rx_bufs d = (d', es)"
    and "(\<Sum>i\<leftarrow>map wid (worker_queue d). unat (ucast (fst (cs i) - prev_sizes d i) :: u16)) < 2 ^ 16"
  shows "books_ok d' \<and> synced d'"
proof (cases "rx_bufs = []")
  case False
  have ne: "worker_queue d \<noteq> []" using assms(2) by (auto simp: synced_def NUM_WORKER_THREADS_def)
  from False assms(5) obtain d1 where
    d1: "dispatch_chunks wtop accepts 0 (chunks (max_dispatch_size (length rx_bufs)) rx_bufs) d = (d1, es)"
    "d' = (if RETURN_RING_CHECKIN_PERIOD \<le> return_queue_checkin_idx d1 then check_in wtop cs d1 else d1)"
    by (auto simp: server_iter_def split: prod.splits)
  note K = dispatch_chunks_keeps [OF assms(1) ne d1(1)]
  let ?f = "\<lambda>i. unat (ucast (fst (cs i) - prev_sizes d i) :: u16)"
  have "(\<Sum>w\<in>#mset (worker_queue d1). unat (returned cs (prev_sizes d1) w)) =
      sum_mset (image_mset ?f (mset (map wid (worker_queue d1))))"
    using conjunct1 [OF conjunct2 [OF conjunct2 [OF conjunct2 [OF K]]]]
    by (simp add: returned_def image_mset.compositionality comp_def)
  also have "mset (map wid (worker_queue d1)) = mset (map wid (worker_queue d))" using K by blast
  also have "sum_mset (image_mset ?f (mset (map wid (worker_queue d)))) = (\<Sum>i\<leftarrow>map wid (worker_queue d). ?f i)"
    by (simp only: mset_map [symmetric] sum_mset_sum_list)
  finally have "(\<Sum>w\<in>#mset (worker_queue d1). unat (returned cs (prev_sizes d1) w)) < 2 ^ 16"
    using assms(6) by (simp only:)
  note B = check_in_books [OF assms(1) _ _ _ this] check_in_synced [OF assms(1), of d1 cs]
  have "synced d1" "slt (cur_version_number d1) 0x7FFFFFFF" "books_ok d1" using K assms(2-4) by auto
  with B show ?thesis unfolding d1(2) by presburger
qed (use assms in \<open>simp add: server_iter_def\<close>)

theorem dispatcher_books_balance_witness:
  "\<exists>d' es. server_iter (scan_top worker_info_less) (\<lambda>_. 1) (\<lambda>_. (0, 0))
       [\<lparr> m_ptr = 1, m_room = [], pkt_len = 0 \<rparr>] dispatcher_init = (d', es) \<and> books_ok d' \<and> synced d'"
proof -
  have s: "synced dispatcher_init" "slt (cur_version_number dispatcher_init) 0x7FFFFFFF" "books_ok dispatcher_init"
    by (simp_all add: synced_def dispatcher_init_def worker_info_new_def comp_def list_all_iff
        books_ok_def jobs_sum_def image_mset.compositionality)
  obtain d' es where e: "server_iter (scan_top worker_info_less) (\<lambda>_. 1) (\<lambda>_. (0, 0))
      [\<lparr> m_ptr = 1, m_room = [], pkt_len = 0 \<rparr>] dispatcher_init = (d', es)" by fastforce
  have "(\<Sum>i\<leftarrow>map wid (worker_queue dispatcher_init).
      unat (ucast (fst ((\<lambda>_. (0, 0)) i) - prev_sizes dispatcher_init i) :: u16)) < 2 ^ 16"
    by (simp add: dispatcher_init_def comp_def)
  from dispatcher_books_balance [OF scan.prio_top_axioms s e this] e show ?thesis by blast
qed

end
