(* ===== verification/System.thy ===== *)
theory System
  imports Worker Dispatcher
begin

text \<open>
  The running server: the dispatcher thread and the worker threads of \<^verbatim>\<open>run_server\<close>,
  interleaved. A step is one chunk of a dispatch, one worker of a check-in, or one iteration of
  a worker's loop; they share the dispatch rings (\<^verbatim>\<open>rte_ring\<close>, one producer and one
  consumer each, FIFO, of a documented capacity of one less than the size given) and the
  published counters.
\<close>

section \<open>State and steps\<close>

datatype dispatcher_pc = Receiving | Dispatching "mbuf list list" | Checking_in nat u16

record system =
  pc :: dispatcher_pc
  disp :: dispatcher
  threads :: "nat \<Rightarrow> worker"
  rings :: "nat \<Rightarrow> mbuf list"
  received :: "mbuf list"
  discarded :: "nat \<Rightarrow> nat"

definition DISPATCH_RING_SIZE :: nat where "DISPATCH_RING_SIZE = 4096"

definition ring_capacity :: nat where "ring_capacity = DISPATCH_RING_SIZE - 1"

definition ring_accepts :: "mbuf list \<Rightarrow> mbuf list \<Rightarrow> nat" where
  "ring_accepts ring objs = min (length objs) (ring_capacity - length ring)"

definition system_init :: "nat \<Rightarrow> (nat \<Rightarrow> u64) \<Rightarrow> system" where
  "system_init num_coros sq0 =
     \<lparr> pc = Receiving, disp = dispatcher_init, threads = (\<lambda>i. worker_init num_coros (sq0 i)),
       rings = (\<lambda>_. []), received = [], discarded = (\<lambda>_. 0) \<rparr>"

text \<open>The counters a check-in reads are those of the workers at that moment.\<close>

definition curr_sizes :: "system \<Rightarrow> nat \<Rightarrow> u64 \<times> u64" where
  "curr_sizes s i = (size_count (threads s i), sq_count (threads s i))"

definition num_invalid :: "server_cfg \<Rightarrow> (mbuf \<times> nat option) list \<Rightarrow> nat" where
  "num_invalid cfg ps = length (filter (\<lambda>p. \<not> is_rx_mbuf_valid cfg (fst p)) ps)"

inductive sys_step :: "server_cfg \<Rightarrow> (worker_info list \<Rightarrow> worker_info) \<Rightarrow> system \<Rightarrow> system \<Rightarrow> bool"
  for cfg wtop where
  receive: "pc s = Receiving \<Longrightarrow> rx_bufs \<noteq> [] \<Longrightarrow> length rx_bufs \<le> RX_QUEUE_BURST_SIZE \<Longrightarrow>
     sys_step cfg wtop s
       (s\<lparr> pc := Dispatching (chunks (max_dispatch_size (length rx_bufs)) rx_bufs),
           received := received s @ rx_bufs \<rparr>)"
| dispatch: "pc s = Dispatching (c # cs) \<Longrightarrow>
     nb = ring_accepts (rings s (wid (wtop (worker_queue (disp s))))) c \<Longrightarrow>
     dispatch_chunk wtop nb c (disp s) = (d, i, sent) \<Longrightarrow>
     sys_step cfg wtop s
       (s\<lparr> pc := Dispatching cs, disp := d, rings := (rings s)(i := rings s i @ sent) \<rparr>)"
| dispatched: "pc s = Dispatching [] \<Longrightarrow>
     sys_step cfg wtop s
       (s\<lparr> pc := (if RETURN_RING_CHECKIN_PERIOD \<le> return_queue_checkin_idx (disp s)
                  then Checking_in 0 0 else Receiving) \<rparr>)"
| check: "pc s = Checking_in k tot \<Longrightarrow> k < NUM_WORKER_THREADS \<Longrightarrow>
     check_in_one wtop (curr_sizes s) (disp s, tot) = (d, tot') \<Longrightarrow>
     sys_step cfg wtop s (s\<lparr> pc := Checking_in (Suc k) tot', disp := d \<rparr>)"
| checked: "pc s = Checking_in k tot \<Longrightarrow> k = NUM_WORKER_THREADS \<Longrightarrow>
     sys_step cfg wtop s
       (s\<lparr> pc := Receiving,
           disp := (disp s)\<lparr> return_queue_checkin_idx := 0,
             cur_version_number := cur_version_number (disp s) + 1,
             total_running_jobs := total_running_jobs (disp s) - ucast tot \<rparr> \<rparr>)"
| work: "i < NUM_WORKER_THREADS \<Longrightarrow> worker_iter cfg inp (threads s i) = Inr w \<Longrightarrow>
     map fst (in_rx inp) = take (length (in_rx inp)) (rings s i) \<Longrightarrow>
     sys_step cfg wtop s
       (s\<lparr> threads := (threads s)(i := w),
           rings := (rings s)(i := drop (length (taken inp (threads s i))) (rings s i)),
           discarded := (discarded s)(i := discarded s i + num_invalid cfg (taken inp (threads s i))) \<rparr>)"

inductive reachable :: "server_cfg \<Rightarrow> (worker_info list \<Rightarrow> worker_info) \<Rightarrow> system \<Rightarrow> system \<Rightarrow> bool"
  for cfg wtop s0 where
  start: "reachable cfg wtop s0 s0"
| step: "reachable cfg wtop s0 s \<Longrightarrow> sys_step cfg wtop s s' \<Longrightarrow> reachable cfg wtop s0 s'"

inductive_cases sys_stepE: "sys_step cfg wtop s s'"

section \<open>Accounting\<close>

text \<open>Jobs the dispatcher has put on worker \<open>i\<close>'s ring: still there, running, finished, or discarded.\<close>

definition jobs_given :: "system \<Rightarrow> nat \<Rightarrow> nat" where
  "jobs_given s i = length (rings s i) + length (busy_coros (threads s i)) + num_done (threads s i) + discarded s i"

definition threads_ok :: "nat \<Rightarrow> system \<Rightarrow> bool" where
  "threads_ok n s \<longleftrightarrow> (\<forall>i < NUM_WORKER_THREADS. worker_ok n (threads s i) \<and>
     size_count (threads s i) = of_nat (num_done (threads s i)) \<and> length (rings s i) \<le> ring_capacity)"

definition counts_ok :: "system \<Rightarrow> bool" where
  "counts_ok s \<longleftrightarrow> mset (map wid (worker_queue (disp s))) = mset [0..<NUM_WORKER_THREADS] \<and>
     (\<forall>w \<in> set (worker_queue (disp s)).
        (ucast (num_running_jobs w) :: u16) = of_nat (jobs_given s (wid w)) - ucast (prev_sizes (disp s) (wid w)))"

lemma jobs_given_other [simp]:
  "jobs_given (s\<lparr> pc := p \<rparr>) = jobs_given s" "jobs_given (s\<lparr> disp := d \<rparr>) = jobs_given s"
  "jobs_given (s\<lparr> received := r \<rparr>) = jobs_given s"
  by (simp_all add: jobs_given_def fun_eq_iff)

lemma queue_wids:
  assumes "counts_ok s" shows "worker_queue (disp s) \<noteq> []" and "distinct (map wid (worker_queue (disp s)))"
    and "w \<in> set (worker_queue (disp s)) \<Longrightarrow> wid w < NUM_WORKER_THREADS"
proof -
  have m: "mset (map wid (worker_queue (disp s))) = mset [0..<NUM_WORKER_THREADS]"
    using assms by (simp add: counts_ok_def)
  show "distinct (map wid (worker_queue (disp s)))" using mset_eq_imp_distinct_iff [OF m] by simp
  have "set (map wid (worker_queue (disp s))) = {0..<NUM_WORKER_THREADS}" using mset_eq_setD [OF m] by simp
  then show "worker_queue (disp s) \<noteq> []" "w \<in> set (worker_queue (disp s)) \<Longrightarrow> wid w < NUM_WORKER_THREADS"
    by (auto simp: NUM_WORKER_THREADS_def)
qed

text \<open>The common shape of a dispatch and of a check-in: one record leaves the queue and is put back changed.\<close>

lemma counts_ok_requeue:
  assumes "counts_ok s" and "t \<in> set (worker_queue (disp s))" and "wid t' = wid t"
    and "worker_queue d' = remove1 t (worker_queue (disp s)) @ [t']"
    and "\<And>i. i \<noteq> wid t \<Longrightarrow> jobs_given s' i = jobs_given s i \<and> prev_sizes d' i = prev_sizes (disp s) i"
    and "(ucast (num_running_jobs t') :: u16) = of_nat (jobs_given s' (wid t)) - ucast (prev_sizes d' (wid t))"
    and "disp s' = d'"
  shows "counts_ok s'"
proof -
  let ?q = "worker_queue (disp s)"
  have "mset (map wid (worker_queue d')) = mset (map wid ?q)"
    using assms(2,3) by (simp add: assms(4) image_mset_Diff)
  moreover have "wid w \<noteq> wid t" if "w \<in> set (remove1 t ?q)" for w
  proof -
    have "distinct (map wid ?q)" "distinct ?q" using queue_wids(2) [OF assms(1)] by (auto simp: distinct_map)
    with that assms(2) show ?thesis by (auto simp: distinct_map inj_on_def)
  qed
  moreover have "set (remove1 t ?q) \<subseteq> set ?q" by (rule set_remove1_subset)
  ultimately show ?thesis using assms by (auto simp: counts_ok_def)
qed

lemma dispatch_counts:
  assumes "prio_top worker_info_less wtop" and "counts_ok s"
    and "nb = ring_accepts (rings s (wid (wtop (worker_queue (disp s))))) c"
    and "dispatch_chunk wtop nb c (disp s) = (d, i, sent)"
  shows "counts_ok (s\<lparr> pc := p, disp := d, rings := (rings s)(i := rings s i @ sent) \<rparr>)"
proof -
  let ?t = "wtop (worker_queue (disp s))"
  have t: "?t \<in> set (worker_queue (disp s))" using prio_top.top_in [OF assms(1) queue_wids(1) [OF assms(2)]] .
  have nb: "nb \<le> length c" using assms(3) by (simp add: ring_accepts_def)
  from assms(4) have d: "i = wid ?t" "sent = take nb c" "prev_sizes d = prev_sizes (disp s)"
    "worker_queue d = remove1 ?t (worker_queue (disp s)) @ [?t\<lparr> num_running_jobs := num_running_jobs ?t + of_nat nb \<rparr>]"
    by (auto simp: dispatch_chunk_def Let_def)
  have "(ucast (num_running_jobs ?t) :: u16) = of_nat (jobs_given s (wid ?t)) - ucast (prev_sizes (disp s) (wid ?t))"
    using assms(2) t by (simp add: counts_ok_def)
  then show ?thesis
    by (intro counts_ok_requeue [OF assms(2) t, where t' = "?t\<lparr> num_running_jobs := num_running_jobs ?t + of_nat nb \<rparr>"])
      (use d nb in \<open>auto simp: jobs_given_def ucast_down_add ucast_down_of_nat\<close>)
qed

lemma check_counts:
  assumes "prio_top worker_info_less wtop" and "counts_ok s" and "threads_ok n s"
    and "check_in_one wtop (curr_sizes s) (disp s, tot) = (d, tot')"
  shows "counts_ok (s\<lparr> pc := p, disp := d \<rparr>)"
proof -
  let ?t = "wtop (worker_queue (disp s))"
  let ?r = "ucast (size_count (threads s (wid ?t)) - prev_sizes (disp s) (wid ?t)) :: u16"
  let ?t' = "?t\<lparr> serviced_quanta := ucast (sq_count (threads s (wid ?t))),
     num_running_jobs := num_running_jobs ?t - ucast ?r, version_number := version_number ?t + 1 \<rparr>"
  have t: "?t \<in> set (worker_queue (disp s))" using prio_top.top_in [OF assms(1) queue_wids(1) [OF assms(2)]] .
  from assms(4) have d: "worker_queue d = remove1 ?t (worker_queue (disp s)) @ [?t']"
    "prev_sizes d = (prev_sizes (disp s))(wid ?t := size_count (threads s (wid ?t)))"
    by (auto simp: check_in_one_def Let_def curr_sizes_def)
  have "(ucast (num_running_jobs ?t) :: u16) = of_nat (jobs_given s (wid ?t)) - ucast (prev_sizes (disp s) (wid ?t))"
    using assms(2) t by (simp add: counts_ok_def)
  then show ?thesis
    by (intro counts_ok_requeue [OF assms(2) t, where t' = ?t'])
      (use d in \<open>auto simp: ucast_down_sub ucast_down_up\<close>)
qed

lemma num_valid_invalid: "length (replies cfg ps) + num_invalid cfg ps = length ps"
  by (simp add: replies_def num_invalid_def sum_length_filter_compl)

lemma taken_cases: "taken inp w = in_rx inp \<or> taken inp w = []"
  by (simp add: taken_def split: sum.splits)

lemma taken_prefix:
  assumes "map fst (in_rx inp) = take (length (in_rx inp)) ring"
  shows "map fst (taken inp w) = take (length (taken inp w)) ring" and "length (taken inp w) \<le> length ring"
proof -
  from assms have "length (in_rx inp) = min (length ring) (length (in_rx inp))"
    by (metis length_map length_take)
  then show "length (taken inp w) \<le> length ring" "map fst (taken inp w) = take (length (taken inp w)) ring"
    using taken_cases [of inp w] assms by auto
qed

lemma work_jobs:
  assumes "threads_ok n s" and "i < NUM_WORKER_THREADS" and "worker_iter cfg inp (threads s i) = Inr w"
    and "map fst (in_rx inp) = take (length (in_rx inp)) (rings s i)"
  shows "jobs_given (s\<lparr> threads := (threads s)(i := w),
           rings := (rings s)(i := drop (length (taken inp (threads s i))) (rings s i)),
           discarded := (discarded s)(i := discarded s i + num_invalid cfg (taken inp (threads s i))) \<rparr>) = jobs_given s"
proof
  fix j
  have ok: "worker_ok n (threads s i)" using assms(1,2) by (simp add: threads_ok_def)
  let ?t = "taken inp (threads s i)"
  from iter_held [OF assms(3) ok] have "size (tx_held w) = size (tx_held (threads s i)) + length (replies cfg ?t)"
    by (metis size_mset size_union)
  then have "length (busy_coros w) + num_done w =
      length (busy_coros (threads s i)) + num_done (threads s i) + length (replies cfg ?t)"
    by (simp add: num_jobs)
  with num_valid_invalid [of cfg ?t] taken_prefix(2) [OF assms(4), of "threads s i"]
  show "jobs_given (s\<lparr> threads := (threads s)(i := w),
           rings := (rings s)(i := drop (length ?t) (rings s i)),
           discarded := (discarded s)(i := discarded s i + num_invalid cfg ?t) \<rparr>) j = jobs_given s j"
    by (auto simp: jobs_given_def)
qed

lemma step_threads_ok:
  assumes "sys_step cfg wtop s s'" and "threads_ok n s"
  shows "threads_ok n s'"
  using assms(1)
proof cases
  case (dispatch c cs nb d i sent)
  from dispatch(4) have "i = wid (wtop (worker_queue (disp s)))" "sent = take nb c"
    by (auto simp: dispatch_chunk_def Let_def)
  with dispatch assms(2) show ?thesis
    by (auto simp: threads_ok_def ring_accepts_def min_def)
next
  case (work i inp w)
  then have ok: "worker_ok n (threads s i)" "size_count (threads s i) = of_nat (num_done (threads s i))"
    using assms(2) by (auto simp: threads_ok_def)
  from iter_held [OF work(3) ok(1)] iter_done [OF work(3) ok(1)] ok(2)
  have "worker_ok n w" "size_count w = of_nat (num_done w)" by auto
  with work(1) assms(2) show ?thesis by (auto simp: threads_ok_def)
qed (use assms(2) in \<open>auto simp: threads_ok_def\<close>)

lemma step_counts_ok:
  assumes "sys_step cfg wtop s s'" and "prio_top worker_info_less wtop" and "threads_ok n s" and "counts_ok s"
  shows "counts_ok s'"
  using assms(1)
proof cases
  case (dispatch c cs nb d i sent)
  show ?thesis unfolding dispatch(1) by (rule dispatch_counts [OF assms(2,4) dispatch(3,4)])
next
  case (check k tot d tot')
  show ?thesis unfolding check(1) by (rule check_counts [OF assms(2,4,3) check(4)])
next
  case (work i inp w)
  from work_jobs [OF assms(3) work(2-4)] assms(4) show ?thesis by (simp add: work(1) counts_ok_def)
qed (use assms(4) in \<open>auto simp: counts_ok_def\<close>)

lemma init_ok: "threads_ok n (system_init n sq0)" "counts_ok (system_init n sq0)"
proof -
  show "threads_ok n (system_init n sq0)" using worker_init_ok
    by (simp add: threads_ok_def system_init_def) (simp add: worker_init_def num_done_def)
  show "counts_ok (system_init n sq0)"
    by (auto simp: counts_ok_def system_init_def dispatcher_init_def worker_info_new_def jobs_given_def
        worker_init_def num_done_def image_mset.compositionality comp_def)
qed

lemma reachable_ok:
  assumes "reachable cfg wtop (system_init n sq0) s" and "prio_top worker_info_less wtop"
  shows "threads_ok n s \<and> counts_ok s"
  using assms(1)
proof induction
  case start
  show ?case using init_ok by blast
next
  case (step s s')
  then show ?case using step_threads_ok step_counts_ok assms(2) by blast
qed

section \<open>Conservation of received packets\<close>

fun pending :: "dispatcher_pc \<Rightarrow> mbuf list" where
  "pending (Dispatching cs) = concat cs"
| "pending _ = []"

definition held_by :: "system \<Rightarrow> nat \<Rightarrow> mbuf multiset" where
  "held_by s i = mset (rings s i) + rx_held (threads s i)"

definition all_packets :: "system \<Rightarrow> mbuf multiset" where
  "all_packets s = mset (pending (pc s)) + mset (dropped_rx (disp s)) + (\<Sum>i<NUM_WORKER_THREADS. held_by s i)"

lemma sum_bump:
  fixes f g :: "nat \<Rightarrow> mbuf multiset"
  assumes "i < m" and "g i = f i + x" and "\<And>j. j \<noteq> i \<Longrightarrow> g j = f j"
  shows "(\<Sum>j<m. g j) = (\<Sum>j<m. f j) + x"
proof -
  have "(\<Sum>j\<in>{..<m} - {i}. g j) = (\<Sum>j\<in>{..<m} - {i}. f j)" using assms(3) by (intro sum.cong) auto
  then show ?thesis using assms(1,2) by (simp add: sum.remove [of "{..<m}" i])
qed

lemma step_packets:
  assumes "sys_step cfg wtop s s'" and "prio_top worker_info_less wtop" and "threads_ok n s" and "counts_ok s"
    and "all_packets s = mset (received s)"
  shows "all_packets s' = mset (received s')"
  using assms(1)
proof cases
  case (receive rx_bufs)
  then have "0 < max_dispatch_size (length rx_bufs)" by (simp add: max_dispatch_size_bounds)
  with receive assms(5) show ?thesis by (simp add: all_packets_def held_by_def concat_chunks)
next
  case (dispatch c cs nb d i sent)
  have i: "i = wid (wtop (worker_queue (disp s)))" using dispatch(4) by (auto simp: dispatch_chunk_def Let_def)
  with queue_wids(3) [OF assms(4)] prio_top.top_in [OF assms(2) queue_wids(1) [OF assms(4)]]
  have "i < NUM_WORKER_THREADS" by simp
  then have "(\<Sum>j<NUM_WORKER_THREADS. held_by s' j) = (\<Sum>j<NUM_WORKER_THREADS. held_by s j) + mset sent"
    by (rule sum_bump) (auto simp: dispatch(1) held_by_def)
  with dispatch_chunk_mset [OF dispatch(4)] assms(5) show ?thesis
    by (simp add: all_packets_def dispatch(1,2) ac_simps) (metis union_assoc union_commute)
next
  case (check k tot d tot')
  from check(4) have "dropped_rx d = dropped_rx (disp s)" by (metis check_in_one_dropped fst_conv)
  with check assms(5) show ?thesis by (simp add: all_packets_def held_by_def)
next
  case (work i inp w)
  have ok: "worker_ok n (threads s i)" using assms(3) work(2) by (simp add: threads_ok_def)
  let ?t = "taken inp (threads s i)"
  have "mset (take (length ?t) (rings s i)) + mset (drop (length ?t) (rings s i)) = mset (rings s i)"
    by (metis append_take_drop_id mset_append)
  with iter_held [OF work(3) ok] taken_prefix(1) [OF work(4), of "threads s i"]
  have "held_by s' = held_by s"
    by (auto simp: fun_eq_iff held_by_def work(1)) (metis mset_map union_assoc union_commute)
  with assms(5) show ?thesis by (simp add: all_packets_def work(1))
qed (use assms(5) in \<open>auto simp: all_packets_def held_by_def\<close>)

lemma reachable_packets:
  assumes "reachable cfg wtop (system_init n sq0) s" and "prio_top worker_info_less wtop"
  shows "all_packets s = mset (received s)"
  using assms(1)
proof induction
  case start
  show ?case by (simp add: all_packets_def held_by_def system_init_def dispatcher_init_def worker_init_def rx_held_def)
next
  case (step s s')
  then show ?case using step_packets reachable_ok assms(2) by blast
qed

section \<open>Buffer pools\<close>

definition RX_MBUF_POOL_SIZE :: nat where "RX_MBUF_POOL_SIZE = 131071"
definition TX_MBUF_POOL_SIZE :: nat where "TX_MBUF_POOL_SIZE = 8191"

definition MAX_NUM_RX_MBUF_PER_THREAD :: "nat \<Rightarrow> nat" where
  "MAX_NUM_RX_MBUF_PER_THREAD num_coros = DISPATCH_RING_SIZE + num_coros + RETURN_RING_BURST_SIZE"

definition MAX_NUM_TX_MBUF_PER_THREAD :: "nat \<Rightarrow> nat" where
  "MAX_NUM_TX_MBUF_PER_THREAD num_coros = num_coros + TX_QUEUE_BURST_SIZE"

definition sanity_check :: "nat \<Rightarrow> bool" where
  "sanity_check num_coros \<longleftrightarrow>
     RX_MBUF_POOL_SIZE > NUM_WORKER_THREADS * MAX_NUM_RX_MBUF_PER_THREAD num_coros \<and>
     TX_MBUF_POOL_SIZE > NUM_WORKER_THREADS * MAX_NUM_TX_MBUF_PER_THREAD num_coros"

definition RX_RING_SIZE :: nat where "RX_RING_SIZE = 4096"
definition TX_RING_SIZE :: nat where "TX_RING_SIZE = 128"

text \<open>
  What worker \<open>i\<close> and its ring hold at a loop head, and what has left the pool: also the
  burst the dispatcher is handing out, and the buffers no code path frees any more (received
  buffers that find the return array full, replies that the NIC refuses).
\<close>

definition rx_in_use :: "system \<Rightarrow> nat \<Rightarrow> nat" where
  "rx_in_use s i = length (rings s i) + length (busy_coros (threads s i)) + length (return_rx_bufs (threads s i))"

definition tx_in_use :: "system \<Rightarrow> nat \<Rightarrow> nat" where
  "tx_in_use s i = length (busy_coros (threads s i)) + length (tx_bufs (threads s i))"

definition rx_lost :: "system \<Rightarrow> nat" where
  "rx_lost s = (\<Sum>i<NUM_WORKER_THREADS. length (leaked_rx (threads s i)))"

definition tx_lost :: "system \<Rightarrow> nat" where
  "tx_lost s = (\<Sum>i<NUM_WORKER_THREADS. length (refused_tx (threads s i)))"

definition rx_out :: "system \<Rightarrow> nat" where
  "rx_out s = length (pending (pc s)) + (\<Sum>i<NUM_WORKER_THREADS. rx_in_use s i) + rx_lost s"

definition tx_out :: "system \<Rightarrow> nat" where
  "tx_out s = (\<Sum>i<NUM_WORKER_THREADS. tx_in_use s i) + tx_lost s"

lemma step_pending:
  assumes "sys_step cfg wtop s s'" and "length (pending (pc s)) \<le> RX_QUEUE_BURST_SIZE"
  shows "length (pending (pc s')) \<le> RX_QUEUE_BURST_SIZE"
  using assms(1)
proof cases
  case (receive rx_bufs)
  then have "0 < max_dispatch_size (length rx_bufs)" by (simp add: max_dispatch_size_bounds)
  then show ?thesis using receive by (simp add: concat_chunks)
qed (use assms(2) in auto)

lemma reachable_pending:
  "reachable cfg wtop (system_init n sq0) s \<Longrightarrow> length (pending (pc s)) \<le> RX_QUEUE_BURST_SIZE"
  by (induction rule: reachable.induct) (auto simp: system_init_def intro: step_pending)

lemma in_use_bounds:
  assumes "threads_ok n s" and "i < NUM_WORKER_THREADS"
  shows "rx_in_use s i \<le> MAX_NUM_RX_MBUF_PER_THREAD n" and "tx_in_use s i \<le> MAX_NUM_TX_MBUF_PER_THREAD n"
proof -
  let ?w = "threads s i"
  from assms have ok: "worker_ok n ?w" "length (rings s i) \<le> ring_capacity" by (auto simp: threads_ok_def)
  then have "size (mset (idle_coros ?w) + mset (busy_coros ?w)) = n" by (simp add: worker_ok_def pool_ok_def)
  then have "length (busy_coros ?w) \<le> n" by simp
  with ok show "rx_in_use s i \<le> MAX_NUM_RX_MBUF_PER_THREAD n" "tx_in_use s i \<le> MAX_NUM_TX_MBUF_PER_THREAD n"
    by (auto simp: rx_in_use_def tx_in_use_def MAX_NUM_RX_MBUF_PER_THREAD_def MAX_NUM_TX_MBUF_PER_THREAD_def
        worker_ok_def ring_capacity_def)
qed

lemma out_bounds:
  assumes "threads_ok n s"
  shows "rx_out s \<le> length (pending (pc s)) + NUM_WORKER_THREADS * MAX_NUM_RX_MBUF_PER_THREAD n + rx_lost s"
    and "tx_out s \<le> NUM_WORKER_THREADS * MAX_NUM_TX_MBUF_PER_THREAD n + tx_lost s"
proof -
  have "(\<Sum>i<NUM_WORKER_THREADS. rx_in_use s i) \<le> (\<Sum>i<NUM_WORKER_THREADS. MAX_NUM_RX_MBUF_PER_THREAD n)"
    "(\<Sum>i<NUM_WORKER_THREADS. tx_in_use s i) \<le> (\<Sum>i<NUM_WORKER_THREADS. MAX_NUM_TX_MBUF_PER_THREAD n)"
    by (rule sum_mono; simp add: in_use_bounds [OF assms])+
  then show "rx_out s \<le> length (pending (pc s)) + NUM_WORKER_THREADS * MAX_NUM_RX_MBUF_PER_THREAD n + rx_lost s"
    "tx_out s \<le> NUM_WORKER_THREADS * MAX_NUM_TX_MBUF_PER_THREAD n + tx_lost s"
    by (simp_all add: rx_out_def tx_out_def)
qed

section \<open>Properties\<close>

text \<open>
  C1. The dispatcher's view of a worker is exact modulo 2 to the 16 in every state the threads
  can reach, whatever their interleaving: \<^verbatim>\<open>num_running_jobs\<close> counts the worker's
  requests that wait on its ring, run, are finished but not yet reported at a check-in, or were
  discarded as invalid.
\<close>

theorem running_jobs_counted:
  assumes "reachable cfg wtop (system_init n sq0) s" and "prio_top worker_info_less wtop"
    and "w \<in> set (worker_queue (disp s))"
  shows "(ucast (num_running_jobs w) :: u16) =
     of_nat (length (rings s (wid w)) + length (busy_coros (threads s (wid w))) + discarded s (wid w)) +
     (of_nat (num_done (threads s (wid w))) - ucast (prev_sizes (disp s) (wid w)))"
  using reachable_ok [OF assms(1,2)] assms(3) by (simp add: counts_ok_def jobs_given_def algebra_simps)

text \<open>A run of the system for the witnesses: a burst of one packet is received and dispatched.\<close>

lemma demo_system:
  "\<exists>s. reachable demo_cfg (scan_top worker_info_less) (system_init 2 (\<lambda>_. 0)) s \<and>
     received s = [demo_rx 1 1] \<and> worker_queue (disp s) \<noteq> []"
proof -
  let ?s0 = "system_init 2 (\<lambda>_. 0)" and ?top = "scan_top worker_info_less"
  let ?cs = "chunks (max_dispatch_size (length [demo_rx 1 1])) [demo_rx 1 1]"
  have m: "max_dispatch_size (Suc 0) = Suc 0"
    by (simp add: max_dispatch_size_def NUM_WORKER_THREADS_def)
  let ?s1 = "?s0\<lparr> pc := Dispatching ?cs, received := received ?s0 @ [demo_rx 1 1] \<rparr>"
  have "sys_step demo_cfg ?top ?s0 ?s1"
    by (rule sys_step.receive) (simp_all add: system_init_def RX_QUEUE_BURST_SIZE_def NUM_WORKER_THREADS_def MAX_DISPATCH_UNIT_def)
  then have r1: "reachable demo_cfg ?top ?s0 ?s1" by (rule reachable.step [OF reachable.start])
  have cs: "?cs = [[demo_rx 1 1]]"
    by (simp add: m) (subst chunks.simps, simp, subst chunks.simps, simp)
  obtain d i sent where e: "dispatch_chunk ?top
      (ring_accepts (rings ?s1 (wid (?top (worker_queue (disp ?s1))))) [demo_rx 1 1]) [demo_rx 1 1] (disp ?s1) = (d, i, sent)"
    by (metis prod_cases3)
  let ?s2 = "?s1\<lparr> pc := Dispatching [], disp := d, rings := (rings ?s1)(i := rings ?s1 i @ sent) \<rparr>"
  have "sys_step demo_cfg ?top ?s1 ?s2"
    by (rule sys_step.dispatch [OF _ refl e]) (use cs in simp)
  then have r2: "reachable demo_cfg ?top ?s0 ?s2" by (rule reachable.step [OF r1])
  moreover have "received ?s2 = [demo_rx 1 1]" by (simp add: system_init_def)
  moreover have "worker_queue (disp ?s2) \<noteq> []"
    using queue_wids(1) reachable_ok [OF r2 scan.prio_top_axioms] by blast
  ultimately show ?thesis by blast
qed

theorem running_jobs_counted_witness:
  "\<exists>s w. reachable demo_cfg (scan_top worker_info_less) (system_init 2 (\<lambda>_. 0)) s \<and> received s = [demo_rx 1 1] \<and>
     w \<in> set (worker_queue (disp s)) \<and> (ucast (num_running_jobs w) :: u16) =
       of_nat (length (rings s (wid w)) + length (busy_coros (threads s (wid w))) + discarded s (wid w)) +
       (of_nat (num_done (threads s (wid w))) - ucast (prev_sizes (disp s) (wid w)))"
proof -
  from demo_system obtain s where s: "reachable demo_cfg (scan_top worker_info_less) (system_init 2 (\<lambda>_. 0)) s"
    "received s = [demo_rx 1 1]" "worker_queue (disp s) \<noteq> []" by blast
  then have "hd (worker_queue (disp s)) \<in> set (worker_queue (disp s))" by simp
  with running_jobs_counted [OF s(1) scan.prio_top_axioms this] s(1,2) show ?thesis by blast
qed

text \<open>
  C2. No received packet is lost or duplicated in any reachable state: it still waits to be
  dispatched, was freed because a ring was full, lies on a ring, or is accounted for by the
  worker that took it.
\<close>

theorem packets_conserved:
  assumes "reachable cfg wtop (system_init n sq0) s" and "prio_top worker_info_less wtop"
  shows "mset (received s) = mset (pending (pc s)) + mset (dropped_rx (disp s)) +
     (\<Sum>i<NUM_WORKER_THREADS. mset (rings s i) + rx_held (threads s i))"
  using reachable_packets [OF assms] by (simp add: all_packets_def held_by_def)

theorem packets_conserved_witness:
  "\<exists>s. reachable demo_cfg (scan_top worker_info_less) (system_init 2 (\<lambda>_. 0)) s \<and>
     {#demo_rx 1 1#} = mset (pending (pc s)) + mset (dropped_rx (disp s)) +
     (\<Sum>i<NUM_WORKER_THREADS. mset (rings s i) + rx_held (threads s i))"
proof -
  from demo_system obtain s where s: "reachable demo_cfg (scan_top worker_info_less) (system_init 2 (\<lambda>_. 0)) s"
    "received s = [demo_rx 1 1]" by blast
  from packets_conserved [OF s(1) scan.prio_top_axioms] s show ?thesis by auto
qed

text \<open>
  C17. How far the settings \<^verbatim>\<open>sanity_check\<close> accepts suffice, in every reachable state.
  Count as outside the pool every buffer the threads hold: the burst being dispatched, the
  buffers on rings, in use by coroutines or waiting to be returned or sent, and those lost for
  good, the received buffers forgotten at a full return array and the replies the NIC refused.
  Then the transmit buffers outside the pool that are not lost are fewer than the pool holds;
  so are the receive buffers, up to the burst being dispatched, which the check does not count
  and which is at most \<^verbatim>\<open>RX_QUEUE_BURST_SIZE\<close>. With up to the 14 coroutines per worker
  of the Makefile, the burst and a buffer for each descriptor of the NIC's rings fit as well.
\<close>

theorem pools_suffice:
  assumes "reachable cfg wtop (system_init n sq0) s" and "prio_top worker_info_less wtop" and "sanity_check n"
  shows "length (pending (pc s)) \<le> RX_QUEUE_BURST_SIZE \<and>
         rx_out s < RX_MBUF_POOL_SIZE + length (pending (pc s)) + rx_lost s \<and>
         tx_out s < TX_MBUF_POOL_SIZE + tx_lost s \<and>
         (n \<le> 14 \<longrightarrow> rx_out s + RX_RING_SIZE < RX_MBUF_POOL_SIZE + rx_lost s \<and>
            tx_out s + NUM_WORKER_THREADS * TX_RING_SIZE < TX_MBUF_POOL_SIZE + tx_lost s)"
proof -
  have ok: "threads_ok n s" using reachable_ok [OF assms(1,2)] by blast
  note out = out_bounds [OF ok] and p = reachable_pending [OF assms(1)]
  have "rx_out s < RX_MBUF_POOL_SIZE + length (pending (pc s)) + rx_lost s"
    "tx_out s < TX_MBUF_POOL_SIZE + tx_lost s"
    using out assms(3) unfolding sanity_check_def by linarith+
  moreover have "rx_out s + RX_RING_SIZE < RX_MBUF_POOL_SIZE + rx_lost s \<and>
      tx_out s + NUM_WORKER_THREADS * TX_RING_SIZE < TX_MBUF_POOL_SIZE + tx_lost s" if "n \<le> 14"
    using out p that
    by (simp add: RX_RING_SIZE_def TX_RING_SIZE_def RX_MBUF_POOL_SIZE_def TX_MBUF_POOL_SIZE_def
        NUM_WORKER_THREADS_def MAX_NUM_RX_MBUF_PER_THREAD_def MAX_NUM_TX_MBUF_PER_THREAD_def
        DISPATCH_RING_SIZE_def worker_consts RX_QUEUE_BURST_SIZE_def MAX_DISPATCH_UNIT_def)
  ultimately show ?thesis using p by blast
qed

theorem pools_suffice_witness:
  "\<exists>s. reachable demo_cfg (scan_top worker_info_less) (system_init 2 (\<lambda>_. 0)) s \<and> received s = [demo_rx 1 1] \<and>
     rx_out s + RX_RING_SIZE < RX_MBUF_POOL_SIZE + rx_lost s \<and> tx_out s < TX_MBUF_POOL_SIZE + tx_lost s"
proof -
  from demo_system obtain s where s: "reachable demo_cfg (scan_top worker_info_less) (system_init 2 (\<lambda>_. 0)) s"
    "received s = [demo_rx 1 1]" by blast
  have "sanity_check 2"
    by (simp add: sanity_check_def RX_MBUF_POOL_SIZE_def TX_MBUF_POOL_SIZE_def NUM_WORKER_THREADS_def
        MAX_NUM_RX_MBUF_PER_THREAD_def MAX_NUM_TX_MBUF_PER_THREAD_def DISPATCH_RING_SIZE_def worker_consts)
  from pools_suffice [OF s(1) scan.prio_top_axioms this] s show ?thesis by auto
qed

end
