(* ===== verification/ServerMain.thy ===== *)
theory ServerMain
  imports Packet
begin

unbundle bit_operations_syntax

text \<open>
  What surrounds the two threads in \<^verbatim>\<open>tq_server.cpp\<close>: the job a coroutine runs, its stack,
  the synthetic work of \<^verbatim>\<open>fake_work.cpp\<close>, the mutex wrapper of \<^verbatim>\<open>coro_pthread.c\<close>,
  and start-up (command line, buffer pools, port, \<^verbatim>\<open>main\<close>). The results of DPDK calls are
  fields of an environment record; every early return of the source is a branch.
\<close>

section \<open>Synthetic work\<close>

definition NOPS_PER_ITERATION :: nat where "NOPS_PER_ITERATION = 300"

text \<open>\<open>while (i--)\<close>: the number of nops executed.\<close>

function work :: "u64 \<Rightarrow> nat" where
  "work i = (if i = 0 then 0 else NOPS_PER_ITERATION + work (i - 1))"
  by auto
termination by (relation "measure unat") (auto simp: unat_minus_one unat_gt_0 intro!: diff_less)

declare work.simps [simp del]

definition fake_work_ns :: "u32 \<Rightarrow> nat" where
  "fake_work_ns target_ns =
     (if target_ns = 500 then work 17
      else if target_ns = 1000 then work 34
      else if target_ns = 2500 then work 86
      else if target_ns = 10000 then work 341
      else if target_ns = 100000 then work 3412
      else if target_ns = 500000 then work 16997
      else 0)"

section \<open>The job of a coroutine\<close>

text \<open>
  \<^verbatim>\<open>do_get\<close> takes the address of the 64-bit field \<^verbatim>\<open>key\<close> as a C string; behind it lies
  \<^verbatim>\<open>ns_sleep\<close>.
\<close>

definition le_bytes :: "u64 \<Rightarrow> byte list" where
  "le_bytes v = map (\<lambda>i. ucast (drop_bit (8 * i) v)) [0..<8]"

definition c_string_key :: "job_info \<Rightarrow> byte list" where
  "c_string_key j = takeWhile (\<lambda>b. b \<noteq> 0) (le_bytes (key j) @ le_bytes (ns_sleep j))"

datatype job_action = Do_get "byte list" | Do_scan | Fake_work nat | No_action

definition coro_job :: "server_cfg \<Rightarrow> job_info \<Rightarrow> job_action" where
  "coro_job cfg j =
     (if use_leveldb cfg
      then (case jtype j of GET \<Rightarrow> Do_get (c_string_key j) | SCAN \<Rightarrow> Do_scan | job_other _ \<Rightarrow> No_action)
      else Fake_work (fake_work_ns (ucast (ns_sleep j))))"

section \<open>Coroutine stacks\<close>

definition STACK_SIZE :: u64 where "STACK_SIZE = 128 * 1024"
definition HUGE_PAGE_SIZE :: u64 where "HUGE_PAGE_SIZE = push_bit 30 1"

record stack_context =
  stk_size :: u64
  sp :: u64

datatype stack_error = bad_alloc

definition allocate :: "u64 option \<Rightarrow> u64 \<Rightarrow> stack_error + stack_context" where
  "allocate vp sz = (case vp of None \<Rightarrow> Inl bad_alloc | Some p \<Rightarrow> Inr \<lparr> stk_size = sz, sp = p + sz \<rparr>)"

text \<open>The pointer handed to \<^verbatim>\<open>rte_free\<close>.\<close>

definition deallocate :: "stack_context \<Rightarrow> u64" where
  "deallocate sctx = sp sctx - stk_size sctx"

definition round_to_huge_page_size :: "u64 \<Rightarrow> u64" where
  "round_to_huge_page_size n = ((n - 1) div HUGE_PAGE_SIZE + 1) * HUGE_PAGE_SIZE"

section \<open>The mutex wrapper\<close>

definition EBUSY :: int where "EBUSY = 16"

text \<open>
  One observation per turn of the loop: the owner field read, and what
  \<^verbatim>\<open>pthread_mutex_trylock\<close> returns if it is called. The result is the arguments the hook
  was called with and the return value, if the loop ended within the observations.
\<close>

fun wrap_pthread_mutex_lock :: "int \<Rightarrow> (int \<times> int) list \<Rightarrow> int list \<times> int option" where
  "wrap_pthread_mutex_lock cp_pid [] = ([], None)"
| "wrap_pthread_mutex_lock cp_pid ((owner, res) # obs) =
     (if owner = cp_pid
      then (case wrap_pthread_mutex_lock cp_pid obs of (h, r) \<Rightarrow> (0 # h, r))
      else if res = EBUSY
      then (case wrap_pthread_mutex_lock cp_pid obs of (h, r) \<Rightarrow> (res # h, r))
      else ([], Some res))"

section \<open>Command line\<close>

definition EINVAL :: int where "EINVAL = 22"

text \<open>\<^verbatim>\<open>%hhu\<close> of \<^verbatim>\<open>sscanf\<close> on an unsigned decimal: at least one digit, reduced modulo 256.\<close>

definition scan_hhu :: "string \<Rightarrow> (byte \<times> string) option" where
  "scan_hhu str =
     (let ds = takeWhile is_digit str
      in if ds = [] then None else Some (of_nat (digits_val 0 ds), dropWhile is_digit str))"

definition scan_dot :: "string \<Rightarrow> string option" where
  "scan_dot str = (case str of [] \<Rightarrow> None | c # cs \<Rightarrow> if c = CHR ''.'' then Some cs else None)"

definition scan_dot_hhu :: "string \<Rightarrow> (byte \<times> string) option" where
  "scan_dot_hhu str = (case scan_dot str of None \<Rightarrow> None | Some s \<Rightarrow> scan_hhu s)"

definition str_to_ip :: "string \<Rightarrow> int + u32" where
  "str_to_ip str =
     (case scan_hhu str of None \<Rightarrow> Inl (- EINVAL) | Some (a, s1) \<Rightarrow>
     (case scan_dot_hhu s1 of None \<Rightarrow> Inl (- EINVAL) | Some (b, s2) \<Rightarrow>
     (case scan_dot_hhu s2 of None \<Rightarrow> Inl (- EINVAL) | Some (c, s3) \<Rightarrow>
     (case scan_dot_hhu s3 of None \<Rightarrow> Inl (- EINVAL) | Some (d, _) \<Rightarrow> Inr (MAKE_IP_ADDR a b c d)))))"

text \<open>\<^verbatim>\<open>parse_args\<close> sets \<^verbatim>\<open>my_ip\<close> and ignores what \<^verbatim>\<open>str_to_ip\<close> returns.\<close>

definition parse_args :: "string list \<Rightarrow> u32 \<Rightarrow> int \<times> u32" where
  "parse_args argv my_ip0 =
     (if length argv \<noteq> 2 then (- EINVAL, my_ip0)
      else (0, case str_to_ip (argv ! 1) of Inl _ \<Rightarrow> my_ip0 | Inr ip \<Rightarrow> ip))"

section \<open>Buffer pools\<close>

text \<open>
  What the mempool library answers: the pool created for the given flags, the return codes of
  \<^verbatim>\<open>rte_mempool_set_ops_byname\<close> and \<^verbatim>\<open>rte_mempool_populate_default\<close>, and
  \<^verbatim>\<open>RTE_ALIGN\<close> to the private-area alignment. The result records the calls made on the
  pool, in order.
\<close>

datatype mempool_flags = No_flags | MEMPOOL_F_SC_GET
datatype obj_init = pktmbuf_init | pktmbuf_customized_init
datatype pool_call = Set_ops nat | Pool_init nat u16 u16 | Populate nat | Obj_iter nat obj_init | Mempool_free nat

record mempool_env =
  create_empty :: "mempool_flags \<Rightarrow> nat option"
  set_ops_ret :: int
  populate_ret :: int
  rte_align :: "u16 \<Rightarrow> u16"

record pool_result =
  pool :: "nat option"
  rte_errno :: "int option"
  pool_calls :: "pool_call list"

definition rte_pktmbuf_pool_create_w_customized_init ::
    "mempool_env \<Rightarrow> u16 \<Rightarrow> u16 \<Rightarrow> pool_result" where
  "rte_pktmbuf_pool_create_w_customized_init e priv_size data_room_size =
     (if rte_align e priv_size \<noteq> priv_size
      then \<lparr> pool = None, rte_errno = Some EINVAL, pool_calls = [] \<rparr>
      else (case create_empty e No_flags of
        None \<Rightarrow> \<lparr> pool = None, rte_errno = None, pool_calls = [] \<rparr>
      | Some mp \<Rightarrow>
          if set_ops_ret e \<noteq> 0
          then \<lparr> pool = None, rte_errno = Some (- set_ops_ret e),
                 pool_calls = [Set_ops mp, Mempool_free mp] \<rparr>
          else if populate_ret e < 0
          then \<lparr> pool = None, rte_errno = Some (- populate_ret e),
                 pool_calls = [Set_ops mp, Pool_init mp data_room_size priv_size, Populate mp, Mempool_free mp] \<rparr>
          else \<lparr> pool = Some mp, rte_errno = None,
                 pool_calls = [Set_ops mp, Pool_init mp data_room_size priv_size, Populate mp,
                               Obj_iter mp pktmbuf_customized_init] \<rparr>))"

definition rte_pktmbuf_pool_create_spsc :: "mempool_env \<Rightarrow> u16 \<Rightarrow> u16 \<Rightarrow> pool_result" where
  "rte_pktmbuf_pool_create_spsc e priv_size data_room_size =
     (if rte_align e priv_size \<noteq> priv_size
      then \<lparr> pool = None, rte_errno = Some EINVAL, pool_calls = [] \<rparr>
      else (case create_empty e MEMPOOL_F_SC_GET of
        None \<Rightarrow> \<lparr> pool = None, rte_errno = None, pool_calls = [] \<rparr>
      | Some mp \<Rightarrow>
          if set_ops_ret e \<noteq> 0
          then \<lparr> pool = None, rte_errno = Some (- set_ops_ret e),
                 pool_calls = [Set_ops mp, Mempool_free mp] \<rparr>
          else if populate_ret e < 0
          then \<lparr> pool = None, rte_errno = Some (- populate_ret e),
                 pool_calls = [Set_ops mp, Pool_init mp data_room_size priv_size, Populate mp, Mempool_free mp] \<rparr>
          else \<lparr> pool = Some mp, rte_errno = None,
                 pool_calls = [Set_ops mp, Pool_init mp data_room_size priv_size, Populate mp,
                               Obj_iter mp pktmbuf_init] \<rparr>))"

section \<open>Port and start-up\<close>

text \<open>
  The calls \<^verbatim>\<open>port_init\<close> makes to the NIC's driver, with the arguments that vary. The
  environment gives each its return code, says to what the driver adjusts the numbers of
  descriptors, and what \<^verbatim>\<open>my_eth\<close> holds after \<^verbatim>\<open>rte_eth_macaddr_get\<close>.
\<close>

datatype eth_call =
    dev_is_valid_port
  | dev_configure u16 u16
  | dev_adjust_nb_rx_tx_desc u16 u16
  | rx_queue_setup nat u16
  | dev_info_get
  | tx_queue_setup nat u16
  | dev_start
  | macaddr_get
  | promiscuous_enable

record port_env =
  eth_ret :: "eth_call \<Rightarrow> int"
  adjusted_rxd :: "u16 \<Rightarrow> u16"
  adjusted_txd :: "u16 \<Rightarrow> u16"
  macaddr :: "byte list"

record port_result =
  port_ret :: int
  port_calls :: "eth_call list"
  port_eth :: "byte list"

text \<open>The loop over the queues: it stops at the first negative result.\<close>

fun setup_queues :: "(eth_call \<Rightarrow> int) \<Rightarrow> (nat \<Rightarrow> eth_call) \<Rightarrow> nat list \<Rightarrow> eth_call list \<times> int option" where
  "setup_queues ret setup [] = ([], None)"
| "setup_queues ret setup (q # qs) =
     (if ret (setup q) < 0 then ([setup q], Some (ret (setup q)))
      else (case setup_queues ret setup qs of (cs, r) \<Rightarrow> (setup q # cs, r)))"

definition nb_rxd0 :: u16 where "nb_rxd0 = 4096"
definition nb_txd0 :: u16 where "nb_txd0 = 128"

text \<open>
  The results of \<^verbatim>\<open>rte_eth_dev_info_get\<close>, \<^verbatim>\<open>rte_eth_macaddr_get\<close> and
  \<^verbatim>\<open>rte_eth_promiscuous_enable\<close> are not looked at.
\<close>

definition port_init :: "port_env \<Rightarrow> u32 \<Rightarrow> u32 \<Rightarrow> byte list \<Rightarrow> port_result" where
  "port_init e n_rxqueues n_txqueues my_eth0 =
     (let ret = eth_ret e; rx_rings = (ucast n_rxqueues :: u16); tx_rings = (ucast n_txqueues :: u16);
          failed = (\<lambda>r cs. \<lparr> port_ret = r, port_calls = cs, port_eth = my_eth0 \<rparr>);
          c1 = [dev_is_valid_port]; c2 = c1 @ [dev_configure rx_rings tx_rings];
          c3 = c2 @ [dev_adjust_nb_rx_tx_desc nb_rxd0 nb_txd0];
          nb_rxd = adjusted_rxd e nb_rxd0; nb_txd = adjusted_txd e nb_txd0
      in
      if ret dev_is_valid_port = 0 then failed (- 1) c1
      else if ret (dev_configure rx_rings tx_rings) \<noteq> 0
      then failed (ret (dev_configure rx_rings tx_rings)) c2
      else if ret (dev_adjust_nb_rx_tx_desc nb_rxd0 nb_txd0) \<noteq> 0
      then failed (ret (dev_adjust_nb_rx_tx_desc nb_rxd0 nb_txd0)) c3
      else
      (case setup_queues ret (\<lambda>q. rx_queue_setup q nb_rxd) [0..<unat rx_rings] of
         (rxs, Some r) \<Rightarrow> failed r (c3 @ rxs)
       | (rxs, None) \<Rightarrow>
      (case setup_queues ret (\<lambda>q. tx_queue_setup q nb_txd) [0..<unat tx_rings] of
         (txs, Some r) \<Rightarrow> failed r (c3 @ rxs @ [dev_info_get] @ txs)
       | (txs, None) \<Rightarrow>
         let c4 = c3 @ rxs @ [dev_info_get] @ txs @ [dev_start]
         in if ret dev_start < 0 then failed (ret dev_start) c4
            else \<lparr> port_ret = 0, port_calls = c4 @ [macaddr_get, promiscuous_enable],
                   port_eth = macaddr e \<rparr>)))"

record main_env =
  eal_ret :: int
  port_ok :: bool
  rx_pool_env :: mempool_env
  tx_pool_env :: mempool_env
  nic_env :: port_env
  default_buf_size :: u16

datatype outcome = Exit_failure string | Return int | Serve u32

definition num_tx_queues :: u32 where "num_tx_queues = 14"
definition num_rx_queues :: u32 where "num_rx_queues = 1"

definition dpdk_init :: "main_env \<Rightarrow> outcome + int" where
  "dpdk_init e =
     (if eal_ret e < 0 then Inl (Exit_failure ''Error with EAL initialization'')
      else if \<not> port_ok e then Inl (Exit_failure ''Error: port is not available'')
      else if pool (rte_pktmbuf_pool_create_spsc (rx_pool_env e) 0 (default_buf_size e)) = None
      then Inl (Exit_failure ''Cannot create rx mbuf pool'')
      else if pool (rte_pktmbuf_pool_create_w_customized_init (tx_pool_env e) 0 (default_buf_size e)) = None
      then Inl (Exit_failure ''Cannot create tx mbuf pool'')
      else Inr (eal_ret e))"

text \<open>\<open>Serve ip\<close>: \<^verbatim>\<open>run_server\<close> is entered with \<^verbatim>\<open>my_ip\<close> set to \<open>ip\<close>.\<close>

definition main :: "main_env \<Rightarrow> string list \<Rightarrow> outcome" where
  "main e argv =
     (case dpdk_init e of Inl x \<Rightarrow> x
      | Inr args_parsed \<Rightarrow>
          (case parse_args (drop (nat args_parsed) argv) 0 of (res, ip) \<Rightarrow>
             if res < 0 then Return 0
             else if port_ret (port_init (nic_env e) num_rx_queues num_tx_queues (replicate 6 0)) \<noteq> 0
             then Exit_failure ''Cannot init port 0''
             else Serve ip))"

section \<open>Lemmas\<close>

lemma work_nops: "work i = NOPS_PER_ITERATION * unat i"
proof (induction i rule: work.induct)
  case (1 i)
  show ?case
  proof (cases "i = 0")
    case False
    then obtain k where "unat i = Suc k" by (metis not0_implies_Suc unat_eq_zero)
    with False 1 show ?thesis by (subst work.simps) (simp add: unat_minus_one)
  qed (simp add: work.simps)
qed

lemma wrap_pthread_mutex_lock_end:
  "wrap_pthread_mutex_lock pid obs = (h, Some r) \<Longrightarrow>
   \<exists>spins owner rest. obs = spins @ (owner, r) # rest \<and> length spins = length h \<and> owner \<noteq> pid \<and> r \<noteq> EBUSY \<and>
     (\<forall>(o', t) \<in> set spins. o' = pid \<or> t = EBUSY)"
proof (induction pid obs arbitrary: h rule: wrap_pthread_mutex_lock.induct)
  case (2 cp_pid owner res obs)
  show ?case
  proof (cases "owner = cp_pid \<or> res = EBUSY")
    case True
    with 2(3) obtain h' x where h: "wrap_pthread_mutex_lock cp_pid obs = (h', Some r)" "h = x # h'"
      by (auto split: prod.splits if_splits)
    with 2(1,2) True obtain spins ow rest where "obs = spins @ (ow, r) # rest" "length spins = length h'"
      "ow \<noteq> cp_pid" "r \<noteq> EBUSY" "\<forall>(o', t) \<in> set spins. o' = cp_pid \<or> t = EBUSY" by metis
    with True h show ?thesis by (intro exI [of _ "(owner, res) # spins"]) auto
  next
    case False
    with 2(3) show ?thesis by (intro exI [of _ "[]"]) auto
  qed
qed simp

text \<open>
  The reference for \<^verbatim>\<open>port_init\<close>: the calls it means to make, in order, and which answers
  count as success. The script stops after the first call that fails.
\<close>

fun eth_ok :: "(eth_call \<Rightarrow> int) \<Rightarrow> eth_call \<Rightarrow> bool" where
  "eth_ok ret dev_is_valid_port = (ret dev_is_valid_port \<noteq> 0)"
| "eth_ok ret (dev_configure rx tx) = (ret (dev_configure rx tx) = 0)"
| "eth_ok ret (dev_adjust_nb_rx_tx_desc rx tx) = (ret (dev_adjust_nb_rx_tx_desc rx tx) = 0)"
| "eth_ok ret (rx_queue_setup q n) = (0 \<le> ret (rx_queue_setup q n))"
| "eth_ok ret (tx_queue_setup q n) = (0 \<le> ret (tx_queue_setup q n))"
| "eth_ok ret dev_start = (0 \<le> ret dev_start)"
| "eth_ok ret _ = True"

definition port_script :: "port_env \<Rightarrow> u16 \<Rightarrow> u16 \<Rightarrow> eth_call list" where
  "port_script e rx tx =
     [dev_is_valid_port, dev_configure rx tx, dev_adjust_nb_rx_tx_desc nb_rxd0 nb_txd0] @
     map (\<lambda>q. rx_queue_setup q (adjusted_rxd e nb_rxd0)) [0..<unat rx] @ [dev_info_get] @
     map (\<lambda>q. tx_queue_setup q (adjusted_txd e nb_txd0)) [0..<unat tx] @
     [dev_start, macaddr_get, promiscuous_enable]"

fun run_script :: "('a \<Rightarrow> bool) \<Rightarrow> 'a list \<Rightarrow> 'a list \<times> 'a option" where
  "run_script ok [] = ([], None)"
| "run_script ok (c # cs) =
     (if ok c then (case run_script ok cs of (ds, r) \<Rightarrow> (c # ds, r)) else ([c], Some c))"

lemma run_script_append:
  "run_script ok (as @ bs) =
     (case run_script ok as of (cs, Some c) \<Rightarrow> (cs, Some c)
      | (cs, None) \<Rightarrow> (case run_script ok bs of (ds, r) \<Rightarrow> (cs @ ds, r)))"
  by (induction as) (auto split: prod.split option.split)

lemma run_script_all: "list_all ok cs \<Longrightarrow> run_script ok cs = (cs, None)"
  by (induction cs) auto

lemma run_script_fails: "snd (run_script ok cs) = Some c \<Longrightarrow> \<not> ok c \<and> c \<in> set cs"
  by (induction cs) (auto split: prod.splits if_splits)

lemma run_script_succeeds: "snd (run_script ok cs) = None \<longleftrightarrow> list_all ok cs"
  by (induction cs) (auto split: prod.splits)

lemma setup_queues_script:
  assumes "\<And>q. eth_ok ret (setup q) = (0 \<le> ret (setup q))"
  shows "setup_queues ret setup qs =
           (case run_script (eth_ok ret) (map setup qs) of (cs, r) \<Rightarrow> (cs, map_option ret r))"
  using assms by (induction qs) (auto split: prod.split)

definition port_reference :: "port_env \<Rightarrow> u16 \<Rightarrow> u16 \<Rightarrow> eth_call list \<times> eth_call option" where
  "port_reference e rx tx = run_script (eth_ok (eth_ret e)) (port_script e rx tx)"

lemma port_init_reference:
  "port_init e rx tx eth0 =
     (case port_reference e (ucast rx) (ucast tx) of
        (cs, None) \<Rightarrow> \<lparr> port_ret = 0, port_calls = cs, port_eth = macaddr e \<rparr>
      | (cs, Some c) \<Rightarrow>
          \<lparr> port_ret = (if c = dev_is_valid_port then - 1 else eth_ret e c), port_calls = cs,
            port_eth = eth0 \<rparr>)"
proof -
  let ?ok = "eth_ok (eth_ret e)"
  let ?rx = "\<lambda>q. rx_queue_setup q (adjusted_rxd e nb_rxd0)"
  let ?tx = "\<lambda>q. tx_queue_setup q (adjusted_txd e nb_txd0)"
  let ?rxs = "map ?rx [0..<unat (ucast rx :: u16)]" and ?txs = "map ?tx [0..<unat (ucast tx :: u16)]"
  obtain rxs r where r: "run_script ?ok ?rxs = (rxs, r)" by (rule prod.exhaust)
  obtain txs t where t: "run_script ?ok ?txs = (txs, t)" by (rule prod.exhaust)
  have "r = Some c \<Longrightarrow> c \<noteq> dev_is_valid_port" "t = Some c \<Longrightarrow> c \<noteq> dev_is_valid_port" for c
    using run_script_fails [of ?ok ?rxs c] run_script_fails [of ?ok ?txs c] r t by auto
  moreover have "setup_queues (eth_ret e) ?rx [0..<unat (ucast rx :: u16)] = (rxs, map_option (eth_ret e) r)"
    "setup_queues (eth_ret e) ?tx [0..<unat (ucast tx :: u16)] = (txs, map_option (eth_ret e) t)"
    using setup_queues_script [of "eth_ret e" ?rx] setup_queues_script [of "eth_ret e" ?tx] r t by simp_all
  ultimately show ?thesis
    by (cases r; cases t)
      (simp_all add: port_init_def port_reference_def port_script_def run_script_append r t Let_def)
qed

lemma scan_hhu_dec:
  assumes "rest = [] \<or> \<not> is_digit (hd rest)"
  shows "scan_hhu (dec (unat b) @ rest) = Some (b, rest)"
proof -
  have "list_all is_digit (dec (unat b))" "dec (unat b) \<noteq> []" by (rule dec_digits, rule dec_nonempty)
  moreover have "takeWhile is_digit rest = []" "dropWhile is_digit rest = rest"
    using assms by (cases rest; simp)+
  ultimately show ?thesis
    by (simp add: scan_hhu_def Let_def list_all_iff takeWhile_append2 dropWhile_append2 digits_val_dec)
qed

lemma not_digit_dot: "\<not> is_digit (CHR ''.'')"
  by (simp add: is_digit_def)

lemma round_up_nat:
  fixes m p :: nat
  assumes "0 < m" "0 < p"
  shows "((m - 1) div p + 1) * p mod p = 0 \<and> m \<le> ((m - 1) div p + 1) * p \<and> ((m - 1) div p + 1) * p < m + p"
proof -
  define q r where "q = (m - 1) div p" and "r = (m - 1) mod p"
  have "q * p + r = m - 1" unfolding q_def r_def by (rule div_mult_mod_eq)
  moreover have "r < p" unfolding r_def using assms(2) by (rule mod_less_divisor)
  ultimately show ?thesis unfolding q_def [symmetric] using assms(1) by auto
qed

lemma round_to_huge_page_size_nat:
  assumes "0 < n" and "unat n \<le> 2 ^ 64 - 2 ^ 30"
  shows "unat (round_to_huge_page_size n) = ((unat n - 1) div 2 ^ 30 + 1) * 2 ^ 30"
proof -
  let ?q = "(unat n - 1) div 2 ^ 30"
  have h: "HUGE_PAGE_SIZE = of_nat (2 ^ 30)" by (simp add: HUGE_PAGE_SIZE_def)
  have uh: "unat HUGE_PAGE_SIZE = 2 ^ 30" unfolding h by (rule unat_of_nat_small) simp
  have "n \<noteq> 0" using assms(1) by auto
  then have "unat (n - 1) = unat n - 1" by (simp add: unat_minus_one)
  then have "unat ((n - 1) div HUGE_PAGE_SIZE) = ?q" by (simp only: unat_div_distrib uh)
  then have d: "(n - 1) div HUGE_PAGE_SIZE = of_nat ?q" by (metis of_nat_unat ucast_id)
  have "round_to_huge_page_size n = of_nat ((?q + 1) * 2 ^ 30)"
    unfolding round_to_huge_page_size_def d by (simp only: h of_nat_mult of_nat_add of_nat_1)
  moreover have "(?q + 1) * 2 ^ 30 < 2 ^ LENGTH(64)"
  proof -
    have "0 < unat n" using assms(1) by (simp add: word_less_nat_alt)
    with round_up_nat [of "unat n" "2 ^ 30"] have "(?q + 1) * 2 ^ 30 < unat n + 2 ^ 30" by simp
    also have "\<dots> \<le> 2 ^ 64" using assms(2) by simp
    finally show ?thesis by simp
  qed
  ultimately show ?thesis by (simp only: unat_of_nat_small)
qed

definition dotted :: "byte \<Rightarrow> byte \<Rightarrow> byte \<Rightarrow> byte \<Rightarrow> string" where
  "dotted a b c d = dec (unat a) @ ''.'' @ dec (unat b) @ ''.'' @ dec (unat c) @ ''.'' @ dec (unat d)"

section \<open>Properties\<close>

text \<open>
  C21. Parsing an address inverts printing it: the dotted decimal form of any four bytes is parsed
  to the address with exactly these bytes, the first one most significant.
\<close>

theorem str_to_ip_dotted:
  "str_to_ip (dotted a b c d) = Inr (MAKE_IP_ADDR a b c d) \<and> be32 (MAKE_IP_ADDR a b c d) = [a, b, c, d]"
proof
  show "str_to_ip (dotted a b c d) = Inr (MAKE_IP_ADDR a b c d)"
    using scan_hhu_dec [of "[]" d] unfolding dotted_def str_to_ip_def scan_dot_hhu_def scan_dot_def
    by (simp add: scan_hhu_dec not_digit_dot)
  show "be32 (MAKE_IP_ADDR a b c d) = [a, b, c, d]"
    using be32_of_be32 [of "[a, b, c, d]"] by (simp add: of_be32_def MAKE_IP_ADDR_def)
qed

text \<open>
  C20. The mutex wrapper returns only with the result of an acquisition attempt that was not refused,
  made while another thread or nobody owned the mutex, and it has called the preemption hook exactly
  once for each turn before, each of which saw the mutex held.
\<close>

theorem mutex_lock_yields_until_free:
  assumes "wrap_pthread_mutex_lock pid obs = (h, Some r)"
  shows "r \<noteq> EBUSY \<and> (\<exists>spins owner rest. obs = spins @ (owner, r) # rest \<and> owner \<noteq> pid \<and>
     length spins = length h \<and> list_all (\<lambda>(o', t). o' = pid \<or> t = EBUSY) spins)"
  using wrap_pthread_mutex_lock_end [OF assms] by (fastforce simp: list_all_iff)

theorem mutex_lock_yields_until_free_witness:
  "\<exists>h. wrap_pthread_mutex_lock 7 [(7, 0), (3, 16), (0, 0)] = (h, Some 0) \<and> length h = 2"
proof -
  have e: "wrap_pthread_mutex_lock 7 [(7, 0), (3, 16), (0, 0)] = ([0, 16], Some 0)" by (simp add: EBUSY_def)
  from mutex_lock_yields_until_free [OF this] e show ?thesis by simp
qed

text \<open>
  The size mapped for coroutine stacks is the least multiple of the huge page size that holds them,
  without wrap-around, for every positive size up to one page below the address space.
\<close>

lemma round_to_huge_page_size_least:
  assumes "0 < n" and "unat n \<le> 2 ^ 64 - 2 ^ 30"
  shows "unat (round_to_huge_page_size n) mod 2 ^ 30 = 0 \<and> unat n \<le> unat (round_to_huge_page_size n) \<and>
         unat (round_to_huge_page_size n) < unat n + 2 ^ 30"
  unfolding round_to_huge_page_size_nat [OF assms]
  by (rule round_up_nat) (use assms(1) in \<open>simp_all add: word_less_nat_alt\<close>)

text \<open>
  Neither pool creator leaks: a pool that was created is either returned, after it was
  configured, populated and its buffers initialised, or freed by the last call made on it.
\<close>

lemma pool_creation_no_leak:
  "case pool (rte_pktmbuf_pool_create_spsc e priv room) of
     Some mp \<Rightarrow> pool_calls (rte_pktmbuf_pool_create_spsc e priv room) =
       [Set_ops mp, Pool_init mp room priv, Populate mp, Obj_iter mp pktmbuf_init]
   | None \<Rightarrow> (case create_empty e MEMPOOL_F_SC_GET of None \<Rightarrow> True
       | Some mp \<Rightarrow> rte_align e priv = priv \<longrightarrow>
           last (pool_calls (rte_pktmbuf_pool_create_spsc e priv room)) = Mempool_free mp)"
  "case pool (rte_pktmbuf_pool_create_w_customized_init e priv room) of
     Some mp \<Rightarrow> pool_calls (rte_pktmbuf_pool_create_w_customized_init e priv room) =
       [Set_ops mp, Pool_init mp room priv, Populate mp, Obj_iter mp pktmbuf_customized_init]
   | None \<Rightarrow> (case create_empty e No_flags of None \<Rightarrow> True
       | Some mp \<Rightarrow> rte_align e priv = priv \<longrightarrow>
           last (pool_calls (rte_pktmbuf_pool_create_w_customized_init e priv room)) = Mempool_free mp)"
  by (auto simp: rte_pktmbuf_pool_create_spsc_def rte_pktmbuf_pool_create_w_customized_init_def
      split: option.split)

text \<open>
  C22. \<^verbatim>\<open>port_init\<close> brings the port up in the right order and stops at the first failure.
  The driver calls it makes are exactly those of the script (check the port, configure, adjust,
  set up every receive queue, then every transmit queue, and only then start) up to the first
  call whose answer counts as a failure; it returns 0 exactly when there is none, otherwise the
  nonzero code of that call (-1 for an invalid port); \<^verbatim>\<open>my_eth\<close> changes only on success.
  The answers of the calls for device information, MAC address and promiscuous mode never
  count as a failure.
\<close>

theorem port_init_runs_script:
  "port_calls (port_init e rx tx eth0) = fst (port_reference e (ucast rx) (ucast tx)) \<and>
   port_ret (port_init e rx tx eth0) =
     (case snd (port_reference e (ucast rx) (ucast tx)) of None \<Rightarrow> 0
      | Some c \<Rightarrow> if c = dev_is_valid_port then - 1 else eth_ret e c) \<and>
   (port_ret (port_init e rx tx eth0) = 0) =
     list_all (eth_ok (eth_ret e)) (port_script e (ucast rx) (ucast tx)) \<and>
   port_eth (port_init e rx tx eth0) =
     (if port_ret (port_init e rx tx eth0) = 0 then macaddr e else eth0)"
proof -
  obtain cs r where r: "port_reference e (ucast rx) (ucast tx) = (cs, r)" by (rule prod.exhaust)
  then have s: "snd (run_script (eth_ok (eth_ret e)) (port_script e (ucast rx) (ucast tx))) = r"
    by (simp add: port_reference_def)
  show ?thesis
  proof (cases r)
    case None
    with s have "list_all (eth_ok (eth_ret e)) (port_script e (ucast rx) (ucast tx))"
      unfolding run_script_succeeds [symmetric] by simp
    then show ?thesis by (simp add: port_init_reference r None)
  next
    case (Some c)
    then have "c = dev_is_valid_port \<or> eth_ret e c \<noteq> 0" using run_script_fails [OF s [unfolded Some]]
      by (cases c) (auto simp: port_script_def)
    moreover have "\<not> list_all (eth_ok (eth_ret e)) (port_script e (ucast rx) (ucast tx))"
      using s Some run_script_succeeds by (metis option.distinct(1))
    ultimately show ?thesis by (auto simp: port_init_reference r Some)
  qed
qed

text \<open>
  Synthetic work is calibrated: for each target the clients use, the loop of 300 nops runs between
  33 and 35 times per microsecond asked for, and any other target does no work at all.
\<close>

lemma fake_work_calibrated:
  "list_all (\<lambda>ns. 33 * ns * NOPS_PER_ITERATION \<le> 1000 * fake_work_ns (of_nat ns) \<and>
                  1000 * fake_work_ns (of_nat ns) \<le> 35 * ns * NOPS_PER_ITERATION)
     [500, 1000, 2500, 10000, 100000, 500000] \<and>
   (ns \<in> {500, 1000, 2500, 10000, 100000, 500000} \<or> fake_work_ns ns = 0)"
  by (simp add: fake_work_ns_def work_nops NOPS_PER_ITERATION_def)

text \<open>
  The key of a GET request without a zero byte runs into the next field: the string handed to the
  store is longer than the key.
\<close>

lemma get_key_overrun:
  "length (c_string_key \<lparr> jtype = GET, key = 0x4142434445464748, ns_sleep = 0x41 \<rparr>) = 9"
  by code_simp

text \<open>An address that does not parse leaves the server without an address, but it starts.\<close>

lemma parse_args_ignores_bad_address:
  "parse_args [''tq_server'', ''localhost''] 0 = (0, 0)"
  by code_simp

end
