(* ===== verification/TopoSort.thy ===== *)
theory TopoSort
  imports Prelude
begin

text \<open>
  Control-flow graphs as the pass sees them, and \<^verbatim>\<open>TopoSorter\<close> of
  \<^verbatim>\<open>CheapPreemption.cpp\<close>: a recursive depth-first search with three colours that skips
  back edges and collects the blocks in the order they are finished. Basic blocks are numbers.
  The recursion is bounded by fuel; the number of blocks is enough.
\<close>

section \<open>Functions\<close>

record func =
  blocks :: "nat list"
  entry_block :: nat
  succs :: "nat \<Rightarrow> nat list"
  back_edges :: "(nat \<times> nat) list"

definition isBackEdge :: "func \<Rightarrow> nat \<Rightarrow> nat \<Rightarrow> bool" where
  "isBackEdge F b s \<longleftrightarrow> list_ex (\<lambda>e. fst e = b \<and> snd e = s) (back_edges F)"

text \<open>A well-formed function: its blocks are distinct and closed under successors.\<close>

definition wf_func :: "func \<Rightarrow> bool" where
  "wf_func F \<longleftrightarrow> distinct (blocks F) \<and> entry_block F \<in> set (blocks F) \<and>
     list_all (\<lambda>b. list_all (\<lambda>s. s \<in> set (blocks F)) (succs F b)) (blocks F)"

definition fwd :: "func \<Rightarrow> nat \<Rightarrow> nat list" where
  "fwd F b = filter (\<lambda>s. \<not> isBackEdge F b s) (succs F b)"

definition fwd_edges :: "func \<Rightarrow> (nat \<times> nat) set" where
  "fwd_edges F = {(b, s). s \<in> set (fwd F b)}"

section \<open>The sort\<close>

datatype color = WHITE | GREY | BLACK

record sorter =
  ColorMap :: "nat \<Rightarrow> color"
  SortedBBs :: "nat list"

fun recursiveDFSToposort :: "nat \<Rightarrow> func \<Rightarrow> nat \<Rightarrow> sorter \<Rightarrow> (bool \<times> sorter) option"
  and visit_succs :: "nat \<Rightarrow> func \<Rightarrow> nat \<Rightarrow> nat list \<Rightarrow> sorter \<Rightarrow> (bool \<times> sorter) option" where
  "recursiveDFSToposort 0 F b st = None"
| "recursiveDFSToposort (Suc n) F b st =
     (case visit_succs n F b (succs F b) (st\<lparr> ColorMap := (ColorMap st)(b := GREY) \<rparr>) of
        None \<Rightarrow> None
      | Some (False, st1) \<Rightarrow> Some (False, st1)
      | Some (True, st1) \<Rightarrow>
          Some (True, st1\<lparr> ColorMap := (ColorMap st1)(b := BLACK), SortedBBs := SortedBBs st1 @ [b] \<rparr>))"
| "visit_succs n F b [] st = Some (True, st)"
| "visit_succs n F b (s # ss) st =
     (if isBackEdge F b s then visit_succs n F b ss st
      else (case ColorMap st s of
              WHITE \<Rightarrow> (case recursiveDFSToposort n F s st of
                         None \<Rightarrow> None
                       | Some (False, st1) \<Rightarrow> Some (False, st1)
                       | Some (True, st1) \<Rightarrow> visit_succs n F b ss st1)
            | GREY \<Rightarrow> Some (False, st)
            | BLACK \<Rightarrow> visit_succs n F b ss st))"

definition runToposort :: "func \<Rightarrow> (bool \<times> sorter) option" where
  "runToposort F =
     recursiveDFSToposort (length (blocks F)) F (entry_block F)
       \<lparr> ColorMap = (\<lambda>_. WHITE), SortedBBs = [] \<rparr>"

section \<open>Enough fuel\<close>

definition whites :: "func \<Rightarrow> sorter \<Rightarrow> nat set" where
  "whites F st = {b \<in> set (blocks F). ColorMap st b = WHITE}"

lemma dfs_cases:
  assumes "recursiveDFSToposort n F b st = Some (r, st')"
  obtains m st1 where "n = Suc m"
    "visit_succs m F b (succs F b) (st\<lparr> ColorMap := (ColorMap st)(b := GREY) \<rparr>) = Some (r, st1)"
    "st' = (if r then st1\<lparr> ColorMap := (ColorMap st1)(b := BLACK), SortedBBs := SortedBBs st1 @ [b] \<rparr> else st1)"
  using assms by (cases n) (auto split: option.splits bool.splits)

lemma visit_cases:
  assumes "visit_succs n F b (s # ss) st = Some (r, st')"
  obtains (skip) "isBackEdge F b s \<or> ColorMap st s = BLACK" "visit_succs n F b ss st = Some (r, st')"
    | (grey) "\<not> isBackEdge F b s" "ColorMap st s = GREY" "\<not> r" "st' = st"
    | (fail) "\<not> isBackEdge F b s" "ColorMap st s = WHITE" "recursiveDFSToposort n F s st = Some (False, st')" "\<not> r"
    | (white) st1 where "\<not> isBackEdge F b s" "ColorMap st s = WHITE"
        "recursiveDFSToposort n F s st = Some (True, st1)" "visit_succs n F b ss st1 = Some (r, st')"
  using assms by (auto split: if_splits color.splits option.splits bool.splits)

abbreviation paint :: "nat \<Rightarrow> color \<Rightarrow> sorter \<Rightarrow> sorter" where
  "paint b c st \<equiv> st\<lparr> ColorMap := (ColorMap st)(b := c) \<rparr>"

abbreviation finish :: "nat \<Rightarrow> sorter \<Rightarrow> sorter" where
  "finish b st \<equiv> st\<lparr> ColorMap := (ColorMap st)(b := BLACK), SortedBBs := SortedBBs st @ [b] \<rparr>"

text \<open>Induction over the runs that return, for the two functions together.\<close>

lemma dfs_run_induct:
  assumes call: "\<And>n b st r st1. visit_succs n F b (succs F b) (paint b GREY st) = Some (r, st1) \<Longrightarrow>
      Q b (succs F b) (paint b GREY st) r st1 \<Longrightarrow> P b st r (if r then finish b st1 else st1)"
    and none: "\<And>b st. Q b [] st True st"
    and skip: "\<And>b s ss st r st'. isBackEdge F b s \<or> ColorMap st s = BLACK \<Longrightarrow> Q b ss st r st' \<Longrightarrow> Q b (s # ss) st r st'"
    and grey: "\<And>b s ss st. \<not> isBackEdge F b s \<Longrightarrow> ColorMap st s = GREY \<Longrightarrow> Q b (s # ss) st False st"
    and fail: "\<And>b s ss st st'. \<not> isBackEdge F b s \<Longrightarrow> ColorMap st s = WHITE \<Longrightarrow> P s st False st' \<Longrightarrow> Q b (s # ss) st False st'"
    and white: "\<And>b s ss st st1 r st'. \<not> isBackEdge F b s \<Longrightarrow> ColorMap st s = WHITE \<Longrightarrow> P s st True st1 \<Longrightarrow>
      Q b ss st1 r st' \<Longrightarrow> Q b (s # ss) st r st'"
  shows "(\<forall>r st'. recursiveDFSToposort n F b st = Some (r, st') \<longrightarrow> P b st r st') \<and>
         (\<forall>r st'. visit_succs n' F b' ss st0 = Some (r, st') \<longrightarrow> Q b' ss st0 r st')"
proof -
  have "(\<forall>r st'. F' = F \<longrightarrow> recursiveDFSToposort n F' b st = Some (r, st') \<longrightarrow> P b st r st')"
    "(\<forall>r st'. F'' = F \<longrightarrow> visit_succs n' F'' b' ss st0 = Some (r, st') \<longrightarrow> Q b' ss st0 r st')" for F' F''
  proof (induction n F' b st and n' F'' b' ss st0 rule: recursiveDFSToposort_visit_succs.induct)
    case (2 n F' b st)
    show ?case
    proof (intro allI impI)
      fix r st' assume F: "F' = F" and "recursiveDFSToposort (Suc n) F' b st = Some (r, st')"
      from this(2) obtain st1 where v: "visit_succs n F' b (succs F' b) (paint b GREY st) = Some (r, st1)"
        "st' = (if r then finish b st1 else st1)" by (rule dfs_cases) simp
      then have "Q b (succs F b) (paint b GREY st) r st1" using 2 F by blast
      then show "P b st r st'" unfolding v(2) using v(1) F call by blast
    qed
  next
    case (4 n F' b s ss st)
    show ?case
    proof (intro allI impI)
      fix r st' assume F: "F' = F" and "visit_succs n F' b (s # ss) st = Some (r, st')"
      from this(2) show "Q b (s # ss) st r st'"
      proof (cases rule: visit_cases)
        case skip
        with 4(1,4) F have "Q b ss st r st'" by blast
        with skip(1) F assms(3) show ?thesis by blast
      next
        case grey
        with F assms(4) show ?thesis by simp
      next
        case fail
        with 4(2) F have "P s st False st'" by blast
        with fail F assms(5) show ?thesis by simp
      next
        case (white st1)
        then have "P s st True st1" "Q b ss st1 r st'" using 4(2,3) F by blast+
        with white F assms(6) show ?thesis by blast
      qed
    qed
  qed (use none in simp_all)
  then show ?thesis by blast
qed

lemmas dfs_run_call = dfs_run_induct [THEN conjunct1, rule_format]
lemmas dfs_run_visit = dfs_run_induct [THEN conjunct2, rule_format]

lemma colored_mono:
  assumes "recursiveDFSToposort n F b st = Some (r, st')"
  shows "ColorMap st x \<noteq> WHITE \<longrightarrow> ColorMap st' x \<noteq> WHITE"
  by (rule dfs_run_call [OF _ _ _ _ _ _ assms, where P = "\<lambda>b st r st'. ColorMap st x \<noteq> WHITE \<longrightarrow> ColorMap st' x \<noteq> WHITE"
        and Q = "\<lambda>b ss st r st'. ColorMap st x \<noteq> WHITE \<longrightarrow> ColorMap st' x \<noteq> WHITE"]) simp_all

lemma whites_mono:
  assumes "recursiveDFSToposort n F b st = Some (r, st')" shows "whites F st' \<subseteq> whites F st"
  using colored_mono [OF assms] unfolding whites_def by blast

lemma enough_fuel:
  "wf_func F \<Longrightarrow> b \<in> set (blocks F) \<Longrightarrow> ColorMap st b = WHITE \<Longrightarrow> card (whites F st) \<le> n \<Longrightarrow>
   recursiveDFSToposort n F b st \<noteq> None"
  "wf_func F \<Longrightarrow> set ss \<subseteq> set (blocks F) \<Longrightarrow> card (whites F st) \<le> n \<Longrightarrow> visit_succs n F b ss st \<noteq> None"
proof (induction n F b st and n F b ss st rule: recursiveDFSToposort_visit_succs.induct)
  case (1 F b st)
  then have "b \<in> whites F st" by (simp add: whites_def)
  moreover have "finite (whites F st)" by (simp add: whites_def)
  ultimately show ?case using 1 by auto
next
  case (2 n F b st)
  have "whites F (paint b GREY st) = whites F st - {b}" by (auto simp: whites_def)
  moreover have "b \<in> whites F st" "finite (whites F st)" using 2 by (simp_all add: whites_def)
  ultimately have "card (whites F (paint b GREY st)) \<le> n" using 2 by simp
  moreover have "set (succs F b) \<subseteq> set (blocks F)" using 2 by (auto simp: wf_func_def list_all_iff)
  ultimately have "visit_succs n F b (succs F b) (paint b GREY st) \<noteq> None" using 2(1,2) by blast
  then obtain r st1 where "visit_succs n F b (succs F b) (paint b GREY st) = Some (r, st1)" by (metis option.exhaust surj_pair)
  then show ?case by (cases r) simp_all
next
  case (4 n F b s ss st)
  note prems = 4(5-7)
  have fin: "finite (whites F st)" by (simp add: whites_def)
  have ss: "s \<in> set (blocks F)" "set ss \<subseteq> set (blocks F)" using prems(2) by auto
  consider "isBackEdge F b s" | "\<not> isBackEdge F b s" "ColorMap st s = BLACK" | "\<not> isBackEdge F b s" "ColorMap st s = GREY"
    | "\<not> isBackEdge F b s" "ColorMap st s = WHITE" by (cases "ColorMap st s") blast+
  then show ?case
  proof cases
    case 4
    then have "recursiveDFSToposort n F s st \<noteq> None" using "4.IH"(2) prems ss by blast
    then obtain r st1 where r: "recursiveDFSToposort n F s st = Some (r, st1)" by (metis option.exhaust surj_pair)
    have "card (whites F st1) \<le> n" using card_mono [OF fin whites_mono [OF r]] prems(3) by linarith
    then have "r \<longrightarrow> visit_succs n F b ss st1 \<noteq> None" using "4.IH"(3) 4 r prems ss by blast
    then show ?thesis using 4 r by (cases r) simp_all
  next
    case 1
    then show ?thesis using "4.IH"(1) prems ss by simp
  next
    case 2
    then show ?thesis using "4.IH"(4) prems ss by simp
  next
    case 3
    then show ?thesis by simp
  qed
qed simp

section \<open>The result\<close>

text \<open>An order in which every forward successor of a block comes after it.\<close>

fun topo_order :: "func \<Rightarrow> nat list \<Rightarrow> bool" where
  "topo_order F [] = True"
| "topo_order F (b # rest) = (b \<notin> set rest \<and> list_all (\<lambda>s. s \<in> set rest) (fwd F b) \<and> topo_order F rest)"

definition sorter_ok :: "func \<Rightarrow> sorter \<Rightarrow> bool" where
  "sorter_ok F st \<longleftrightarrow> topo_order F (rev (SortedBBs st)) \<and> (\<forall>x. x \<in> set (SortedBBs st) \<longleftrightarrow> ColorMap st x = BLACK)"

definition grey_reach :: "func \<Rightarrow> nat \<Rightarrow> sorter \<Rightarrow> bool" where
  "grey_reach F b st \<longleftrightarrow> (\<forall>x. ColorMap st x = GREY \<longrightarrow> (x, b) \<in> (fwd_edges F)\<^sup>*)"

text \<open>What a run leaves: greys as before, blacks more, and only blocks reachable from \<open>b\<close> coloured.\<close>

definition run_post :: "func \<Rightarrow> nat \<Rightarrow> sorter \<Rightarrow> sorter \<Rightarrow> bool" where
  "run_post F b st st' \<longleftrightarrow> sorter_ok F st' \<and>
     (\<forall>x. (ColorMap st' x = GREY) = (ColorMap st x = GREY)) \<and>
     (\<forall>x. ColorMap st x = BLACK \<longrightarrow> ColorMap st' x = BLACK) \<and>
     (\<forall>x. ColorMap st' x = BLACK \<longrightarrow> ColorMap st x = BLACK \<or> (b, x) \<in> (fwd_edges F)\<^sup>*)"

definition cyclic :: "func \<Rightarrow> bool" where
  "cyclic F \<longleftrightarrow> (\<exists>x. (x, x) \<in> (fwd_edges F)\<^sup>+)"

definition call_spec :: "func \<Rightarrow> nat \<Rightarrow> sorter \<Rightarrow> bool \<Rightarrow> sorter \<Rightarrow> bool" where
  "call_spec F b st r st' \<longleftrightarrow> (sorter_ok F st \<and> ColorMap st b = WHITE \<and> grey_reach F b st \<longrightarrow>
     (if r then run_post F b st st' \<and> ColorMap st' b = BLACK else cyclic F))"

definition visit_spec :: "func \<Rightarrow> nat \<Rightarrow> nat list \<Rightarrow> sorter \<Rightarrow> bool \<Rightarrow> sorter \<Rightarrow> bool" where
  "visit_spec F b ss st r st' \<longleftrightarrow>
     (sorter_ok F st \<and> ColorMap st b = GREY \<and> grey_reach F b st \<and> set ss \<subseteq> set (succs F b) \<longrightarrow>
     (if r then run_post F b st st' \<and> (\<forall>s \<in> set ss. isBackEdge F b s \<or> ColorMap st' s = BLACK) else cyclic F))"

lemma fwd_edge: "s \<in> set (succs F b) \<Longrightarrow> \<not> isBackEdge F b s \<Longrightarrow> (b, s) \<in> fwd_edges F"
  by (simp add: fwd_edges_def fwd_def)

lemma run_post_refl: "sorter_ok F st \<Longrightarrow> run_post F b st st"
  by (simp add: run_post_def)

lemma run_post_trans:
  assumes "run_post F s st st1" and "run_post F b st1 st'" and "(b, s) \<in> fwd_edges F"
  shows "run_post F b st st'"
proof -
  have "(b, x) \<in> (fwd_edges F)\<^sup>*" if "(s, x) \<in> (fwd_edges F)\<^sup>*" for x
    using assms(3) that by (rule converse_rtrancl_into_rtrancl)
  with assms(1,2) show ?thesis unfolding run_post_def by blast
qed

lemma visit_white:
  assumes "\<not> isBackEdge F b s" and "ColorMap st s = WHITE" and "call_spec F s st True st1" and "visit_spec F b ss st1 r st'"
  shows "visit_spec F b (s # ss) st r st'"
  unfolding visit_spec_def
proof
  assume pre: "sorter_ok F st \<and> ColorMap st b = GREY \<and> grey_reach F b st \<and> set (s # ss) \<subseteq> set (succs F b)"
  then have e: "(b, s) \<in> fwd_edges F" using assms(1) by (simp add: fwd_edge)
  with pre have "grey_reach F s st" unfolding grey_reach_def by (meson rtrancl.rtrancl_into_rtrancl)
  with assms(2,3) pre have p1: "run_post F s st st1" "ColorMap st1 s = BLACK" by (simp_all add: call_spec_def)
  then have "sorter_ok F st1" "ColorMap st1 b = GREY" "grey_reach F b st1"
    using pre by (auto simp: run_post_def grey_reach_def)
  with assms(4) pre have "if r then run_post F b st1 st' \<and> (\<forall>s \<in> set ss. isBackEdge F b s \<or> ColorMap st' s = BLACK) else cyclic F"
    by (simp add: visit_spec_def)
  moreover have "ColorMap st' s = BLACK" if "run_post F b st1 st'" using that p1(2) by (simp add: run_post_def)
  ultimately show "if r then run_post F b st st' \<and> (\<forall>s \<in> set (s # ss). isBackEdge F b s \<or> ColorMap st' s = BLACK) else cyclic F"
    using run_post_trans [OF p1(1) _ e] by auto
qed

lemma visit_grey:
  assumes "\<not> isBackEdge F b s" and "ColorMap st s = GREY" shows "visit_spec F b (s # ss) st False st"
proof -
  have "cyclic F" if "grey_reach F b st" "s \<in> set (succs F b)"
  proof -
    have "(s, b) \<in> (fwd_edges F)\<^sup>*" using that(1) assms(2) by (simp add: grey_reach_def)
    with fwd_edge [OF that(2) assms(1)] show ?thesis unfolding cyclic_def by (blast intro: rtrancl_into_trancl1)
  qed
  then show ?thesis by (simp add: visit_spec_def)
qed

lemma visit_fail:
  assumes "\<not> isBackEdge F b s" and "ColorMap st s = WHITE" and "call_spec F s st False st'"
  shows "visit_spec F b (s # ss) st False st'"
proof -
  have "grey_reach F s st" if "grey_reach F b st" "s \<in> set (succs F b)"
    using that fwd_edge [OF that(2) assms(1)] unfolding grey_reach_def by (meson rtrancl.rtrancl_into_rtrancl)
  with assms show ?thesis by (simp add: visit_spec_def call_spec_def)
qed

lemma call_finish:
  assumes "visit_spec F b (succs F b) (paint b GREY st) r st1"
  shows "call_spec F b st r (if r then finish b st1 else st1)"
  unfolding call_spec_def
proof
  assume pre: "sorter_ok F st \<and> ColorMap st b = WHITE \<and> grey_reach F b st"
  then have "sorter_ok F (paint b GREY st)" "grey_reach F b (paint b GREY st)" by (auto simp: sorter_ok_def grey_reach_def)
  with assms have v: "if r then run_post F b (paint b GREY st) st1 \<and>
      (\<forall>s \<in> set (succs F b). isBackEdge F b s \<or> ColorMap st1 s = BLACK) else cyclic F"
    by (simp add: visit_spec_def)
  show "if r then run_post F b st (if r then finish b st1 else st1) \<and>
      ColorMap (if r then finish b st1 else st1) b = BLACK else cyclic F"
  proof (cases r)
    case True
    with v have p: "run_post F b (paint b GREY st) st1" "\<forall>s \<in> set (succs F b). isBackEdge F b s \<or> ColorMap st1 s = BLACK" by auto
    have "ColorMap st1 b = GREY" using p(1) by (simp add: run_post_def)
    moreover have "b \<in> set (SortedBBs st1) \<longleftrightarrow> ColorMap st1 b = BLACK" using p(1) by (simp add: run_post_def sorter_ok_def)
    ultimately have "b \<notin> set (SortedBBs st1)" by simp
    with p have "sorter_ok F (finish b st1)" by (auto simp: sorter_ok_def run_post_def list_all_iff fwd_def)
    with p pre True show ?thesis by (auto simp: run_post_def)
  qed (use v in simp)
qed

lemma dfs_spec:
  assumes "recursiveDFSToposort n F b st = Some (r, st')" shows "call_spec F b st r st'"
proof (rule dfs_run_call [OF _ _ _ _ _ _ assms, where P = "call_spec F" and Q = "visit_spec F"])
  show "visit_spec F b [] st True st" for b st by (simp add: visit_spec_def run_post_refl)
  show "visit_spec F b (s # ss) st r st'" if "isBackEdge F b s \<or> ColorMap st s = BLACK" "visit_spec F b ss st r st'"
    for b s ss st r st'
    using that by (auto simp: visit_spec_def run_post_def)
qed (blast intro: call_finish visit_grey visit_fail visit_white)+

lemma topo_order_closed:
  "topo_order F order \<Longrightarrow> b \<in> set order \<Longrightarrow> (b, x) \<in> (fwd_edges F)\<^sup>* \<Longrightarrow> x \<in> set order"
proof -
  have step: "s \<in> set order" if "topo_order F order" "b \<in> set order" "(b, s) \<in> fwd_edges F" for order b s
    using that by (induction order) (auto simp: fwd_edges_def list_all_iff)
  assume "topo_order F order" "b \<in> set order" "(b, x) \<in> (fwd_edges F)\<^sup>*"
  from this(3,1,2) show ?thesis by (induction rule: rtrancl_induct) (auto intro: step)
qed

lemma runToposort_total: "wf_func F \<Longrightarrow> runToposort F \<noteq> None"
proof -
  assume wf: "wf_func F"
  have "whites F \<lparr> ColorMap = (\<lambda>_. WHITE), SortedBBs = [] \<rparr> = set (blocks F)" by (auto simp: whites_def)
  then have "card (whites F \<lparr> ColorMap = (\<lambda>_. WHITE), SortedBBs = [] \<rparr>) \<le> length (blocks F)" by (simp add: card_length)
  then show ?thesis unfolding runToposort_def using enough_fuel(1) [OF wf] wf by (simp add: wf_func_def)
qed

lemma runToposort_spec:
  assumes "runToposort F = Some (r, st)"
  shows "if r then topo_order F (rev (SortedBBs st)) \<and> set (SortedBBs st) = (fwd_edges F)\<^sup>* `` {entry_block F} else cyclic F"
proof -
  let ?i = "\<lparr> ColorMap = (\<lambda>_. WHITE), SortedBBs = [] \<rparr>"
  have "sorter_ok F ?i" "grey_reach F (entry_block F) ?i" by (simp_all add: sorter_ok_def grey_reach_def)
  with dfs_spec [OF assms [unfolded runToposort_def]]
  have c: "if r then run_post F (entry_block F) ?i st \<and> ColorMap st (entry_block F) = BLACK else cyclic F"
    by (simp add: call_spec_def)
  show ?thesis
  proof (cases r)
    case True
    with c have p: "run_post F (entry_block F) ?i st" "ColorMap st (entry_block F) = BLACK" by auto
    then have t: "topo_order F (rev (SortedBBs st))" "entry_block F \<in> set (rev (SortedBBs st))"
      by (auto simp: run_post_def sorter_ok_def)
    have "set (SortedBBs st) \<subseteq> (fwd_edges F)\<^sup>* `` {entry_block F}" using p by (auto simp: run_post_def sorter_ok_def)
    moreover have "(fwd_edges F)\<^sup>* `` {entry_block F} \<subseteq> set (SortedBBs st)" using topo_order_closed [OF t] by auto
    ultimately show ?thesis using t(1) True by auto
  qed (use c in simp)
qed

section \<open>Properties\<close>

text \<open>
  C25. The sort ends on every function and decides: either it reports a cycle and the forward edges
  do have one, or its result, read backwards, lists exactly the blocks reachable from the entry, each
  once and before all its forward successors.
\<close>

theorem toposort_correct:
  assumes "wf_func F"
  shows "\<exists>r st. runToposort F = Some (r, st) \<and>
     (if r then topo_order F (rev (SortedBBs st)) \<and> set (SortedBBs st) = (fwd_edges F)\<^sup>* `` {entry_block F}
      else \<exists>x. (x, x) \<in> (fwd_edges F)\<^sup>+)"
proof -
  from runToposort_total [OF assms] obtain r st where e: "runToposort F = Some (r, st)"
    by (metis option.exhaust surj_pair)
  from runToposort_spec [OF e] e show ?thesis by (auto simp: cyclic_def)
qed

definition demo_func :: func where
  "demo_func = \<lparr> blocks = [0, 1, 2, 3], entry_block = 0,
     succs = (\<lambda>b. if b = 0 then [1, 2] else if b = 1 then [3, 0] else if b = 2 then [3] else []),
     back_edges = [(1, 0)] \<rparr>"

theorem toposort_correct_witness:
  "\<exists>st. runToposort demo_func = Some (True, st) \<and> topo_order demo_func (rev (SortedBBs st)) \<and>
     set (SortedBBs st) = (fwd_edges demo_func)\<^sup>* `` {0}"
proof -
  have "wf_func demo_func" by code_simp
  moreover have "map_option fst (runToposort demo_func) = Some True" by code_simp
  moreover have "entry_block demo_func = 0" by (simp add: demo_func_def)
  ultimately show ?thesis using toposort_correct [of demo_func] by auto
qed

end
