(* ===== verification/Placement.thy ===== *)
theory Placement
  imports TopoSort
begin

text \<open>
  Where the pass puts its probes: instruction and block costs, the longest uninstrumented
  distances, the walk back along a longest path that picks an edge, and the two loops of
  \<^verbatim>\<open>generateInst\<close>. Costs and distances are unbounded integers; the \<^verbatim>\<open>int\<close> of the
  source does not overflow as long as the costs of a function add up to less than 2 to the 31.
\<close>

section \<open>Costs\<close>

record pass_cfg =
  CommitInterval :: int
  ExtLibFuncCost :: int
  MemOpsCost :: int
  FMulDivCost :: int
  MaxE2EUninst :: int
  FuncCallThreshold :: int

text \<open>Instructions as the cost functions distinguish them. A call names its callee unless it is
  indirect; \<open>intrinsic\<close> tells LLVM intrinsics from other functions.\<close>

datatype inst = NoOp | MemOp | FMulDiv | Plain | CallInst "string option" bool

record func_info =
  InstCount :: int
  TotalNumProbe :: int
  MaxUnistDist :: int

record lib_info =
  LibraryInstructionCosts :: "string \<Rightarrow> int option"
  computedFuncInfo :: "string \<Rightarrow> func_info option"
  LoopCostMode :: bool
  ExpensiveExtLibCalls :: "string list"
  IgnoreExtLibCalls :: "string list"

definition readExpensiveExtLibCalls :: "string list" where
  "readExpensiveExtLibCalls = [''write'']"

definition readIgnoreExtLibCalls :: "string list" where
  "readIgnoreExtLibCalls = [''pthread_mutex_trylock'', ''pthread_mutex_lock'', ''pthread_mutex_unlock'']"

definition getCallCost :: "pass_cfg \<Rightarrow> lib_info \<Rightarrow> string option \<Rightarrow> bool \<Rightarrow> int" where
  "getCallCost c L callee intrinsic =
     (case callee of None \<Rightarrow> 1
      | Some f \<Rightarrow>
        (case LibraryInstructionCosts L f of
           Some k \<Rightarrow>
             (case (if LoopCostMode L then computedFuncInfo L f else None) of
                Some fi \<Rightarrow> if TotalNumProbe fi = 0 then MaxUnistDist fi else k
              | None \<Rightarrow> k)
         | None \<Rightarrow>
             if intrinsic then (if f = ''llvm.memmove.p0i8.p0i8.i64'' then CommitInterval c else 1)
             else if f \<in> set (ExpensiveExtLibCalls L) then CommitInterval c
             else if f \<in> set (IgnoreExtLibCalls L) then 1
             else ExtLibFuncCost c))"

definition getInstructionCost :: "pass_cfg \<Rightarrow> lib_info \<Rightarrow> inst \<Rightarrow> int" where
  "getInstructionCost c L i =
     (case i of NoOp \<Rightarrow> 0 | MemOp \<Rightarrow> MemOpsCost c | CallInst f intr \<Rightarrow> getCallCost c L f intr
      | FMulDiv \<Rightarrow> FMulDivCost c | Plain \<Rightarrow> 1)"

definition populateCostMap :: "pass_cfg \<Rightarrow> lib_info \<Rightarrow> (nat \<Rightarrow> inst list) \<Rightarrow> nat \<Rightarrow> int" where
  "populateCostMap c L body b =
     (let k = sum_list (map (getInstructionCost c L) (body b)) in if CommitInterval c \<le> k then 0 else k)"

section \<open>Distances\<close>

datatype inst_status = UNINST | NORM_INST | LOOP_INST

record placement =
  CostMap :: "nat \<Rightarrow> int"
  EdgeInstMap :: "nat \<times> nat \<Rightarrow> inst_status"
  InstrumentedBB :: "nat list"
  NumEdgeInst :: int

record dist_map =
  DistanceMap :: "nat \<Rightarrow> int option"
  PrevBBMap :: "nat \<Rightarrow> nat"
  MaxBB :: nat
  MaxDist :: int

definition dist_of :: "dist_map \<Rightarrow> nat \<Rightarrow> int" where
  "dist_of dm b = (case DistanceMap dm b of None \<Rightarrow> 0 | Some d \<Rightarrow> d)"

text \<open>A path goes on from \<open>b\<close> to \<open>s\<close> when neither the edge nor the block is instrumented.\<close>

definition propagates :: "placement \<Rightarrow> nat \<Rightarrow> nat \<Rightarrow> bool" where
  "propagates p b s \<longleftrightarrow> EdgeInstMap p (b, s) = UNINST \<and> 0 < CostMap p b \<and> b \<notin> set (InstrumentedBB p)"

definition visit_edge :: "func \<Rightarrow> placement \<Rightarrow> nat \<Rightarrow> nat \<Rightarrow> dist_map \<Rightarrow> dist_map" where
  "visit_edge F p b s dm =
     (if isBackEdge F b s then dm
      else (let prop = propagates p b s;
                dist = CostMap p s + (if prop then dist_of dm b else 0);
                update_dist = (case DistanceMap dm s of None \<Rightarrow> True | Some d \<Rightarrow> d < dist);
                dm1 = dm\<lparr> DistanceMap := (DistanceMap dm)(s \<mapsto> dist),
                          PrevBBMap := (PrevBBMap dm)(s := if prop then b else s) \<rparr>
            in if update_dist
               then (if MaxDist dm < dist then dm1\<lparr> MaxDist := dist, MaxBB := s \<rparr> else dm1)
               else dm))"

definition visit_block :: "func \<Rightarrow> placement \<Rightarrow> nat \<Rightarrow> dist_map \<Rightarrow> dist_map" where
  "visit_block F p b dm = fold (visit_edge F p b) (succs F b) dm"

text \<open>\<open>order\<close> is \<^verbatim>\<open>SortedBBs\<close> read backwards.\<close>

definition generateDistanceMap :: "func \<Rightarrow> placement \<Rightarrow> nat list \<Rightarrow> dist_map" where
  "generateDistanceMap F p order =
     fold (visit_block F p) order
       \<lparr> DistanceMap = [entry_block F \<mapsto> CostMap p (entry_block F)], PrevBBMap = (\<lambda>b. b),
         MaxBB = entry_block F, MaxDist = CostMap p (entry_block F) \<rparr>"

section \<open>Choosing an edge\<close>

text \<open>The walk back: the edge to instrument, or the block whose own cost is too large.\<close>

fun decideInstLocations :: "nat \<Rightarrow> dist_map \<Rightarrow> nat \<Rightarrow> int \<Rightarrow> ((nat \<times> nat) + nat) option" where
  "decideInstLocations 0 dm CurBB DistThreshold = None"
| "decideInstLocations (Suc n) dm CurBB DistThreshold =
     (let PrevBB = PrevBBMap dm CurBB
      in if dist_of dm PrevBB < DistThreshold then Some (Inl (PrevBB, CurBB))
         else if PrevBB = CurBB then Some (Inr CurBB)
         else decideInstLocations n dm PrevBB DistThreshold)"

definition inst_edge :: "nat \<times> nat \<Rightarrow> placement \<Rightarrow> placement" where
  "inst_edge e p = p\<lparr> EdgeInstMap := (EdgeInstMap p)(e := NORM_INST), NumEdgeInst := NumEdgeInst p + 1 \<rparr>"

definition inst_out_edges :: "func \<Rightarrow> nat \<Rightarrow> placement \<Rightarrow> placement" where
  "inst_out_edges F b p =
     fold (\<lambda>s p. if EdgeInstMap p (b, s) = UNINST then inst_edge (b, s) p else p) (succs F b) p"

text \<open>The second loop of \<^verbatim>\<open>generateInst\<close>.\<close>

fun inst_loop :: "nat \<Rightarrow> pass_cfg \<Rightarrow> func \<Rightarrow> nat list \<Rightarrow> placement \<Rightarrow> placement option" where
  "inst_loop 0 c F order p = None"
| "inst_loop (Suc n) c F order p =
     (let dm = generateDistanceMap F p order
      in if MaxDist dm \<le> CommitInterval c then Some p
         else (case decideInstLocations (length order) dm (MaxBB dm) (CommitInterval c) of
                 None \<Rightarrow> None
               | Some (Inl e) \<Rightarrow> inst_loop n c F order (inst_edge e p)
               | Some (Inr b) \<Rightarrow>
                   inst_loop n c F order
                     ((inst_out_edges F b p)\<lparr> CostMap := (CostMap (inst_out_edges F b p))(b := - 1) \<rparr>)))"

section \<open>End-to-end distances\<close>

definition visit_edge_from :: "func \<Rightarrow> placement \<Rightarrow> nat \<Rightarrow> nat \<Rightarrow> dist_map \<Rightarrow> dist_map" where
  "visit_edge_from F p b s dm =
     (if isBackEdge F b s then dm
      else (let dist = (if propagates p b s \<and> 0 < dist_of dm b then dist_of dm b + CostMap p s else 0)
            in if (case DistanceMap dm s of None \<Rightarrow> True | Some d \<Rightarrow> d < dist)
               then dm\<lparr> DistanceMap := (DistanceMap dm)(s \<mapsto> dist), PrevBBMap := (PrevBBMap dm)(s := b) \<rparr>
               else dm))"

definition visit_block_from :: "func \<Rightarrow> placement \<Rightarrow> nat \<Rightarrow> dist_map \<Rightarrow> dist_map" where
  "visit_block_from F p b dm =
     (if DistanceMap dm b = None then dm else fold (visit_edge_from F p b) (succs F b) dm)"

definition longestDistanceFrom :: "func \<Rightarrow> placement \<Rightarrow> nat list \<Rightarrow> nat \<Rightarrow> dist_map" where
  "longestDistanceFrom F p order StartBB =
     fold (visit_block_from F p) order
       \<lparr> DistanceMap = [StartBB \<mapsto> CostMap p StartBB], PrevBBMap = (\<lambda>b. b), MaxBB = StartBB, MaxDist = 0 \<rparr>"

text \<open>The farthest return block, in the order of the function's blocks.\<close>

definition max_return :: "func \<Rightarrow> (nat \<Rightarrow> bool) \<Rightarrow> dist_map \<Rightarrow> dist_map" where
  "max_return F is_return dm =
     fold (\<lambda>b dm. case DistanceMap dm b of None \<Rightarrow> dm
            | Some d \<Rightarrow> if is_return b \<and> MaxDist dm < d then dm\<lparr> MaxDist := d, MaxBB := b \<rparr> else dm)
       (blocks F) (dm\<lparr> MaxDist := 0 \<rparr>)"

text \<open>The first loop of \<^verbatim>\<open>generateInst\<close>; \<open>thr\<close> is \<^verbatim>\<open>E2EThreshold\<close>.\<close>

fun e2e_loop :: "nat \<Rightarrow> int \<Rightarrow> func \<Rightarrow> (nat \<Rightarrow> bool) \<Rightarrow> nat list \<Rightarrow> placement \<Rightarrow> placement option" where
  "e2e_loop 0 thr F is_return order p = None"
| "e2e_loop (Suc n) thr F is_return order p =
     (let dm = max_return F is_return (longestDistanceFrom F p order (entry_block F))
      in if MaxDist dm \<le> thr then Some p
         else (case decideInstLocations (length order) dm (MaxBB dm) thr of
                 None \<Rightarrow> None
               | Some (Inl e) \<Rightarrow> e2e_loop n thr F is_return order (inst_edge e p)
               | Some (Inr b) \<Rightarrow> Some (inst_out_edges F (entry_block F) p)))"

text \<open>\<^verbatim>\<open>populateEdgeInstMap\<close>: every edge is uninstrumented, then every back edge gets a loop probe.\<close>

definition populateEdgeInstMap :: "func \<Rightarrow> placement \<Rightarrow> placement" where
  "populateEdgeInstMap F p =
     fold (\<lambda>e p. p\<lparr> EdgeInstMap := (EdgeInstMap p)(e := LOOP_INST), NumEdgeInst := NumEdgeInst p + 1 \<rparr>) (back_edges F)
       (p\<lparr> EdgeInstMap := (\<lambda>_. UNINST) \<rparr>)"

text \<open>
  The placement part of \<^verbatim>\<open>generateInst\<close>. No function is marked recursive (the assignments in
  \<^verbatim>\<open>getRecursiveFunc\<close> are commented out), so the threshold is \<^verbatim>\<open>MaxE2EUninst\<close>.
\<close>

definition generateInst :: "nat \<Rightarrow> pass_cfg \<Rightarrow> func \<Rightarrow> (nat \<Rightarrow> bool) \<Rightarrow> nat list \<Rightarrow> placement \<Rightarrow> placement option" where
  "generateInst n c F is_return order p =
     (case e2e_loop n (MaxE2EUninst c) F is_return order p of None \<Rightarrow> None
      | Some p1 \<Rightarrow> inst_loop n c F order p1)"

section \<open>Loops and expensive blocks\<close>

text \<open>How many iterations of a loop share one probe, from the loop's cost and its number of calls.\<close>

definition NumIters :: "pass_cfg \<Rightarrow> int \<Rightarrow> int \<Rightarrow> int" where
  "NumIters c LoopCost LoopFuncCallCost =
     (let n = CommitInterval c div LoopCost in
      if LoopFuncCallCost > 0
      then (let k = FuncCallThreshold c div LoopFuncCallCost; m = (if k = 0 then 1 else k) in if n \<le> m then n else m)
      else n)"

text \<open>Inside a block of cost 0, the instructions (given by their costs) that get a probe before them.\<close>

fun InstructionToProbe :: "int \<Rightarrow> int \<Rightarrow> int list \<Rightarrow> bool list" where
  "InstructionToProbe intv TotalInstCost [] = []"
| "InstructionToProbe intv TotalInstCost (k # ks) =
     (if intv \<le> TotalInstCost + k then True # InstructionToProbe intv k ks
      else False # InstructionToProbe intv (TotalInstCost + k) ks)"

section \<open>Distances are longest paths\<close>

text \<open>The invariant of the two nested loops; \<open>E\<close> are the forward edges visited so far.\<close>

definition dist_inv :: "placement \<Rightarrow> (nat \<times> nat) set \<Rightarrow> dist_map \<Rightarrow> bool" where
  "dist_inv p E dm \<longleftrightarrow>
     (\<forall>v d. DistanceMap dm v = Some d \<longrightarrow> CostMap p v \<le> d \<and> d \<le> MaxDist dm \<and>
        (PrevBBMap dm v = v \<and> d = CostMap p v \<or>
         (PrevBBMap dm v, v) \<in> E \<and> propagates p (PrevBBMap dm v) v \<and>
         (\<exists>u. DistanceMap dm (PrevBBMap dm v) = Some u \<and> d = u + CostMap p v))) \<and>
     (\<forall>(u, v) \<in> E. DistanceMap dm v \<noteq> None \<and> DistanceMap dm u \<noteq> None \<and>
        (propagates p u v \<longrightarrow> dist_of dm u + CostMap p v \<le> dist_of dm v)) \<and>
     DistanceMap dm (MaxBB dm) = Some (MaxDist dm)"

lemma dist_invD:
  assumes "dist_inv p E dm"
  shows "DistanceMap dm v = Some d \<Longrightarrow> CostMap p v \<le> d \<and> d \<le> MaxDist dm"
    and "DistanceMap dm v = Some d \<Longrightarrow> PrevBBMap dm v = v \<and> d = CostMap p v \<or>
         (PrevBBMap dm v, v) \<in> E \<and> propagates p (PrevBBMap dm v) v \<and>
         (\<exists>u. DistanceMap dm (PrevBBMap dm v) = Some u \<and> d = u + CostMap p v)"
    and "(u, v) \<in> E \<Longrightarrow> DistanceMap dm v \<noteq> None \<and> DistanceMap dm u \<noteq> None"
    and "(u, v) \<in> E \<Longrightarrow> propagates p u v \<Longrightarrow> dist_of dm u + CostMap p v \<le> dist_of dm v"
    and "DistanceMap dm (MaxBB dm) = Some (MaxDist dm)"
  using assms unfolding dist_inv_def by blast+

lemma dist_inv_update:
  assumes "dist_inv p E dm" and "s \<noteq> b" and "s \<notin> fst ` E" and "DistanceMap dm b = Some db" and "0 \<le> db"
    and "d = CostMap p s + (if propagates p b s then db else 0)"
    and "DistanceMap dm s = None \<or> dist_of dm s < d"
    and "dm' = dm\<lparr> DistanceMap := (DistanceMap dm)(s \<mapsto> d), PrevBBMap := (PrevBBMap dm)(s := if propagates p b s then b else s),
        MaxDist := max (MaxDist dm) d, MaxBB := (if MaxDist dm < d then s else MaxBB dm) \<rparr>"
  shows "dist_inv p (insert (b, s) E) dm'"
proof -
  note I = dist_invD [OF assms(1)]
  have other: "PrevBBMap dm v \<noteq> s" if "DistanceMap dm v = Some x" "v \<noteq> s" for v x
    using I(2) [OF that(1)] that(2) assms(3) by force
  have "CostMap p v \<le> x \<and> x \<le> MaxDist dm' \<and>
        (PrevBBMap dm' v = v \<and> x = CostMap p v \<or>
         (PrevBBMap dm' v, v) \<in> insert (b, s) E \<and> propagates p (PrevBBMap dm' v) v \<and>
         (\<exists>u. DistanceMap dm' (PrevBBMap dm' v) = Some u \<and> x = u + CostMap p v))"
    if "DistanceMap dm' v = Some x" for v x
  proof (cases "v = s")
    case True
    with that assms show ?thesis by auto
  next
    case False
    with that assms(8) have x: "DistanceMap dm v = Some x" by simp
    with I(1,2) [OF x] other [OF x False] False assms(8) show ?thesis by auto
  qed
  moreover have "DistanceMap dm' v \<noteq> None \<and> DistanceMap dm' u \<noteq> None \<and>
      (propagates p u v \<longrightarrow> dist_of dm' u + CostMap p v \<le> dist_of dm' v)" if "(u, v) \<in> insert (b, s) E" for u v
  proof (cases "(u, v) = (b, s)")
    case True
    with assms show ?thesis by (auto simp: dist_of_def)
  next
    case False
    with that have e: "(u, v) \<in> E" by blast
    then have "u \<noteq> s" using assms(3) by force
    with I(3,4) [OF e] assms(7,8) show ?thesis by (cases "v = s") (auto simp: dist_of_def split: option.splits)
  qed
  moreover have "DistanceMap dm' (MaxBB dm') = Some (MaxDist dm')"
  proof (cases "MaxDist dm < d")
    case False
    then have "MaxBB dm \<noteq> s" using I(5) assms(7) by (auto simp: dist_of_def)
    with False I(5) assms(8) show ?thesis by simp
  qed (use assms(8) in simp)
  ultimately show ?thesis unfolding dist_inv_def by blast
qed

lemma visit_edge_inv:
  assumes "dist_inv p E dm" and "s \<noteq> b" and "s \<notin> fst ` E" and "DistanceMap dm b = Some db" and "0 \<le> db"
    and "\<not> isBackEdge F b s"
  shows "dist_inv p (insert (b, s) E) (visit_edge F p b s dm)"
proof -
  define d where "d = CostMap p s + (if propagates p b s then db else 0)"
  have db: "dist_of dm b = db" using assms(4) by (simp add: dist_of_def)
  show ?thesis
  proof (cases "DistanceMap dm s = None \<or> dist_of dm s < d")
    case True
    have "dist_inv p (insert (b, s) E) (dm\<lparr> DistanceMap := (DistanceMap dm)(s \<mapsto> d),
        PrevBBMap := (PrevBBMap dm)(s := if propagates p b s then b else s),
        MaxDist := max (MaxDist dm) d, MaxBB := (if MaxDist dm < d then s else MaxBB dm) \<rparr>)" (is "dist_inv _ _ ?dm")
      by (rule dist_inv_update [OF assms(1-5) d_def True refl])
    moreover have "(case DistanceMap dm s of None \<Rightarrow> True | Some d' \<Rightarrow> d' < d)"
      using True by (auto simp: dist_of_def split: option.splits)
    then have "visit_edge F p b s dm = ?dm"
      using assms(6) unfolding visit_edge_def Let_def db d_def [symmetric]
      by (cases "MaxDist dm < d") (auto intro!: dist_map.equality)
    ultimately show ?thesis by simp
  next
    case False
    then obtain ds where ds: "DistanceMap dm s = Some ds" "d \<le> ds" by (auto simp: dist_of_def)
    then have "visit_edge F p b s dm = dm"
      using assms(6) unfolding visit_edge_def Let_def db d_def [symmetric] by simp
    moreover have "dist_inv p (insert (b, s) E) dm"
      using assms(1,4) ds by (auto simp: dist_inv_def d_def dist_of_def)
    ultimately show ?thesis by simp
  qed
qed

lemma visit_edge_other: "v \<noteq> s \<Longrightarrow> DistanceMap (visit_edge F p b s dm) v = DistanceMap dm v"
  by (simp add: visit_edge_def Let_def)

lemma visit_edges_dom:
  "DistanceMap dm v \<noteq> None \<Longrightarrow> DistanceMap (fold (visit_edge F p b) ss dm) v \<noteq> None"
  by (induction ss arbitrary: dm) (auto simp: visit_edge_def Let_def)

lemma visit_block_inv:
  assumes "dist_inv p E dm" and "DistanceMap dm b = Some db" and "0 \<le> db"
    and "\<And>s. s \<in> set ss \<Longrightarrow> \<not> isBackEdge F b s \<Longrightarrow> s \<noteq> b \<and> s \<notin> fst ` E"
  shows "dist_inv p (E \<union> {b} \<times> {s \<in> set ss. \<not> isBackEdge F b s}) (fold (visit_edge F p b) ss dm) \<and>
     DistanceMap (fold (visit_edge F p b) ss dm) b = Some db"
  using assms
proof (induction ss arbitrary: E dm)
  case (Cons s ss)
  show ?case
  proof (cases "isBackEdge F b s")
    case True
    then have "visit_edge F p b s dm = dm" by (simp add: visit_edge_def)
    moreover have "{s' \<in> set (s # ss). \<not> isBackEdge F b s'} = {s' \<in> set ss. \<not> isBackEdge F b s'}" using True by auto
    ultimately show ?thesis using Cons by simp
  next
    case False
    with Cons.prems(4) have s: "s \<noteq> b" "s \<notin> fst ` E" by auto
    have i: "dist_inv p (insert (b, s) E) (visit_edge F p b s dm)"
      by (rule visit_edge_inv [OF Cons.prems(1) s Cons.prems(2,3) False])
    have d: "DistanceMap (visit_edge F p b s dm) b = Some db" using visit_edge_other s(1) Cons.prems(2) by metis
    have "insert (b, s) E \<union> {b} \<times> {s \<in> set ss. \<not> isBackEdge F b s} = E \<union> {b} \<times> {s' \<in> set (s # ss). \<not> isBackEdge F b s'}"
      using False by auto
    with Cons.IH [OF i d Cons.prems(3)] Cons.prems(4) show ?thesis by auto
  qed
qed simp

text \<open>Forward edges out of a set of blocks.\<close>

definition edges_from :: "func \<Rightarrow> nat set \<Rightarrow> (nat \<times> nat) set" where
  "edges_from F B = {(b, s). b \<in> B \<and> s \<in> set (fwd F b)}"

text \<open>An order that starts with the entry and in which every other block has a predecessor before it.\<close>

lemma topo_order_tl: "topo_order F q \<Longrightarrow> u \<in> set q \<Longrightarrow> s \<in> set (fwd F u) \<Longrightarrow> s \<in> set (tl q)"
proof (induction q)
  case (Cons a q)
  have "set (tl q) \<subseteq> set q" by (cases q) auto
  with Cons show ?case by (auto simp: list_all_iff)
qed simp

lemma distance_map_fold:
  assumes "dist_inv p (edges_from F D) dm" and "topo_order F order" and "D \<inter> set order = {}"
    and "\<And>b. b \<in> set order \<Longrightarrow> b = entry_block F \<or> (\<exists>u \<in> D \<union> set order. b \<in> set (fwd F u))"
    and "DistanceMap dm (entry_block F) \<noteq> None" and "\<And>v. 0 \<le> CostMap p v"
  shows "dist_inv p (edges_from F (D \<union> set order)) (fold (visit_block F p) order dm)"
  using assms
proof (induction order arbitrary: D dm)
  case (Cons b order)
  have t: "topo_order F order" "b \<notin> set order" "\<And>s. s \<in> set (fwd F b) \<Longrightarrow> s \<in> set order"
    using Cons.prems(2) by (auto simp: list_all_iff)
  have "b \<notin> set (fwd F u)" if "u \<in> set (b # order)" for u
    using topo_order_tl [OF Cons.prems(2) that] t(2) by auto
  with Cons.prems(4) [of b] have "b = entry_block F \<or> (\<exists>u \<in> D. b \<in> set (fwd F u))" by auto
  then have "DistanceMap dm b \<noteq> None"
    using Cons.prems(5) dist_invD(3) [OF Cons.prems(1)] by (auto simp: edges_from_def)
  then obtain db where db: "DistanceMap dm b = Some db" by auto
  then have "0 \<le> db" using dist_invD(1) [OF Cons.prems(1)] Cons.prems(6) order_trans by blast
  moreover have "s \<noteq> b \<and> s \<notin> fst ` edges_from F D" if "s \<in> set (succs F b)" "\<not> isBackEdge F b s" for s
    using t(2,3) Cons.prems(3) that by (force simp: fwd_def edges_from_def)
  ultimately have v: "dist_inv p (edges_from F D \<union> {b} \<times> {s \<in> set (succs F b). \<not> isBackEdge F b s}) (visit_block F p b dm)"
    "DistanceMap (visit_block F p b dm) b = Some db"
    using visit_block_inv [OF Cons.prems(1) db] unfolding visit_block_def by blast+
  have E: "edges_from F D \<union> {b} \<times> {s \<in> set (succs F b). \<not> isBackEdge F b s} = edges_from F (insert b D)"
    by (auto simp: edges_from_def fwd_def)
  have "DistanceMap (visit_block F p b dm) (entry_block F) \<noteq> None"
    unfolding visit_block_def by (rule visit_edges_dom [OF Cons.prems(5)])
  from Cons.IH [of "insert b D", OF v(1) [unfolded E] t(1) _ _ this Cons.prems(6)] Cons.prems(3,4) t(2)
  show ?case by auto
qed simp

definition is_order :: "func \<Rightarrow> nat list \<Rightarrow> bool" where
  "is_order F order \<longleftrightarrow> topo_order F order \<and> entry_block F \<in> set order \<and>
     (\<forall>b \<in> set order. b = entry_block F \<or> (\<exists>u \<in> set order. b \<in> set (fwd F u)))"

lemma runToposort_order:
  assumes "runToposort F = Some (True, st)" shows "is_order F (rev (SortedBBs st))"
proof -
  let ?e = "entry_block F"
  from runToposort_spec [OF assms] have t: "topo_order F (rev (SortedBBs st))" "set (SortedBBs st) = (fwd_edges F)\<^sup>* `` {?e}"
    by auto
  have "b = ?e \<or> (\<exists>u. (?e, u) \<in> (fwd_edges F)\<^sup>* \<and> b \<in> set (fwd F u))" if "(?e, b) \<in> (fwd_edges F)\<^sup>*" for b
    using that by (cases rule: rtranclE) (auto simp: fwd_edges_def)
  with t show ?thesis unfolding is_order_def by auto
qed

lemma generateDistanceMap_inv:
  assumes "is_order F order" and "\<And>v. 0 \<le> CostMap p v"
  shows "dist_inv p (edges_from F (set order)) (generateDistanceMap F p order)"
proof -
  let ?i = "\<lparr> DistanceMap = [entry_block F \<mapsto> CostMap p (entry_block F)], PrevBBMap = (\<lambda>b. b),
         MaxBB = entry_block F, MaxDist = CostMap p (entry_block F) \<rparr>"
  have "dist_inv p (edges_from F {}) ?i" by (auto simp: dist_inv_def edges_from_def)
  from distance_map_fold [OF this, of order] assms show ?thesis
    unfolding generateDistanceMap_def by (auto simp: is_order_def)
qed

text \<open>Uninstrumented paths and their cost.\<close>

fun uninst_path :: "func \<Rightarrow> placement \<Rightarrow> nat list \<Rightarrow> bool" where
  "uninst_path F p [] = False"
| "uninst_path F p [v] = True"
| "uninst_path F p (u # v # vs) = (v \<in> set (fwd F u) \<and> propagates p u v \<and> uninst_path F p (v # vs))"

definition path_cost :: "placement \<Rightarrow> nat list \<Rightarrow> int" where
  "path_cost p vs = sum_list (map (CostMap p) vs)"

lemma path_le_distance:
  assumes "dist_inv p (edges_from F B) dm" and "uninst_path F p (u # vs)" and "u \<in> B" and "\<And>b s. b \<in> B \<Longrightarrow> s \<in> set (fwd F b) \<Longrightarrow> s \<in> B"
  shows "dist_of dm u + path_cost p vs \<le> dist_of dm (last (u # vs)) \<and> last (u # vs) \<in> B"
  using assms(2,3)
proof (induction vs arbitrary: u)
  case (Cons v vs)
  then have e: "(u, v) \<in> edges_from F B" "propagates p u v" "v \<in> B" using assms(4) by (auto simp: edges_from_def)
  from dist_invD(4) [OF assms(1) e(1,2)] Cons.IH [of v] Cons.prems e(3) show ?case by (auto simp: path_cost_def)
qed (simp add: path_cost_def)

lemma order_defined:
  assumes "dist_inv p (edges_from F (set order)) dm" and "is_order F order" and "DistanceMap dm (entry_block F) \<noteq> None"
    and "b \<in> set order"
  shows "DistanceMap dm b \<noteq> None"
  using assms dist_invD(3) [OF assms(1)] by (force simp: is_order_def edges_from_def)

lemma generateDistanceMap_entry: "DistanceMap (generateDistanceMap F p order) (entry_block F) \<noteq> None"
proof -
  have "DistanceMap (fold (visit_block F p) order dm) v \<noteq> None" if "DistanceMap dm v \<noteq> None" for dm v
    using that
  proof (induction order arbitrary: dm)
    case (Cons b order)
    show ?case using Cons.IH [OF visit_edges_dom [OF Cons.prems, of F p b "succs F b"]] by (simp add: visit_block_def)
  qed simp
  then show ?thesis by (simp add: generateDistanceMap_def)
qed

text \<open>Every uninstrumented path costs at most \<^verbatim>\<open>MaxDist\<close>.\<close>

lemma uninst_path_bound:
  assumes "is_order F order" and "\<And>v. 0 \<le> CostMap p v" and "uninst_path F p vs" and "set vs \<subseteq> set order"
  shows "path_cost p vs \<le> MaxDist (generateDistanceMap F p order)"
proof -
  let ?dm = "generateDistanceMap F p order"
  note I = generateDistanceMap_inv [OF assms(1,2)]
  obtain u us where vs: "vs = u # us" using assms(3) by (cases vs) auto
  have closed: "s \<in> set order" if "b \<in> set order" "s \<in> set (fwd F b)" for b s
    using topo_order_closed [of F order b s] that assms(1) by (auto simp: is_order_def fwd_edges_def)
  have def_in: "DistanceMap ?dm b \<noteq> None" if "b \<in> set order" for b
    by (rule order_defined [OF I assms(1) generateDistanceMap_entry that])
  from path_le_distance [OF I assms(3) [unfolded vs]] closed assms(4) vs
  have l: "dist_of ?dm u + path_cost p us \<le> dist_of ?dm (last vs)" "last vs \<in> set order" by auto
  moreover have "CostMap p u \<le> dist_of ?dm u"
    using dist_invD(1) [OF I, of u] def_in [of u] assms(4) vs by (auto simp: dist_of_def)
  moreover have "dist_of ?dm (last vs) \<le> MaxDist ?dm"
    using dist_invD(1) [OF I, of "last vs"] def_in [OF l(2)] by (auto simp: dist_of_def)
  ultimately show ?thesis by (simp add: vs path_cost_def)
qed

section \<open>The chosen edge\<close>

lemma topo_order_split:
  assumes "topo_order F (xs @ b # ys)" and "(u, b) \<in> edges_from F (set (xs @ b # ys))" shows "u \<in> set xs"
proof (rule ccontr)
  assume "u \<notin> set xs"
  then have u: "u \<in> set (b # ys)" "b \<in> set (fwd F u)" using assms(2) by (auto simp: edges_from_def)
  have "topo_order F (b # ys)" using assms(1) by (induction xs) auto
  from topo_order_tl [OF this u] this show False by simp
qed

lemma decide_edge:
  assumes "dist_inv p (edges_from F (set order)) dm" and "topo_order F order" and "\<And>v. CostMap p v < thr"
    and "order = xs @ cur # ys" and "length xs < n" and "thr \<le> dist_of dm cur" and "DistanceMap dm cur \<noteq> None"
  shows "\<exists>u v. decideInstLocations n dm cur thr = Some (Inl (u, v)) \<and> (u, v) \<in> edges_from F (set order) \<and> propagates p u v"
  using assms(4-7)
proof (induction n arbitrary: cur xs ys)
  case (Suc n)
  obtain d where d: "DistanceMap dm cur = Some d" "thr \<le> d" using Suc.prems(3,4) by (auto simp: dist_of_def)
  have "d \<noteq> CostMap p cur" using d(2) assms(3) [of cur] by simp
  then obtain u where u: "(PrevBBMap dm cur, cur) \<in> edges_from F (set order)" "propagates p (PrevBBMap dm cur) cur"
    "DistanceMap dm (PrevBBMap dm cur) = Some u"
    using dist_invD(2) [OF assms(1) d(1)] by auto
  show ?case
  proof (cases "dist_of dm (PrevBBMap dm cur) < thr")
    case False
    have "PrevBBMap dm cur \<in> set xs"
      using topo_order_split assms(2) u(1) unfolding Suc.prems(1) by blast
    then obtain xs1 xs2 where x: "xs = xs1 @ PrevBBMap dm cur # xs2" by (meson split_list)
    have o: "order = xs1 @ PrevBBMap dm cur # (xs2 @ cur # ys)" using Suc.prems(1) x by simp
    have "length xs1 < n" using Suc.prems(2) x by simp
    from Suc.IH [OF o this] False u(3) have ih: "\<exists>a v. decideInstLocations n dm (PrevBBMap dm cur) thr = Some (Inl (a, v)) \<and>
        (a, v) \<in> edges_from F (set order) \<and> propagates p a v" by simp
    have "distinct order" using assms(2) by (induction order) auto
    then have "PrevBBMap dm cur \<noteq> cur" unfolding o by auto
    with ih False show ?thesis by (simp add: Let_def)
  qed (use u in simp)
qed simp

section \<open>Placement ends and bounds the gaps\<close>

definition uninst_edges :: "func \<Rightarrow> nat list \<Rightarrow> placement \<Rightarrow> (nat \<times> nat) set" where
  "uninst_edges F order p = {e \<in> edges_from F (set order). EdgeInstMap p e = UNINST}"

lemma finite_edges_from: "finite (edges_from F (set order))"
proof -
  have "edges_from F (set order) \<subseteq> (\<Union>b \<in> set order. Pair b ` set (fwd F b))" by (auto simp: edges_from_def)
  then show ?thesis by (rule finite_subset) simp
qed

text \<open>\<open>p'\<close> has at least the probes of \<open>p\<close> and the same costs.\<close>

definition refines :: "placement \<Rightarrow> placement \<Rightarrow> bool" where
  "refines p' p \<longleftrightarrow> CostMap p' = CostMap p \<and> InstrumentedBB p' = InstrumentedBB p \<and>
     (\<forall>e. EdgeInstMap p' e = UNINST \<longrightarrow> EdgeInstMap p e = UNINST)"

lemma refines_inst_edge: "refines p' (inst_edge e p) \<Longrightarrow> refines p' p"
  by (auto simp: refines_def inst_edge_def split: if_splits)

lemma refines_trans: "refines p2 p1 \<Longrightarrow> refines p1 p \<Longrightarrow> refines p2 p"
  by (simp add: refines_def)

lemma refines_path: "refines p' p \<Longrightarrow> uninst_path F p' vs \<Longrightarrow> uninst_path F p vs"
  by (induction F p' vs rule: uninst_path.induct) (auto simp: refines_def propagates_def)

lemma uninst_edges_less:
  assumes "(u, v) \<in> edges_from F (set order)" and "propagates p u v"
  shows "card (uninst_edges F order (inst_edge (u, v) p)) < card (uninst_edges F order p)"
proof -
  have "uninst_edges F order (inst_edge (u, v) p) = uninst_edges F order p - {(u, v)}"
    by (auto simp: uninst_edges_def inst_edge_def)
  moreover have "(u, v) \<in> uninst_edges F order p" using assms by (simp add: uninst_edges_def propagates_def)
  moreover have "finite (uninst_edges F order p)" using finite_edges_from by (simp add: uninst_edges_def)
  ultimately show ?thesis using card_Diff1_less by metis
qed

lemma uninst_path_in:
  assumes "\<And>b s. b \<in> B \<Longrightarrow> s \<in> set (fwd F b) \<Longrightarrow> s \<in> B" and "uninst_path F p (u # vs)" and "u \<in> B"
  shows "set (u # vs) \<subseteq> B"
  using assms(2,3)
proof (induction vs arbitrary: u)
  case (Cons v vs)
  then have "v \<in> B" using assms(1) by auto
  with Cons show ?case by auto
qed simp

lemma inst_loop_ends:
  assumes "is_order F order" and "\<And>v. 0 \<le> CostMap p v \<and> CostMap p v < CommitInterval c" and "card (uninst_edges F order p) < n"
  shows "\<exists>p'. inst_loop n c F order p = Some p' \<and> refines p' p \<and>
     MaxDist (generateDistanceMap F p' order) \<le> CommitInterval c"
  using assms(2,3)
proof (induction n arbitrary: p)
  case (Suc n)
  let ?dm = "generateDistanceMap F p order"
  show ?case
  proof (cases "MaxDist ?dm \<le> CommitInterval c")
    case False
    have I: "dist_inv p (edges_from F (set order)) ?dm" by (rule generateDistanceMap_inv [OF assms(1)]) (use Suc.prems in blast)
    note M = dist_invD(5) [OF I]
    have cost: "CostMap p v < CommitInterval c" for v using Suc.prems by blast
    have "(PrevBBMap ?dm (MaxBB ?dm), MaxBB ?dm) \<in> edges_from F (set order)"
      using dist_invD(2) [OF I M] cost [of "MaxBB ?dm"] False by auto
    then have "MaxBB ?dm \<in> set order" using topo_order_closed [of F order "PrevBBMap ?dm (MaxBB ?dm)"] assms(1)
      by (auto simp: edges_from_def is_order_def fwd_edges_def)
    then obtain xs ys where o: "order = xs @ MaxBB ?dm # ys" by (meson split_list)
    have "length order = length xs + Suc (length ys)" by (subst o) simp
    then have "length xs < length order" by linarith
    moreover have "CommitInterval c \<le> dist_of ?dm (MaxBB ?dm)" using M False by (simp add: dist_of_def)
    moreover have "topo_order F order" using assms(1) by (simp add: is_order_def)
    ultimately obtain u v where e: "decideInstLocations (length order) ?dm (MaxBB ?dm) (CommitInterval c) = Some (Inl (u, v))"
      "(u, v) \<in> edges_from F (set order)" "propagates p u v"
      using decide_edge [OF I _ cost o] M by blast
    have "card (uninst_edges F order (inst_edge (u, v) p)) < n" using uninst_edges_less [OF e(2,3)] Suc.prems(2) by linarith
    then obtain p' where "inst_loop n c F order (inst_edge (u, v) p) = Some p'" "refines p' (inst_edge (u, v) p)"
      "MaxDist (generateDistanceMap F p' order) \<le> CommitInterval c"
      using Suc.IH [of "inst_edge (u, v) p"] Suc.prems(1) by (auto simp: inst_edge_def)
    with e(1) False show ?thesis by (auto simp: Let_def intro: refines_inst_edge)
  qed (simp add: Let_def refines_def)
qed simp

section \<open>End-to-end paths\<close>

definition ld_inv :: "placement \<Rightarrow> nat \<Rightarrow> (nat \<times> nat) set \<Rightarrow> dist_map \<Rightarrow> bool" where
  "ld_inv p start E dm \<longleftrightarrow> DistanceMap dm start = Some (CostMap p start) \<and> PrevBBMap dm start = start \<and>
     (\<forall>v d. v \<noteq> start \<and> DistanceMap dm v = Some d \<longrightarrow> 0 \<le> d \<and>
        (0 < d \<longrightarrow> (PrevBBMap dm v, v) \<in> E \<and> propagates p (PrevBBMap dm v) v \<and>
          (\<exists>u. DistanceMap dm (PrevBBMap dm v) = Some u \<and> 0 < u \<and> d = u + CostMap p v))) \<and>
     (\<forall>(u, v) \<in> E. propagates p u v \<and> 0 < dist_of dm u \<longrightarrow> dist_of dm u + CostMap p v \<le> dist_of dm v)"

lemma ld_invD:
  assumes "ld_inv p start E dm"
  shows "DistanceMap dm start = Some (CostMap p start)" and "PrevBBMap dm start = start"
    and "v \<noteq> start \<Longrightarrow> DistanceMap dm v = Some d \<Longrightarrow> 0 \<le> d"
    and "v \<noteq> start \<Longrightarrow> DistanceMap dm v = Some d \<Longrightarrow> 0 < d \<Longrightarrow> (PrevBBMap dm v, v) \<in> E \<and>
        propagates p (PrevBBMap dm v) v \<and> (\<exists>u. DistanceMap dm (PrevBBMap dm v) = Some u \<and> 0 < u \<and> d = u + CostMap p v)"
    and "(u, v) \<in> E \<Longrightarrow> propagates p u v \<Longrightarrow> 0 < dist_of dm u \<Longrightarrow> dist_of dm u + CostMap p v \<le> dist_of dm v"
  using assms unfolding ld_inv_def by blast+

lemma visit_edge_from_inv:
  assumes "ld_inv p start E dm" and "s \<noteq> b" and "s \<noteq> start" and "s \<notin> fst ` E" and "\<not> isBackEdge F b s"
    and "0 \<le> CostMap p s" and "DistanceMap dm b \<noteq> None"
  shows "ld_inv p start (insert (b, s) E) (visit_edge_from F p b s dm)"
proof -
  define d where "d = (if propagates p b s \<and> 0 < dist_of dm b then dist_of dm b + CostMap p s else 0)"
  note I = ld_invD [OF assms(1)]
  have d0: "0 \<le> d" using assms(6) by (simp add: d_def)
  show ?thesis
  proof (cases "case DistanceMap dm s of None \<Rightarrow> True | Some x \<Rightarrow> x < d")
    case True
    let ?dm = "dm\<lparr> DistanceMap := (DistanceMap dm)(s \<mapsto> d), PrevBBMap := (PrevBBMap dm)(s := b) \<rparr>"
    have e: "visit_edge_from F p b s dm = ?dm"
      using True assms(5) unfolding visit_edge_from_def Let_def d_def [symmetric] by simp
    have other: "PrevBBMap dm v \<noteq> s" if "v \<noteq> start" "v \<noteq> s" "DistanceMap dm v = Some x" "0 < x" for v x
      using I(4) [OF that(1,3,4)] assms(4) by force
    have grow: "dist_of dm v \<le> dist_of ?dm v" for v using True d0 by (auto simp: dist_of_def split: option.splits)
    have same: "dist_of ?dm u = dist_of dm u" if "u \<noteq> s" for u using that by (simp add: dist_of_def)
    have "0 \<le> x \<and> (0 < x \<longrightarrow> (PrevBBMap ?dm v, v) \<in> insert (b, s) E \<and> propagates p (PrevBBMap ?dm v) v \<and>
          (\<exists>u. DistanceMap ?dm (PrevBBMap ?dm v) = Some u \<and> 0 < u \<and> x = u + CostMap p v))"
      if "v \<noteq> start" "DistanceMap ?dm v = Some x" for v x
    proof (cases "v = s")
      case True
      with that d0 assms(2) show ?thesis by (auto simp: d_def dist_of_def split: if_splits option.splits)
    next
      case False
      with that have x: "DistanceMap dm v = Some x" by simp
      with I(3,4) [OF that(1) x] other [OF that(1) False x] False show ?thesis by auto
    qed
    moreover have "dist_of ?dm u + CostMap p v \<le> dist_of ?dm v"
      if "(u, v) \<in> insert (b, s) E" "propagates p u v" "0 < dist_of ?dm u" for u v
    proof (cases "(u, v) = (b, s)")
      case True
      with that same [of b] assms(2) show ?thesis by (auto simp: d_def dist_of_def)
    next
      case False
      with that(1) have e: "(u, v) \<in> E" by blast
      then have "u \<noteq> s" using assms(4) by force
      with I(5) [OF e that(2)] that(3) same grow [of v] show ?thesis by auto
    qed
    ultimately show ?thesis using I(1,2) assms(3) unfolding e ld_inv_def by auto
  next
    case False
    then obtain x where x: "DistanceMap dm s = Some x" "d \<le> x" by (auto split: option.splits)
    then have "visit_edge_from F p b s dm = dm"
      using False assms(5) unfolding visit_edge_from_def Let_def d_def [symmetric] by simp
    moreover have "ld_inv p start (insert (b, s) E) dm"
      using assms(1) x by (auto simp: ld_inv_def d_def dist_of_def)
    ultimately show ?thesis by simp
  qed
qed

lemma visit_edge_from_other: "v \<noteq> s \<Longrightarrow> DistanceMap (visit_edge_from F p b s dm) v = DistanceMap dm v"
  by (simp add: visit_edge_from_def Let_def)

lemma visit_block_from_inv:
  assumes "ld_inv p start E dm" and "DistanceMap dm b \<noteq> None" and "\<And>v. 0 \<le> CostMap p v"
    and "\<And>s. s \<in> set ss \<Longrightarrow> \<not> isBackEdge F b s \<Longrightarrow> s \<noteq> b \<and> s \<noteq> start \<and> s \<notin> fst ` E"
  shows "ld_inv p start (E \<union> {b} \<times> {s \<in> set ss. \<not> isBackEdge F b s}) (fold (visit_edge_from F p b) ss dm)"
  using assms
proof (induction ss arbitrary: E dm)
  case (Cons s ss)
  show ?case
  proof (cases "isBackEdge F b s")
    case True
    then have "visit_edge_from F p b s dm = dm" by (simp add: visit_edge_from_def)
    moreover have "{s' \<in> set (s # ss). \<not> isBackEdge F b s'} = {s' \<in> set ss. \<not> isBackEdge F b s'}" using True by auto
    ultimately show ?thesis using Cons by simp
  next
    case False
    with Cons.prems(4) have s: "s \<noteq> b" "s \<noteq> start" "s \<notin> fst ` E" by auto
    have i: "ld_inv p start (insert (b, s) E) (visit_edge_from F p b s dm)"
      by (rule visit_edge_from_inv [OF Cons.prems(1) s False Cons.prems(3,2)])
    have d: "DistanceMap (visit_edge_from F p b s dm) b \<noteq> None" using visit_edge_from_other s(1) Cons.prems(2) by metis
    have "insert (b, s) E \<union> {b} \<times> {s \<in> set ss. \<not> isBackEdge F b s} = E \<union> {b} \<times> {s' \<in> set (s # ss). \<not> isBackEdge F b s'}"
      using False by auto
    with Cons.IH [OF i d Cons.prems(3)] Cons.prems(4) show ?thesis by auto
  qed
qed simp

lemma longest_fold:
  assumes "ld_inv p start (edges_from F D) dm" and "topo_order F order" and "D \<inter> set order = {}"
    and "\<And>b. b \<in> set order \<Longrightarrow> start \<notin> set (fwd F b)" and "\<And>v. 0 \<le> CostMap p v"
  shows "ld_inv p start (edges_from F (D \<union> set order)) (fold (visit_block_from F p) order dm)"
  using assms
proof (induction order arbitrary: D dm)
  case (Cons b order)
  have t: "topo_order F order" "b \<notin> set order" "\<And>s. s \<in> set (fwd F b) \<Longrightarrow> s \<in> set order"
    using Cons.prems(2) by (auto simp: list_all_iff)
  have E: "edges_from F D \<union> {b} \<times> {s \<in> set (succs F b). \<not> isBackEdge F b s} = edges_from F (insert b D)"
    by (auto simp: edges_from_def fwd_def)
  have "ld_inv p start (edges_from F (insert b D)) (visit_block_from F p b dm)"
  proof (cases "DistanceMap dm b = None")
    case True
    then have "dist_of dm b = 0" by (simp add: dist_of_def)
    with Cons.prems(1) True show ?thesis
      unfolding E [symmetric] visit_block_from_def ld_inv_def by auto
  next
    case False
    have "s \<noteq> b \<and> s \<noteq> start \<and> s \<notin> fst ` edges_from F D" if "s \<in> set (succs F b)" "\<not> isBackEdge F b s" for s
    proof -
      have "s \<in> set (fwd F b)" using that by (simp add: fwd_def)
      then show ?thesis using t(2,3) Cons.prems(3) Cons.prems(4) [of b] by (force simp: edges_from_def)
    qed
    then have "ld_inv p start (edges_from F D \<union> {b} \<times> {s \<in> set (succs F b). \<not> isBackEdge F b s})
        (fold (visit_edge_from F p b) (succs F b) dm)"
      by (rule visit_block_from_inv [OF Cons.prems(1) False Cons.prems(5)])
    with False show ?thesis unfolding E by (auto simp: visit_block_from_def)
  qed
  from Cons.IH [OF this t(1)] Cons.prems(3-5) t(2) show ?case by auto
qed simp

lemma order_entry_first:
  assumes "is_order F order" and "b \<in> set order" shows "entry_block F \<notin> set (fwd F b)"
proof -
  obtain e rest where o: "order = e # rest" using assms(2) by (cases order) auto
  have t: "topo_order F order" using assms(1) by (simp add: is_order_def)
  have "e \<notin> set (fwd F u)" if "u \<in> set order" for u
    using topo_order_tl [OF t that, of e] t o by auto
  then have "e = entry_block F" using assms(1) o unfolding is_order_def by auto
  then show ?thesis using topo_order_tl [OF t assms(2), of e] t o by auto
qed

lemma longestDistanceFrom_inv:
  assumes "is_order F order" and "\<And>v. 0 \<le> CostMap p v"
  shows "ld_inv p (entry_block F) (edges_from F (set order)) (longestDistanceFrom F p order (entry_block F))"
proof -
  let ?e = "entry_block F"
  let ?i = "\<lparr> DistanceMap = [?e \<mapsto> CostMap p ?e], PrevBBMap = (\<lambda>b. b), MaxBB = ?e, MaxDist = 0 \<rparr>"
  have "ld_inv p ?e (edges_from F {}) ?i" by (auto simp: ld_inv_def edges_from_def)
  from longest_fold [OF this, of order] order_entry_first [OF assms(1)] assms show ?thesis
    unfolding longestDistanceFrom_def by (auto simp: is_order_def)
qed

lemma ld_path:
  assumes "ld_inv p start (edges_from F B) dm" and "uninst_path F p (u # vs)" and "u \<in> B" and "0 < dist_of dm u"
    and "\<And>b s. b \<in> B \<Longrightarrow> s \<in> set (fwd F b) \<Longrightarrow> s \<in> B" and "\<And>v. 0 \<le> CostMap p v"
  shows "dist_of dm u + path_cost p vs \<le> dist_of dm (last (u # vs))"
  using assms(2-4)
proof (induction vs arbitrary: u)
  case (Cons v vs)
  then have e: "(u, v) \<in> edges_from F B" "propagates p u v" "v \<in> B" using assms(5) by (auto simp: edges_from_def)
  from ld_invD(5) [OF assms(1) e(1,2) Cons.prems(3)] have d: "dist_of dm u + CostMap p v \<le> dist_of dm v" .
  then have "0 < dist_of dm v" using Cons.prems(3) assms(6) [of v] by linarith
  from Cons.IH [OF _ e(3) this] d Cons.prems(1) show ?case by (simp add: path_cost_def)
qed (simp add: path_cost_def)

lemma decide_e2e:
  assumes "ld_inv p start (edges_from F (set order)) dm" and "topo_order F order" and "0 \<le> thr"
    and "order = xs @ cur # ys" and "length xs < n" and "thr \<le> dist_of dm cur" and "0 < dist_of dm cur"
  shows "(\<exists>u v. decideInstLocations n dm cur thr = Some (Inl (u, v)) \<and> (u, v) \<in> edges_from F (set order) \<and> propagates p u v) \<or>
     decideInstLocations n dm cur thr = Some (Inr start)"
  using assms(4-7)
proof (induction n arbitrary: cur xs ys)
  case (Suc n)
  show ?case
  proof (cases "cur = start")
    case True
    with ld_invD(2) [OF assms(1)] Suc.prems(3) show ?thesis by (simp add: Let_def)
  next
    case False
    obtain d where d: "DistanceMap dm cur = Some d" "0 < d"
      using Suc.prems(4) by (auto simp: dist_of_def split: option.splits)
    obtain u where u: "(PrevBBMap dm cur, cur) \<in> edges_from F (set order)" "propagates p (PrevBBMap dm cur) cur"
      "DistanceMap dm (PrevBBMap dm cur) = Some u" "0 < u"
      using ld_invD(4) [OF assms(1) False d] by auto
    show ?thesis
    proof (cases "dist_of dm (PrevBBMap dm cur) < thr")
      case ge: False
      have "PrevBBMap dm cur \<in> set xs"
        using topo_order_split assms(2) u(1) unfolding Suc.prems(1) by blast
      then obtain xs1 xs2 where x: "xs = xs1 @ PrevBBMap dm cur # xs2" by (meson split_list)
      have o: "order = xs1 @ PrevBBMap dm cur # (xs2 @ cur # ys)" using Suc.prems(1) x by simp
      have "length xs1 < n" using Suc.prems(2) x by simp
      note ih = Suc.IH [OF o this]
      have "distinct order" using assms(2) by (induction order) auto
      then have "PrevBBMap dm cur \<noteq> cur" unfolding o by auto
      with ih ge u(3,4) show ?thesis by (simp add: Let_def dist_of_def)
    qed (use u in simp)
  qed
qed simp

definition pick_return :: "(nat \<Rightarrow> bool) \<Rightarrow> nat \<Rightarrow> dist_map \<Rightarrow> dist_map" where
  "pick_return is_return b dm = (case DistanceMap dm b of None \<Rightarrow> dm
     | Some d \<Rightarrow> if is_return b \<and> MaxDist dm < d then dm\<lparr> MaxDist := d, MaxBB := b \<rparr> else dm)"

lemma pick_return_sel [simp]:
  "DistanceMap (pick_return R b dm) = DistanceMap dm" "PrevBBMap (pick_return R b dm) = PrevBBMap dm"
  "MaxDist dm \<le> MaxDist (pick_return R b dm)"
  by (auto simp: pick_return_def split: option.splits)

lemma max_return_fold:
  assumes "0 < MaxDist dm \<longrightarrow> DistanceMap dm (MaxBB dm) = Some (MaxDist dm)"
  shows "DistanceMap (fold (pick_return R) bs dm) = DistanceMap dm \<and> PrevBBMap (fold (pick_return R) bs dm) = PrevBBMap dm \<and>
     MaxDist dm \<le> MaxDist (fold (pick_return R) bs dm) \<and>
     (\<forall>b d. b \<in> set bs \<and> R b \<and> DistanceMap dm b = Some d \<longrightarrow> d \<le> MaxDist (fold (pick_return R) bs dm)) \<and>
     (0 < MaxDist (fold (pick_return R) bs dm) \<longrightarrow>
        DistanceMap dm (MaxBB (fold (pick_return R) bs dm)) = Some (MaxDist (fold (pick_return R) bs dm)))"
  using assms
proof (induction bs arbitrary: dm)
  case (Cons b bs)
  have "0 < MaxDist (pick_return R b dm) \<longrightarrow>
      DistanceMap (pick_return R b dm) (MaxBB (pick_return R b dm)) = Some (MaxDist (pick_return R b dm))"
    using Cons.prems by (auto simp: pick_return_def split: option.splits)
  note ih = Cons.IH [OF this, unfolded pick_return_sel(1,2)]
  have "d \<le> MaxDist (pick_return R b dm)" if "R b" "DistanceMap dm b = Some d" for d
    using that by (simp add: pick_return_def)
  then have "\<forall>d. R b \<and> DistanceMap dm b = Some d \<longrightarrow> d \<le> MaxDist (fold (pick_return R) bs (pick_return R b dm))"
    using ih order_trans by blast
  moreover have "MaxDist dm \<le> MaxDist (fold (pick_return R) bs (pick_return R b dm))"
    using ih pick_return_sel(3) [of dm R b] by linarith
  ultimately show ?case using ih unfolding fold_Cons comp_apply list.set by blast
qed simp

lemma max_return_result:
  assumes "dm = max_return F R q"
  shows "DistanceMap dm = DistanceMap q" "PrevBBMap dm = PrevBBMap q" "0 \<le> MaxDist dm"
    "\<And>b d. b \<in> set (blocks F) \<Longrightarrow> R b \<Longrightarrow> DistanceMap q b = Some d \<Longrightarrow> d \<le> MaxDist dm"
    "0 < MaxDist dm \<Longrightarrow> DistanceMap dm (MaxBB dm) = Some (MaxDist dm)"
proof -
  have d: "dm = fold (pick_return R) (blocks F) (q\<lparr> MaxDist := 0 \<rparr>)"
    unfolding assms max_return_def pick_return_def [abs_def] by (rule refl)
  note M = max_return_fold [of "q\<lparr> MaxDist := 0 \<rparr>" R "blocks F", folded d, simplified]
  then show "DistanceMap dm = DistanceMap q" "PrevBBMap dm = PrevBBMap q" "0 \<le> MaxDist dm"
    "\<And>b d. b \<in> set (blocks F) \<Longrightarrow> R b \<Longrightarrow> DistanceMap q b = Some d \<Longrightarrow> d \<le> MaxDist dm"
    "0 < MaxDist dm \<Longrightarrow> DistanceMap dm (MaxBB dm) = Some (MaxDist dm)" by metis+
qed

text \<open>No probe-free path from the entry to a return block costs more than the threshold, the entry's own
  cost apart.\<close>

definition e2e_ok :: "func \<Rightarrow> (nat \<Rightarrow> bool) \<Rightarrow> nat list \<Rightarrow> int \<Rightarrow> placement \<Rightarrow> bool" where
  "e2e_ok F R order thr p \<longleftrightarrow> (\<forall>v vs. uninst_path F p (entry_block F # v # vs) \<longrightarrow>
     R (last (v # vs)) \<longrightarrow> path_cost p (entry_block F # v # vs) \<le> thr)"

lemma inst_out_edges_spec:
  "refines (inst_out_edges F b p) p \<and> (\<forall>s \<in> set (succs F b). EdgeInstMap (inst_out_edges F b p) (b, s) \<noteq> UNINST)"
proof -
  let ?f = "\<lambda>s p. if EdgeInstMap p (b, s) = UNINST then inst_edge (b, s) p else p"
  have "refines (fold ?f ss p) p \<and> (\<forall>s \<in> set ss. EdgeInstMap (fold ?f ss p) (b, s) \<noteq> UNINST)" for ss
  proof (induction ss arbitrary: p)
    case (Cons s ss)
    define q where "q = ?f s p"
    have r: "refines q p" by (auto simp: q_def refines_def inst_edge_def)
    have s: "EdgeInstMap q (b, s) \<noteq> UNINST" by (simp add: q_def inst_edge_def)
    from Cons.IH [of q] have i: "refines (fold ?f ss q) q" "\<forall>s \<in> set ss. EdgeInstMap (fold ?f ss q) (b, s) \<noteq> UNINST" by auto
    have "EdgeInstMap (fold ?f ss q) (b, s) \<noteq> UNINST" using i(1) s unfolding refines_def by blast
    with refines_trans [OF i(1) r] i(2) show ?case by (simp only: fold_Cons comp_apply q_def list.set) blast
  qed (simp add: refines_def)
  then show ?thesis by (simp add: inst_out_edges_def)
qed

lemma e2e_loop_ends:
  assumes "is_order F order" and "\<And>v. 0 \<le> CostMap p v" and "0 \<le> thr" and "set order \<subseteq> set (blocks F)"
    and "card (uninst_edges F order p) < n"
  shows "\<exists>p'. e2e_loop n thr F R order p = Some p' \<and> refines p' p \<and> e2e_ok F R order thr p'"
  using assms(2,5)
proof (induction n arbitrary: p)
  case (Suc n)
  let ?ld = "longestDistanceFrom F p order (entry_block F)"
  define dm where "dm = max_return F R ?ld"
  have cost: "0 \<le> CostMap p v" for v using Suc.prems(1) by blast
  note MR = max_return_result [OF dm_def]
  have t: "topo_order F order" using assms(1) by (simp add: is_order_def)
  have L: "ld_inv p (entry_block F) (edges_from F (set order)) dm"
    using longestDistanceFrom_inv [OF assms(1) cost] MR(1,2) by (simp add: ld_inv_def dist_of_def)
  have closed: "s \<in> set order" if "b \<in> set order" "s \<in> set (fwd F b)" for b s
    using topo_order_closed [OF t that(1), of s] that(2) by (auto simp: fwd_edges_def)
  show ?case
  proof (cases "MaxDist dm \<le> thr")
    case True
    have "path_cost p (entry_block F # v # vs) \<le> thr"
      if path: "uninst_path F p (entry_block F # v # vs)" and R: "R (last (v # vs))" for v vs
    proof -
      have e: "entry_block F \<in> set order" using assms(1) by (simp add: is_order_def)
      have d: "dist_of dm (entry_block F) = CostMap p (entry_block F)" using ld_invD(1) [OF L] by (simp add: dist_of_def)
      moreover have "0 < CostMap p (entry_block F)" using path by (simp add: propagates_def)
      ultimately have l: "CostMap p (entry_block F) + path_cost p (v # vs) \<le> dist_of dm (last (v # vs))"
        using ld_path [OF L path e _ closed cost] by simp
      have "0 \<le> path_cost p (v # vs)" unfolding path_cost_def by (rule sum_list_nonneg) (use cost in auto)
      with l \<open>0 < CostMap p (entry_block F)\<close> obtain x where x: "DistanceMap dm (last (v # vs)) = Some x"
        by (auto simp: dist_of_def split: option.splits)
      have "set (entry_block F # v # vs) \<subseteq> set order" by (rule uninst_path_in [OF closed path e])
      then have "last (v # vs) \<in> set (blocks F)" using assms(4) last_in_set by fastforce
      then have "x \<le> MaxDist dm" using MR(4) [OF _ R] x MR(1) by simp
      with l x True show ?thesis by (simp add: path_cost_def dist_of_def)
    qed
    then have "e2e_ok F R order thr p" by (simp add: e2e_ok_def)
    with True show ?thesis unfolding dm_def by (simp add: Let_def refines_def)
  next
    case False
    then have pos: "0 < MaxDist dm" using assms(3) by linarith
    note M = MR(5) [OF this]
    have "MaxBB dm \<in> set order"
    proof (cases "MaxBB dm = entry_block F")
      case ne: False
      with ld_invD(4) [OF L ne M pos] closed show ?thesis by (auto simp: edges_from_def)
    qed (use assms(1) in \<open>simp add: is_order_def\<close>)
    then obtain xs ys where o: "order = xs @ MaxBB dm # ys" by (meson split_list)
    have "length order = length xs + Suc (length ys)" by (subst o) simp
    then have lx: "length xs < length order" by linarith
    have dM: "thr \<le> dist_of dm (MaxBB dm)" "0 < dist_of dm (MaxBB dm)" using M False pos by (simp_all add: dist_of_def)
    from decide_e2e [OF L t assms(3) o lx dM] show ?thesis
    proof
      assume "decideInstLocations (length order) dm (MaxBB dm) thr = Some (Inr (entry_block F))"
      then have "e2e_loop (Suc n) thr F R order p = Some (inst_out_edges F (entry_block F) p)"
        using False unfolding dm_def by (simp add: Let_def)
      moreover have "e2e_ok F R order thr (inst_out_edges F (entry_block F) p)"
        using inst_out_edges_spec [of F "entry_block F" p] by (auto simp: e2e_ok_def propagates_def fwd_def)
      ultimately show ?thesis using inst_out_edges_spec by blast
    next
      assume "\<exists>u v. decideInstLocations (length order) dm (MaxBB dm) thr = Some (Inl (u, v)) \<and>
        (u, v) \<in> edges_from F (set order) \<and> propagates p u v"
      then obtain u v where e: "decideInstLocations (length order) dm (MaxBB dm) thr = Some (Inl (u, v))"
        "(u, v) \<in> edges_from F (set order)" "propagates p u v" by blast
      have "card (uninst_edges F order (inst_edge (u, v) p)) < n" using uninst_edges_less [OF e(2,3)] Suc.prems(2) by linarith
      then obtain p' where "e2e_loop n thr F R order (inst_edge (u, v) p) = Some p'" "refines p' (inst_edge (u, v) p)"
        "e2e_ok F R order thr p'" using Suc.IH [of "inst_edge (u, v) p"] cost by (auto simp: inst_edge_def)
      with e(1) False show ?thesis unfolding dm_def by (auto simp: Let_def intro: refines_inst_edge)
    qed
  qed
qed simp

section \<open>The whole placement\<close>

text \<open>What \<^verbatim>\<open>initializeFunc\<close> and \<^verbatim>\<open>populateCostMap\<close> leave for the placement of one function.\<close>

definition initializeFunc :: "(nat \<Rightarrow> int) \<Rightarrow> placement" where
  "initializeFunc costs = \<lparr> CostMap = costs, EdgeInstMap = (\<lambda>_. UNINST), InstrumentedBB = [], NumEdgeInst = 0 \<rparr>"

text \<open>Nothing has a negative cost.\<close>

definition costs_ok :: "pass_cfg \<Rightarrow> lib_info \<Rightarrow> bool" where
  "costs_ok c L \<longleftrightarrow> 0 < CommitInterval c \<and> 0 \<le> ExtLibFuncCost c \<and> 0 \<le> MemOpsCost c \<and> 0 \<le> FMulDivCost c \<and>
     (\<forall>f k. LibraryInstructionCosts L f = Some k \<longrightarrow> 0 \<le> k) \<and>
     (\<forall>f fi. computedFuncInfo L f = Some fi \<longrightarrow> 0 \<le> MaxUnistDist fi)"

lemma costs_okD:
  assumes "costs_ok c L"
  shows "0 < CommitInterval c" "0 \<le> ExtLibFuncCost c" "0 \<le> MemOpsCost c" "0 \<le> FMulDivCost c"
    "LibraryInstructionCosts L f = Some k \<Longrightarrow> 0 \<le> k" "computedFuncInfo L f = Some fi \<Longrightarrow> 0 \<le> MaxUnistDist fi"
  using assms unfolding costs_ok_def by blast+

lemma getCallCost_nonneg:
  assumes "costs_ok c L" shows "0 \<le> getCallCost c L callee intr"
proof (cases callee)
  case (Some f)
  show ?thesis
  proof (cases "LibraryInstructionCosts L f")
    case None
    with Some costs_okD(1,2) [OF assms] show ?thesis by (simp add: getCallCost_def)
  next
    case (Some k)
    have "0 \<le> MaxUnistDist fi" if "(if LoopCostMode L then computedFuncInfo L f else None) = Some fi" for fi
      using costs_okD(6) [OF assms] that by (simp split: if_splits)
    with \<open>callee = Some f\<close> Some costs_okD(5) [OF assms Some] show ?thesis
      unfolding getCallCost_def by (simp split: option.split)
  qed
qed (simp add: getCallCost_def)

lemma getInstructionCost_nonneg: "costs_ok c L \<Longrightarrow> 0 \<le> getInstructionCost c L i"
  by (cases i) (simp_all add: getInstructionCost_def getCallCost_nonneg costs_okD(3,4))

lemma populateCostMap_range:
  assumes "costs_ok c L"
  shows "0 \<le> populateCostMap c L body b \<and> populateCostMap c L body b < CommitInterval c"
proof -
  have "0 \<le> sum_list (map (getInstructionCost c L) xs)" for xs
    using getInstructionCost_nonneg [OF assms] by (induction xs) auto
  with assms show ?thesis by (auto simp: populateCostMap_def Let_def costs_ok_def)
qed

lemma populateEdgeInstMap_cost [simp]:
  "CostMap (populateEdgeInstMap F p) = CostMap p" "InstrumentedBB (populateEdgeInstMap F p) = InstrumentedBB p"
proof -
  let ?f = "\<lambda>e p. p\<lparr> EdgeInstMap := (EdgeInstMap p)(e := LOOP_INST), NumEdgeInst := NumEdgeInst p + 1 \<rparr>"
  have "CostMap (fold ?f es q) = CostMap q \<and> InstrumentedBB (fold ?f es q) = InstrumentedBB q" for es and q :: placement
    by (induction es arbitrary: q) auto
  then show "CostMap (populateEdgeInstMap F p) = CostMap p" "InstrumentedBB (populateEdgeInstMap F p) = InstrumentedBB p"
    by (simp_all add: populateEdgeInstMap_def)
qed

lemma initializeFunc_cost [simp]: "CostMap (initializeFunc costs) = costs"
  by (simp add: initializeFunc_def)

lemma e2e_ok_refines: "refines p' p \<Longrightarrow> e2e_ok F R order thr p \<Longrightarrow> e2e_ok F R order thr p'"
proof -
  assume r: "refines p' p" and e: "e2e_ok F R order thr p"
  have "path_cost p' vs = path_cost p vs" for vs using r by (simp add: path_cost_def refines_def)
  with e refines_path [OF r] show ?thesis unfolding e2e_ok_def by (intro allI impI) metis
qed

lemma card_uninst_edges_refines: "refines p' p \<Longrightarrow> card (uninst_edges F order p') \<le> card (uninst_edges F order p)"
  by (rule card_mono) (auto simp: uninst_edges_def refines_def intro: rev_finite_subset [OF finite_edges_from])

text \<open>Both loops are given the same fuel: each of their rounds instruments a forward edge.\<close>

lemma generateInst_ends:
  assumes "is_order F order" and "\<And>v. 0 \<le> CostMap p v \<and> CostMap p v < CommitInterval c" and "0 \<le> MaxE2EUninst c"
    and "set order \<subseteq> set (blocks F)" and "card (uninst_edges F order p) < n"
  shows "\<exists>p'. generateInst n c F R order p = Some p' \<and> refines p' p \<and> e2e_ok F R order (MaxE2EUninst c) p' \<and>
     (\<forall>vs. uninst_path F p' vs \<longrightarrow> set vs \<subseteq> set order \<longrightarrow> path_cost p' vs \<le> CommitInterval c)"
proof -
  from e2e_loop_ends [OF assms(1) _ assms(3-5)] assms(2) obtain p1 where
    p1: "e2e_loop n (MaxE2EUninst c) F R order p = Some p1" "refines p1 p" "e2e_ok F R order (MaxE2EUninst c) p1" by blast
  then have c1: "CostMap p1 = CostMap p" by (simp add: refines_def)
  have "card (uninst_edges F order p1) < n" using card_uninst_edges_refines [OF p1(2), of F order] assms(5) by linarith
  from inst_loop_ends [OF assms(1) _ this] assms(2) c1 obtain p2 where
    p2: "inst_loop n c F order p1 = Some p2" "refines p2 p1" "MaxDist (generateDistanceMap F p2 order) \<le> CommitInterval c"
    by metis
  have c2: "\<And>v. 0 \<le> CostMap p2 v" using p2(2) c1 assms(2) by (simp add: refines_def)
  have "path_cost p2 vs \<le> CommitInterval c" if "uninst_path F p2 vs" "set vs \<subseteq> set order" for vs
    using uninst_path_bound [OF assms(1) c2 that] p2(3) by linarith
  with p1 p2 show ?thesis
    by (auto simp: generateInst_def intro: refines_trans e2e_ok_refines)
qed

lemma edges_from_card:
  assumes "set order \<subseteq> set (blocks F)" and "distinct (blocks F)"
  shows "card (uninst_edges F order p) \<le> sum_list (map (\<lambda>b. length (succs F b)) (blocks F))"
proof -
  have fin: "finite (\<Union>b \<in> set (blocks F). Pair b ` set (succs F b))" by simp
  have "uninst_edges F order p \<subseteq> (\<Union>b \<in> set (blocks F). Pair b ` set (succs F b))"
    using assms(1) by (auto simp: uninst_edges_def edges_from_def fwd_def)
  then have "card (uninst_edges F order p) \<le> card (\<Union>b \<in> set (blocks F). Pair b ` set (succs F b))" by (rule card_mono [OF fin])
  also have "\<dots> \<le> (\<Sum>b \<in> set (blocks F). card (Pair b ` set (succs F b)))" by (rule card_UN_le) simp
  also have "\<dots> \<le> (\<Sum>b \<in> set (blocks F). length (succs F b))"
    by (rule sum_mono) (meson card_image_le card_length finite_set order_trans)
  finally show ?thesis using assms(2) by (simp add: sum.distinct_set_conv_list)
qed

lemma runToposort_blocks:
  assumes "wf_func F" and "runToposort F = Some (True, st)" shows "set (SortedBBs st) \<subseteq> set (blocks F)"
proof -
  have "b \<in> set (blocks F)" if "(entry_block F, b) \<in> (fwd_edges F)\<^sup>*" for b
    using that by (induction rule: rtrancl_induct)
      (use assms(1) in \<open>auto simp: wf_func_def fwd_edges_def fwd_def list_all_iff\<close>)
  with runToposort_spec [OF assms(2)] show ?thesis by auto
qed

section \<open>Probes inside an expensive block\<close>

lemma InstructionToProbe_length [simp]: "length (InstructionToProbe intv t ks) = length ks"
  by (induction intv t ks rule: InstructionToProbe.induct) auto

lemma probe_free_prefix:
  assumes "j < length ks" and "\<forall>i \<le> j. \<not> InstructionToProbe intv t ks ! i"
  shows "t + sum_list (take (Suc j) ks) < intv"
  using assms
proof (induction intv t ks arbitrary: j rule: InstructionToProbe.induct)
  case (2 intv t k ks)
  have lt: "\<not> intv \<le> t + k" using 2(4) by (auto split: if_splits)
  show ?case
  proof (cases j)
    case (Suc m)
    have "\<forall>i \<le> m. \<not> InstructionToProbe intv (t + k) ks ! i" using 2(4) lt Suc by (auto dest: spec [of _ "Suc _"])
    with 2(2) [OF lt, of m] 2(3) Suc show ?thesis by simp
  qed (use lt in simp)
qed simp

lemma probe_free_segment:
  assumes "0 \<le> t" and "i < j" and "j < length ks" and "\<forall>m. i < m \<and> m \<le> j \<longrightarrow> \<not> InstructionToProbe intv t ks ! m"
    and "\<forall>k \<in> set ks. 0 \<le> k"
  shows "sum_list (take (Suc (j - i)) (drop i ks)) < intv"
  using assms
proof (induction ks arbitrary: t i j)
  case (Cons k ks)
  obtain l where j: "j = Suc l" using Cons.prems(2) by (cases j) auto
  let ?t = "if intv \<le> t + k then k else t + k"
  have tl: "InstructionToProbe intv t (k # ks) ! Suc m = InstructionToProbe intv ?t ks ! m" for m by simp
  have t: "0 \<le> ?t" "k \<le> ?t" using Cons.prems(1,5) by auto
  show ?case
  proof (cases i)
    case 0
    have "\<forall>m \<le> l. \<not> InstructionToProbe intv ?t ks ! m" using Cons.prems(4) tl 0 j by (metis Suc_le_mono zero_less_Suc)
    with probe_free_prefix [of l ks intv ?t] Cons.prems(3) j t 0 show ?thesis by simp
  next
    case (Suc h)
    have "\<forall>m. h < m \<and> m \<le> l \<longrightarrow> \<not> InstructionToProbe intv ?t ks ! m" using Cons.prems(4) tl Suc j by (metis Suc_le_mono Suc_less_eq)
    with Cons.IH [of ?t h l] Cons.prems t j Suc show ?thesis by simp
  qed
qed simp

section \<open>Properties\<close>

text \<open>
  C23. Probe placement ends and bounds every probe-free stretch. For a function whose forward edges
  have no cycle, the two loops of \<^verbatim>\<open>generateInst\<close>, started from the costs and loop probes that
  the earlier phases compute, reach their exits after at most as many rounds as there are edges.
  The costs are still those computed before. No path that meets no probe costs more than
  \<^verbatim>\<open>CommitInterval\<close>, and a probe-free path from the entry to a return block costs at most
  \<^verbatim>\<open>MaxE2EUninst\<close> if it has an edge. A path without one, when the entry block itself returns,
  gets no probe at its end: it costs what the block costs, which is only known to be less than
  \<^verbatim>\<open>CommitInterval\<close>.
\<close>

theorem generateInst_bounds_gaps:
  assumes "wf_func F" and "runToposort F = Some (True, st)" and "costs_ok c L" and "0 \<le> MaxE2EUninst c"
    and "sum_list (map (\<lambda>b. length (succs F b)) (blocks F)) < n"
  shows "\<exists>p. generateInst n c F is_return (rev (SortedBBs st)) (populateEdgeInstMap F (initializeFunc (populateCostMap c L body))) = Some p \<and>
     CostMap p = populateCostMap c L body \<and>
     (\<forall>vs. uninst_path F p vs \<and> set vs \<subseteq> set (SortedBBs st) \<longrightarrow> path_cost p vs \<le> CommitInterval c) \<and>
     (\<forall>vs. uninst_path F p (entry_block F # vs) \<and> is_return (last (entry_block F # vs)) \<longrightarrow>
        path_cost p (entry_block F # vs) \<le>
          (if vs = [] then populateCostMap c L body (entry_block F) else MaxE2EUninst c)) \<and>
     populateCostMap c L body (entry_block F) < CommitInterval c"
proof -
  let ?o = "rev (SortedBBs st)" and ?p = "populateEdgeInstMap F (initializeFunc (populateCostMap c L body))"
  have o: "is_order F ?o" "set ?o \<subseteq> set (blocks F)" using runToposort_order [OF assms(2)] runToposort_blocks [OF assms(1,2)] by auto
  have r: "0 \<le> CostMap ?p v \<and> CostMap ?p v < CommitInterval c" for v using populateCostMap_range [OF assms(3)] by simp
  have "card (uninst_edges F ?o ?p) < n" using edges_from_card [OF o(2), of ?p] assms(1,5) unfolding wf_func_def by linarith
  from generateInst_ends [OF o(1) r assms(4) o(2) this, of is_return] obtain p where
    p: "generateInst n c F is_return ?o ?p = Some p" "refines p ?p" "e2e_ok F is_return ?o (MaxE2EUninst c) p"
      "\<forall>vs. uninst_path F p vs \<longrightarrow> set vs \<subseteq> set ?o \<longrightarrow> path_cost p vs \<le> CommitInterval c" by blast
  have cost: "CostMap p = populateCostMap c L body" using p(2) by (simp add: refines_def)
  have "path_cost p (entry_block F # vs) \<le>
          (if vs = [] then populateCostMap c L body (entry_block F) else MaxE2EUninst c)"
    if "uninst_path F p (entry_block F # vs)" "is_return (last (entry_block F # vs))" for vs
    using that p(3) cost by (cases vs) (auto simp: e2e_ok_def path_cost_def)
  moreover have "populateCostMap c L body (entry_block F) < CommitInterval c"
    using populateCostMap_range [OF assms(3)] by simp
  ultimately show ?thesis using p(1,4) cost unfolding set_rev by blast
qed

definition demo_cfg :: pass_cfg where
  "demo_cfg = \<lparr> CommitInterval = 5, ExtLibFuncCost = 100, MemOpsCost = 1, FMulDivCost = 1, MaxE2EUninst = 4,
     FuncCallThreshold = 10 \<rparr>"

definition demo_lib :: lib_info where
  "demo_lib = \<lparr> LibraryInstructionCosts = (\<lambda>_. None), computedFuncInfo = (\<lambda>_. None), LoopCostMode = False,
     ExpensiveExtLibCalls = readExpensiveExtLibCalls, IgnoreExtLibCalls = readIgnoreExtLibCalls \<rparr>"

definition demo_body :: "nat \<Rightarrow> inst list" where
  "demo_body b = [NoOp, MemOp, Plain, Plain]"

lemma demo_costs_ok: "costs_ok demo_cfg demo_lib"
  by (simp add: costs_ok_def demo_cfg_def demo_lib_def)

theorem generateInst_bounds_gaps_witness:
  "\<exists>st p. runToposort demo_func = Some (True, st) \<and>
     generateInst 6 demo_cfg demo_func (\<lambda>b. b = 3) (rev (SortedBBs st))
       (populateEdgeInstMap demo_func (initializeFunc (populateCostMap demo_cfg demo_lib demo_body))) = Some p \<and>
     (\<forall>vs. uninst_path demo_func p vs \<and> set vs \<subseteq> set (SortedBBs st) \<longrightarrow> path_cost p vs \<le> 5)"
proof -
  have wf: "wf_func demo_func" by code_simp
  have "map_option fst (runToposort demo_func) = Some True" by code_simp
  then obtain st where st: "runToposort demo_func = Some (True, st)" by auto
  have e: "0 \<le> MaxE2EUninst demo_cfg" "sum_list (map (\<lambda>b. length (succs demo_func b)) (blocks demo_func)) < 6"
    "CommitInterval demo_cfg = 5" by (simp_all add: demo_cfg_def demo_func_def)
  show ?thesis using generateInst_bounds_gaps [OF wf st demo_costs_ok e(1,2), of "\<lambda>b. b = 3" demo_body] st unfolding e(3) by blast
qed

text \<open>
  A function of a single block that costs more than \<^verbatim>\<open>MaxE2EUninst\<close>: the loop asks for a probe,
  finds no edge to put it on, and leaves the function without one.
\<close>

lemma single_block_unprobed:
  "populateCostMap demo_cfg demo_lib demo_body 0 = 3 \<and>
   map_option NumEdgeInst (generateInst 1 (demo_cfg\<lparr> MaxE2EUninst := 2 \<rparr>)
     \<lparr> blocks = [0], entry_block = 0, succs = (\<lambda>_. []), back_edges = [] \<rparr> (\<lambda>_. True) [0]
     (populateEdgeInstMap \<lparr> blocks = [0], entry_block = 0, succs = (\<lambda>_. []), back_edges = [] \<rparr>
        (initializeFunc (populateCostMap demo_cfg demo_lib demo_body)))) = Some 0"
  by code_simp

text \<open>
  C24. Every block cost lies between 0 and \<^verbatim>\<open>CommitInterval\<close>, and a block gets cost 0 only if
  all its instructions are free or it is expensive: then probes are put inside it. Between two
  probes of an expensive block, and before its first one, the instructions that follow the first
  cost less than \<^verbatim>\<open>CommitInterval\<close> together with it, unless there is just one; and there is at
  least one probe.
\<close>

theorem expensive_blocks_probed:
  assumes "costs_ok c L" and "ks = map (getInstructionCost c L) (body b)" and "ps = InstructionToProbe (CommitInterval c) 0 ks"
  shows "0 \<le> populateCostMap c L body b \<and> populateCostMap c L body b < CommitInterval c \<and>
     (populateCostMap c L body b = 0 \<longrightarrow> set ks \<subseteq> {0} \<or> True \<in> set ps) \<and>
     (\<forall>i j. i < j \<and> j < length ks \<and> (\<forall>m. i < m \<and> m \<le> j \<longrightarrow> \<not> ps ! m) \<longrightarrow>
        sum_list (take (Suc (j - i)) (drop i ks)) < CommitInterval c)"
proof -
  have nn: "\<forall>k \<in> set ks. 0 \<le> k" using getInstructionCost_nonneg [OF assms(1)] assms(2) by auto
  have "True \<in> set ps" if "CommitInterval c \<le> sum_list ks"
  proof (rule ccontr)
    assume n: "True \<notin> set ps"
    have ne: "ks \<noteq> []" using that costs_okD(1) [OF assms(1)] by auto
    have "\<forall>i \<le> length ks - 1. \<not> ps ! i"
    proof (intro allI impI)
      fix i assume "i \<le> length ks - 1"
      with ne have "i < length ps" unfolding assms(3) by (cases ks) auto
      with n show "\<not> ps ! i" by (metis nth_mem)
    qed
    from probe_free_prefix [of "length ks - 1" ks "CommitInterval c" 0] this ne that show False unfolding assms(3) by simp
  qed
  moreover have "set ks \<subseteq> {0}" if "sum_list ks = 0" using that nn sum_list_nonneg_eq_0_iff [of ks] by auto
  ultimately have "set ks \<subseteq> {0} \<or> True \<in> set ps" if "populateCostMap c L body b = 0"
    using that unfolding populateCostMap_def Let_def assms(2) [symmetric] by (auto split: if_splits)
  moreover have "sum_list (take (Suc (j - i)) (drop i ks)) < CommitInterval c"
    if "i < j" "j < length ks" "\<forall>m. i < m \<and> m \<le> j \<longrightarrow> \<not> ps ! m" for i j
    by (rule probe_free_segment [OF order_refl that(1,2) that(3) [unfolded assms(3)] nn])
  ultimately show ?thesis using populateCostMap_range [OF assms(1)] by blast
qed

theorem expensive_blocks_probed_witness:
  "populateCostMap demo_cfg demo_lib (\<lambda>_. replicate 7 Plain) 0 = 0 \<and>
   True \<in> set (InstructionToProbe (CommitInterval demo_cfg) 0 (map (getInstructionCost demo_cfg demo_lib) (replicate 7 Plain)))"
proof -
  have "populateCostMap demo_cfg demo_lib (\<lambda>_. replicate 7 Plain) 0 = 0"
    "map (getInstructionCost demo_cfg demo_lib) (replicate 7 Plain) = replicate 7 1"
    by (simp_all add: populateCostMap_def getInstructionCost_def demo_cfg_def sum_list_replicate)
  moreover have "\<not> set (replicate 7 (1 :: int)) \<subseteq> {0}" by simp
  ultimately show ?thesis using expensive_blocks_probed [OF demo_costs_ok refl refl, of "\<lambda>_. replicate 7 Plain" 0] by metis
qed

end
