(* ===== verification/Coding.thy ===== *)
theory Coding
  imports Prelude
begin

unbundle bit_operations_syntax

text \<open>
  The byte encodings of the storage engine, \<^verbatim>\<open>util/coding.h\<close> and \<^verbatim>\<open>util/coding.cc\<close>:
  little-endian words of fixed width, numbers in groups of seven bits, and slices prefixed by
  their length. A slice is the list of its bytes; a \<^verbatim>\<open>Get\<close> routine returns the value and the
  rest of its input, or \<^term>\<open>None\<close> where the code returns false or a null pointer. Sizes of
  slices are natural numbers; where the code narrows them to 32 bits the model does too.
\<close>

section \<open>Bits and arithmetic\<close>

lemma unat_drop_bit: "unat (drop_bit n v) = unat v div 2 ^ n" for v :: "'a::len word"
  unfolding unsigned_drop_bit_eq by (simp add: drop_bit_eq_div take_bit_nat_eq_self)

lemma unat_take_bit: "unat (take_bit n v) = unat v mod 2 ^ n" for v :: "'a::len word"
  unfolding unsigned_take_bit_eq by (simp add: take_bit_eq_mod)

lemma and_127: "v AND 127 = take_bit 7 v" for v :: "'a::len word"
  by (simp only: take_bit_eq_mask) (simp add: mask_numeral)

lemma and_128: "v AND 128 \<noteq> 0 \<longleftrightarrow> bit v 7" for v :: "'a::len word"
  using and_exp_eq_0_iff_not_bit [of v 7] by simp

lemma bit_7_byte: "bit (b :: byte) 7 \<longleftrightarrow> 128 \<le> unat b"
proof -
  have "unat b < 2 ^ LENGTH(8)" by (rule unsigned_less)
  then have lt: "unat b < 256" by simp
  have "bit b 7 \<longleftrightarrow> bit (unat b) 7" by (simp only: bit_unsigned_iff) (simp add: possible_bit_def)
  also have "\<dots> \<longleftrightarrow> odd (unat b div 128)" by (simp add: bit_nat_def)
  also have "unat b div 128 = (if 128 \<le> unat b then 1 else 0)" using lt by (auto intro: div_nat_eqI)
  finally show ?thesis by (simp split: if_splits)
qed

lemma or_128_byte: "ucast (v OR 128) = (of_nat (unat v mod 128 + 128) :: byte)" if "8 \<le> LENGTH('a)" for v :: "'a::len word"
proof -
  have "take_bit 7 (unat v) AND 2 ^ 7 = 0" by (simp only: and_exp_eq_0_iff_not_bit) (simp add: bit_simps)
  then have "take_bit 7 (unat v) + 2 ^ 7 = take_bit 7 (unat v) OR 2 ^ 7" by (rule disjunctive_add_eq_or)
  then have e: "unat v mod 128 + 128 = take_bit 7 (unat v) OR 2 ^ 7" by (simp add: take_bit_eq_mod)
  have "bit (ucast (v OR 2 ^ 7) :: byte) n \<longleftrightarrow> bit (of_nat (take_bit 7 (unat v) OR 2 ^ 7) :: byte) n" if "n < 8" for n
    using that \<open>8 \<le> LENGTH('a)\<close> by (simp only: bit_simps) auto
  then have "ucast (v OR 2 ^ 7) = (of_nat (take_bit 7 (unat v) OR 2 ^ 7) :: byte)" by (intro bit_word_eqI) simp
  then show ?thesis by (simp add: e)
qed

lemma push_split: "push_bit s (of_nat n) = push_bit s (of_nat (n mod 128)) OR push_bit (s + 7) (of_nat (n div 128) :: 'a::len word)"
proof -
  have "bit (push_bit s (of_nat n) :: 'a word) i \<longleftrightarrow>
      bit (push_bit s (of_nat (take_bit 7 n)) OR push_bit (s + 7) (of_nat (drop_bit 7 n) :: 'a::len word)) i" for i
    by (cases "i < s + 7") (auto simp: bit_simps not_less less_diff_conv2)
  then show ?thesis by (simp add: bit_eq_iff take_bit_eq_mod drop_bit_eq_div)
qed

section \<open>Words of fixed width\<close>

definition EncodeFixed32 :: "u32 \<Rightarrow> byte list" where
  "EncodeFixed32 value = [ucast value, ucast (drop_bit 8 value), ucast (drop_bit 16 value), ucast (drop_bit 24 value)]"

definition EncodeFixed64 :: "u64 \<Rightarrow> byte list" where
  "EncodeFixed64 value = [ucast value, ucast (drop_bit 8 value), ucast (drop_bit 16 value), ucast (drop_bit 24 value),
     ucast (drop_bit 32 value), ucast (drop_bit 40 value), ucast (drop_bit 48 value), ucast (drop_bit 56 value)]"

definition PutFixed32 :: "byte list \<Rightarrow> u32 \<Rightarrow> byte list" where
  "PutFixed32 dst value = dst @ EncodeFixed32 value"

definition PutFixed64 :: "byte list \<Rightarrow> u64 \<Rightarrow> byte list" where
  "PutFixed64 dst value = dst @ EncodeFixed64 value"

text \<open>The callers make sure that there are enough bytes.\<close>

definition DecodeFixed32 :: "byte list \<Rightarrow> u32" where
  "DecodeFixed32 buffer = ucast (buffer ! 0) OR push_bit 8 (ucast (buffer ! 1)) OR
     push_bit 16 (ucast (buffer ! 2)) OR push_bit 24 (ucast (buffer ! 3))"

definition DecodeFixed64 :: "byte list \<Rightarrow> u64" where
  "DecodeFixed64 buffer = ucast (buffer ! 0) OR push_bit 8 (ucast (buffer ! 1)) OR
     push_bit 16 (ucast (buffer ! 2)) OR push_bit 24 (ucast (buffer ! 3)) OR
     push_bit 32 (ucast (buffer ! 4)) OR push_bit 40 (ucast (buffer ! 5)) OR
     push_bit 48 (ucast (buffer ! 6)) OR push_bit 56 (ucast (buffer ! 7))"

section \<open>Numbers of variable length\<close>

definition EncodeVarint32 :: "u32 \<Rightarrow> byte list" where
  "EncodeVarint32 v =
     (if v < push_bit 7 1 then [ucast v]
      else if v < push_bit 14 1 then [ucast (v OR 128), ucast (drop_bit 7 v)]
      else if v < push_bit 21 1 then [ucast (v OR 128), ucast (drop_bit 7 v OR 128), ucast (drop_bit 14 v)]
      else if v < push_bit 28 1
      then [ucast (v OR 128), ucast (drop_bit 7 v OR 128), ucast (drop_bit 14 v OR 128), ucast (drop_bit 21 v)]
      else [ucast (v OR 128), ucast (drop_bit 7 v OR 128), ucast (drop_bit 14 v OR 128), ucast (drop_bit 21 v OR 128),
            ucast (drop_bit 28 v)])"

definition PutVarint32 :: "byte list \<Rightarrow> u32 \<Rightarrow> byte list" where
  "PutVarint32 dst v = dst @ EncodeVarint32 v"

function EncodeVarint64 :: "u64 \<Rightarrow> byte list" where
  "EncodeVarint64 v = (if 128 \<le> v then ucast (v OR 128) # EncodeVarint64 (drop_bit 7 v) else [ucast v])"
  by auto
termination by (relation "measure unat") (simp_all add: unat_drop_bit word_le_nat_alt)

definition PutVarint64 :: "byte list \<Rightarrow> u64 \<Rightarrow> byte list" where
  "PutVarint64 dst v = dst @ EncodeVarint64 v"

definition PutLengthPrefixedSlice :: "byte list \<Rightarrow> byte list \<Rightarrow> byte list" where
  "PutLengthPrefixedSlice dst value = PutVarint32 dst (of_nat (length value)) @ value"

function VarintLength :: "u64 \<Rightarrow> nat" where
  "VarintLength v = (if 128 \<le> v then Suc (VarintLength (drop_bit 7 v)) else 1)"
  by auto
termination by (relation "measure unat") (simp_all add: unat_drop_bit word_le_nat_alt)

declare EncodeVarint64.simps [simp del] VarintLength.simps [simp del]

text \<open>The loop that \<^verbatim>\<open>GetVarint32PtrFallback\<close> and \<^verbatim>\<open>GetVarint64Ptr\<close> share.\<close>

fun varint_loop :: "nat \<Rightarrow> nat \<Rightarrow> 'a::len word \<Rightarrow> byte list \<Rightarrow> ('a word \<times> byte list) option" where
  "varint_loop last_shift shift result [] = None"
| "varint_loop last_shift shift result (b # p) =
     (if last_shift < shift then None
      else (let byte = ucast b in
            if byte AND 128 \<noteq> 0 then varint_loop last_shift (shift + 7) (result OR push_bit shift (byte AND 127)) p
            else Some (result OR push_bit shift byte, p)))"

definition GetVarint32PtrFallback :: "byte list \<Rightarrow> (u32 \<times> byte list) option" where
  "GetVarint32PtrFallback p = varint_loop 28 0 0 p"

definition GetVarint32Ptr :: "byte list \<Rightarrow> (u32 \<times> byte list) option" where
  "GetVarint32Ptr p =
     (case p of [] \<Rightarrow> GetVarint32PtrFallback p
      | b # q \<Rightarrow> (let result = ucast b in if result AND 128 = 0 then Some (result, q) else GetVarint32PtrFallback p))"

definition GetVarint32 :: "byte list \<Rightarrow> (u32 \<times> byte list) option" where
  "GetVarint32 input = GetVarint32Ptr input"

definition GetVarint64Ptr :: "byte list \<Rightarrow> (u64 \<times> byte list) option" where
  "GetVarint64Ptr p = varint_loop 63 0 0 p"

definition GetVarint64 :: "byte list \<Rightarrow> (u64 \<times> byte list) option" where
  "GetVarint64 input = GetVarint64Ptr input"

definition GetLengthPrefixedSlice :: "byte list \<Rightarrow> (byte list \<times> byte list) option" where
  "GetLengthPrefixedSlice input =
     (case GetVarint32 input of None \<Rightarrow> None
      | Some (len, rest) \<Rightarrow> if unat len \<le> length rest then Some (take (unat len) rest, drop (unat len) rest) else None)"

section \<open>Fixed-width words come back\<close>

lemma take_bit_next_byte:
  "take_bit k v OR push_bit k (ucast (ucast (drop_bit k v) :: byte)) = take_bit (k + 8) (v :: 'a::len word)"
proof -
  have "bit (take_bit k v OR push_bit k (ucast (ucast (drop_bit k v) :: byte))) i \<longleftrightarrow> bit (take_bit (k + 8) v) i" for i
  proof (cases "i < k")
    case False
    then have "i - k < 8 \<longleftrightarrow> i < k + 8" by linarith
    with False show ?thesis by (auto simp: bit_simps dest: bit_imp_le_length)
  qed (auto simp: bit_simps)
  then show ?thesis by (simp add: bit_eq_iff)
qed

lemma take_bit_first_byte: "ucast (ucast v :: byte) = take_bit 8 (v :: 'a::len word)"
  using take_bit_next_byte [of 0 v] by simp

lemma DecodeFixed32_EncodeFixed32 [simp]: "DecodeFixed32 (EncodeFixed32 v @ rest) = v"
  using take_bit_next_byte [of 8 v] take_bit_next_byte [of 16 v] take_bit_next_byte [of 24 v]
  by (simp add: DecodeFixed32_def EncodeFixed32_def take_bit_first_byte take_bit_word_eq_self flip: or.assoc)

lemma DecodeFixed64_EncodeFixed64 [simp]: "DecodeFixed64 (EncodeFixed64 v @ rest) = v"
  using take_bit_next_byte [of 8 v] take_bit_next_byte [of 16 v] take_bit_next_byte [of 24 v]
    take_bit_next_byte [of 32 v] take_bit_next_byte [of 40 v] take_bit_next_byte [of 48 v] take_bit_next_byte [of 56 v]
  by (simp add: DecodeFixed64_def EncodeFixed64_def take_bit_first_byte take_bit_word_eq_self flip: or.assoc)

lemma length_EncodeFixed [simp]: "length (EncodeFixed32 v) = 4" "length (EncodeFixed64 w) = 8"
  by (simp_all add: EncodeFixed32_def EncodeFixed64_def)

section \<open>Varints come back\<close>

text \<open>The reference: groups of seven bits, least significant first, all but the last marked.\<close>

fun varint_bytes :: "nat \<Rightarrow> byte list" where
  "varint_bytes n = (if n < 128 then [of_nat n] else of_nat (n mod 128 + 128) # varint_bytes (n div 128))"

declare varint_bytes.simps [simp del]

lemma EncodeVarint64_bytes: "EncodeVarint64 v = varint_bytes (unat v)"
proof (induction v rule: EncodeVarint64.induct)
  case (1 v)
  show ?case
  proof (cases "128 \<le> v")
    case True
    then have "\<not> unat v < 128" by (simp add: word_le_nat_alt)
    with 1 [OF True] True show ?thesis
      by (subst EncodeVarint64.simps, subst varint_bytes.simps) (simp add: or_128_byte unat_drop_bit)
  next
    case False
    then have "unat v < 128" by (simp add: word_le_nat_alt)
    with False show ?thesis by (subst EncodeVarint64.simps, subst varint_bytes.simps) simp
  qed
qed

lemma ucast_drop_bit: "ucast (drop_bit k v) = (of_nat (unat v div 2 ^ k) :: byte)" for v :: u32
  by (simp only: unat_drop_bit [symmetric] ucast_eq_of_nat)

lemma ucast_drop_bit_or: "ucast (drop_bit k v OR 128) = (of_nat (unat v div 2 ^ k mod 128 + 128) :: byte)" for v :: u32
  by (simp only: unat_drop_bit [symmetric] or_128_byte) (simp add: or_128_byte)

lemma varint_bytes_Cons: "128 \<le> n \<Longrightarrow> varint_bytes n = of_nat (n mod 128 + 128) # varint_bytes (n div 128)"
  by (subst varint_bytes.simps) simp

lemma varint_bytes_single: "n < 128 \<Longrightarrow> varint_bytes n = [of_nat n]"
  by (subst varint_bytes.simps) simp

lemma EncodeVarint32_bytes: "EncodeVarint32 v = varint_bytes (unat v)"
proof -
  have lim: "(v < push_bit 7 1) = (unat v < 128)" "(v < push_bit 14 1) = (unat v < 16384)"
    "(v < push_bit 21 1) = (unat v < 2097152)" "(v < push_bit 28 1) = (unat v < 268435456)"
    by (simp_all add: word_less_nat_alt)
  have "unat v < 2 ^ LENGTH(32)" by (rule unsigned_less)
  then have lt: "unat v < 4294967296" by simp
  have first: "ucast (v OR 128) = (of_nat (unat v mod 128 + 128) :: byte)" "ucast v = (of_nat (unat v) :: byte)"
    using or_128_byte [of v] by simp_all
  consider "unat v < 128" | "128 \<le> unat v" "unat v < 16384" | "16384 \<le> unat v" "unat v < 2097152"
    | "2097152 \<le> unat v" "unat v < 268435456" | "268435456 \<le> unat v" by linarith
  then show ?thesis
    unfolding EncodeVarint32_def lim ucast_drop_bit ucast_drop_bit_or first
    by cases (use lt in \<open>simp_all add: varint_bytes_Cons varint_bytes_single div_mult2_eq [symmetric] less_mult_imp_div_less\<close>)
qed

lemma byte_mark: "(ucast (b :: byte) :: 'a::len word) AND 128 \<noteq> 0 \<longleftrightarrow> 128 \<le> unat b" if "8 \<le> LENGTH('a)"
  unfolding and_128 using that by (simp add: bit_simps bit_7_byte [symmetric])

lemma byte_group: "(ucast (b :: byte) :: 'a::len word) AND 127 = of_nat (unat b mod 128)" if "8 \<le> LENGTH('a)"
proof -
  have "ucast b AND 127 = (of_nat (take_bit 7 (unat b)) :: 'a word)" unfolding and_127
    by (rule bit_word_eqI) (auto simp: bit_simps)
  then show ?thesis by (simp add: take_bit_eq_mod)
qed

lemma varint_loop_last:
  "n < 128 \<Longrightarrow> shift \<le> last_shift \<Longrightarrow> 8 \<le> LENGTH('a) \<Longrightarrow>
     varint_loop last_shift shift (result :: 'a::len word) (of_nat n # rest) = Some (result OR push_bit shift (of_nat n), rest)"
  using byte_mark [of "of_nat n", where 'a = 'a] by (simp add: unat_of_nat_small ucast_eq_of_nat del: unsigned_of_nat)

lemma varint_loop_more:
  "m < 128 \<Longrightarrow> shift \<le> last_shift \<Longrightarrow> 8 \<le> LENGTH('a) \<Longrightarrow>
     varint_loop last_shift shift (result :: 'a::len word) (of_nat (m + 128) # p) =
     varint_loop last_shift (shift + 7) (result OR push_bit shift (of_nat m)) p"
  using byte_mark [of "of_nat (m + 128)", where 'a = 'a] byte_group [of "of_nat (m + 128)", where 'a = 'a]
  by (simp add: unat_of_nat_small del: of_nat_add)

lemma varint_loop_bytes:
  assumes "n < 128 ^ Suc k" and "shift + 7 * k \<le> last_shift" and "8 \<le> LENGTH('a::len)"
  shows "varint_loop last_shift shift (result :: 'a word) (varint_bytes n @ rest) = Some (result OR push_bit shift (of_nat n), rest)"
  using assms(1,2)
proof (induction k arbitrary: n shift result)
  case 0
  then show ?case using varint_loop_last [OF _ _ assms(3)] by (simp add: varint_bytes_single)
next
  case (Suc k)
  show ?case
  proof (cases "n < 128")
    case False
    have "n div 128 < 128 ^ Suc k" using Suc.prems(1) by (simp add: less_mult_imp_div_less mult.commute)
    from Suc.IH [OF this, of "shift + 7"] Suc.prems(2) False show ?thesis
      using varint_loop_more [OF _ _ assms(3), of "n mod 128"] push_split [of shift n, where 'a = 'a]
      by (simp add: varint_bytes_Cons or.assoc del: of_nat_add)
  qed (use Suc.prems varint_loop_last [OF _ _ assms(3)] in \<open>simp add: varint_bytes_single\<close>)
qed

lemma GetVarint64_EncodeVarint64 [simp]: "GetVarint64 (EncodeVarint64 v @ rest) = Some (v, rest)"
proof -
  have "unat v < 2 ^ LENGTH(64)" by (rule unsigned_less)
  also have "(2 :: nat) ^ LENGTH(64) < 128 ^ Suc 9" by simp
  finally have lt: "unat v < 128 ^ Suc 9" .
  show ?thesis
    using varint_loop_bytes [OF lt, of 0 63, where result = "0 :: u64"]
    by (simp add: GetVarint64_def GetVarint64Ptr_def EncodeVarint64_bytes)
qed

lemma GetVarint32_EncodeVarint32 [simp]: "GetVarint32 (EncodeVarint32 v @ rest) = Some (v, rest)"
proof -
  have "unat v < 2 ^ LENGTH(32)" by (rule unsigned_less)
  also have "(2 :: nat) ^ LENGTH(32) < 128 ^ Suc 4" by simp
  finally have lt: "unat v < 128 ^ Suc 4" .
  have fallback: "GetVarint32PtrFallback (EncodeVarint32 v @ rest) = Some (v, rest)"
    using varint_loop_bytes [OF lt, of 0 28, where result = "0 :: u32"]
    by (simp add: GetVarint32PtrFallback_def EncodeVarint32_bytes)
  show ?thesis
  proof (cases "unat v < 128")
    case True
    define b :: byte where "b = of_nat (unat v)"
    have u: "unat b = unat v" unfolding b_def using True by (intro unat_of_nat_small) simp
    then have "ucast b = v" by (simp only: ucast_eq_of_nat) simp
    moreover have "EncodeVarint32 v = [b]" using True by (simp only: EncodeVarint32_bytes varint_bytes_single b_def)
    moreover have "(ucast b :: u32) AND 128 = 0" using byte_mark [of b, where 'a = 32] True u by simp
    ultimately show ?thesis by (simp add: GetVarint32_def GetVarint32Ptr_def)
  next
    case False
    then have "unat (of_nat (unat v mod 128 + 128) :: byte) = unat v mod 128 + 128" by (intro unat_of_nat_small) simp
    with False byte_mark [of "of_nat (unat v mod 128 + 128)", where 'a = 32] fallback show ?thesis
      by (simp add: GetVarint32_def GetVarint32Ptr_def EncodeVarint32_bytes varint_bytes_Cons Let_def del: of_nat_add)
  qed
qed

lemma varint_bytes_length: "n < 128 ^ Suc k \<Longrightarrow> length (varint_bytes n) \<le> Suc k"
proof (induction k arbitrary: n)
  case (Suc k)
  have "n div 128 < 128 ^ Suc k" using Suc.prems by (simp add: less_mult_imp_div_less mult.commute)
  with Suc.IH show ?case by (subst varint_bytes.simps) simp
qed (simp add: varint_bytes_single)

lemma VarintLength_bytes: "VarintLength v = length (EncodeVarint64 v)"
proof (induction v rule: VarintLength.induct)
  case (1 v)
  then show ?case by (subst VarintLength.simps, subst EncodeVarint64.simps) simp
qed

lemma EncodeVarint64_nonempty [simp]: "EncodeVarint64 v \<noteq> []"
  by (subst EncodeVarint64.simps) simp

lemma EncodeVarint32_nonempty [simp]: "EncodeVarint32 v \<noteq> []"
  by (simp add: EncodeVarint32_def)

lemma varint32_length: "length (EncodeVarint32 v) \<le> 5"
  by (simp add: EncodeVarint32_def)

lemma GetLengthPrefixedSlice_Put [simp]:
  assumes "length value < 2 ^ 32"
  shows "GetLengthPrefixedSlice (PutLengthPrefixedSlice [] value @ rest) = Some (value, rest)"
  using assms by (simp add: GetLengthPrefixedSlice_def PutLengthPrefixedSlice_def PutVarint32_def unat_of_nat_small)

lemma PutLengthPrefixedSlice_append: "PutLengthPrefixedSlice dst value = dst @ PutLengthPrefixedSlice [] value"
  by (simp add: PutLengthPrefixedSlice_def PutVarint32_def)

section \<open>Readers stay inside their input\<close>

lemma varint_loop_suffix: "varint_loop last_shift shift result p = Some (v, q) \<Longrightarrow> \<exists>n \<ge> 1. n \<le> length p \<and> q = drop n p"
proof (induction last_shift shift result p rule: varint_loop.induct)
  case (2 last_shift shift result b p)
  show ?case
  proof (cases "(ucast b :: 'a word) AND 128 = 0")
    case True
    with 2(2) have "q = drop 1 (b # p)" by (simp add: Let_def split: if_splits)
    then show ?thesis by (intro exI [of _ 1]) simp
  next
    case False
    with 2 obtain n where "n \<le> length p" "q = drop n p" by (fastforce simp: Let_def split: if_splits)
    then show ?thesis by (intro exI [of _ "Suc n"]) simp
  qed
qed simp

lemma GetVarint64_suffix: "GetVarint64 p = Some (v, q) \<Longrightarrow> \<exists>n \<ge> 1. n \<le> length p \<and> q = drop n p"
  unfolding GetVarint64_def GetVarint64Ptr_def by (rule varint_loop_suffix)

lemma GetVarint32_suffix: "GetVarint32 p = Some (v, q) \<Longrightarrow> \<exists>n \<ge> 1. n \<le> length p \<and> q = drop n p"
proof -
  assume a: "GetVarint32 p = Some (v, q)"
  show ?thesis
  proof (cases "GetVarint32PtrFallback p = Some (v, q)")
    case True
    then show ?thesis unfolding GetVarint32PtrFallback_def by (rule varint_loop_suffix)
  next
    case False
    with a obtain b where "p = b # q" by (auto simp: GetVarint32_def GetVarint32Ptr_def Let_def split: list.splits if_splits)
    then show ?thesis by (intro exI [of _ 1]) simp
  qed
qed

lemma GetLengthPrefixedSlice_suffix:
  assumes "GetLengthPrefixedSlice p = Some (s, q)" shows "\<exists>n \<ge> 1. n \<le> length p \<and> s @ q = drop n p"
proof -
  from assms obtain len r where r: "GetVarint32 p = Some (len, r)" "s = take (unat len) r" "q = drop (unat len) r"
    by (auto simp: GetLengthPrefixedSlice_def split: option.splits if_splits)
  with GetVarint32_suffix [OF r(1)] show ?thesis by auto
qed

section \<open>Codecs\<close>

text \<open>
  What every client of these encodings relies on: what was written is read back, whatever follows
  it. Then no two values are encoded alike and no encoding is a proper prefix of another.
\<close>

locale codec =
  fixes enc :: "'a \<Rightarrow> byte list" and dec :: "byte list \<Rightarrow> ('a \<times> byte list) option" and ok :: "'a \<Rightarrow> bool"
  assumes dec_enc: "ok x \<Longrightarrow> dec (enc x @ rest) = Some (x, rest)"
begin

lemma enc_unique: assumes "ok x" "ok y" "enc x @ r = enc y @ s" shows "x = y \<and> r = s"
proof -
  have "Some (x, r) = Some (y, s)" unfolding dec_enc [OF assms(1), symmetric] dec_enc [OF assms(2), symmetric] assms(3) ..
  then show ?thesis by simp
qed

lemma enc_inj: "inj_on enc {x. ok x}"
proof (rule inj_onI)
  fix x y assume "x \<in> {x. ok x}" "y \<in> {x. ok x}" "enc x = enc y"
  then show "x = y" using enc_unique [of x y "[]" "[]"] by simp
qed

lemma enc_list_unique:
  assumes "list_all ok xs" and "list_all ok ys" and "length xs = length ys"
    and "concat (map enc xs) @ r = concat (map enc ys) @ s"
  shows "xs = ys \<and> r = s"
  using assms(3,1,2,4)
proof (induction xs ys arbitrary: r s rule: list_induct2)
  case (Cons x xs y ys)
  have "ok x" "ok y" "enc x @ concat (map enc xs) @ r = enc y @ concat (map enc ys) @ s" using Cons.prems by simp_all
  from enc_unique [OF this] have "x = y" "concat (map enc xs) @ r = concat (map enc ys) @ s" by blast+
  with Cons.IH [OF _ _ this(2)] Cons.prems show ?case by simp
qed simp

end

interpretation varint32: codec EncodeVarint32 GetVarint32 "\<lambda>_. True"
  by unfold_locales simp

interpretation varint64: codec EncodeVarint64 GetVarint64 "\<lambda>_. True"
  by unfold_locales simp

interpretation prefixed: codec "PutLengthPrefixedSlice []" GetLengthPrefixedSlice "\<lambda>s. length s < 2 ^ 32"
  by unfold_locales simp

section \<open>Properties\<close>

text \<open>
  C40. Everything \<^verbatim>\<open>coding.cc\<close> writes is read back, whatever follows it: words of fixed width,
  varints of both widths and length-prefixed slices of less than 4 GiB. The unrolled 32-bit encoder
  writes what the 64-bit loop writes, \<^verbatim>\<open>VarintLength\<close> is the number of bytes written, and the
  buffers of 5 and 10 bytes of the \<^verbatim>\<open>Put\<close> routines are large enough.
\<close>

theorem coding_roundtrip:
  assumes "length value < 2 ^ 32"
  shows "DecodeFixed32 (PutFixed32 [] v @ rest) = v \<and> DecodeFixed64 (PutFixed64 [] w @ rest) = w \<and>
     GetVarint32 (PutVarint32 [] v @ rest) = Some (v, rest) \<and> GetVarint64 (PutVarint64 [] w @ rest) = Some (w, rest) \<and>
     GetLengthPrefixedSlice (PutLengthPrefixedSlice [] value @ rest) = Some (value, rest) \<and>
     EncodeVarint32 v = EncodeVarint64 (ucast v) \<and> length (EncodeVarint64 w) = VarintLength w \<and>
     length (EncodeVarint32 v) \<le> 5 \<and> length (EncodeVarint64 w) \<le> 10"
proof -
  have "unat v < 2 ^ LENGTH(32)" "unat w < 2 ^ LENGTH(64)" by (rule unsigned_less)+
  then have "unat v < 128 ^ Suc 4" "unat w < 128 ^ Suc 9" by simp_all
  then have "length (EncodeVarint32 v) \<le> 5" "length (EncodeVarint64 w) \<le> 10"
    unfolding EncodeVarint32_bytes EncodeVarint64_bytes using varint_bytes_length by fastforce+
  moreover have "EncodeVarint32 v = EncodeVarint64 (ucast v)"
    unfolding EncodeVarint32_bytes EncodeVarint64_bytes using \<open>unat v < 2 ^ LENGTH(32)\<close>
    by (simp add: unsigned_ucast_eq take_bit_nat_eq_self [of "unat v" 64])
  moreover have "DecodeFixed32 (PutFixed32 [] v @ rest) = v" "DecodeFixed64 (PutFixed64 [] w @ rest) = w"
    "GetVarint32 (PutVarint32 [] v @ rest) = Some (v, rest)" "GetVarint64 (PutVarint64 [] w @ rest) = Some (w, rest)"
    by (simp_all add: PutFixed32_def PutFixed64_def PutVarint32_def PutVarint64_def)
  ultimately show ?thesis using GetLengthPrefixedSlice_Put [OF assms] VarintLength_bytes by simp
qed

theorem coding_roundtrip_witness:
  "GetLengthPrefixedSlice (PutLengthPrefixedSlice [] [1, 2, 3] @ [4]) = Some ([1, 2, 3], [4]) \<and>
   GetVarint32 (PutVarint32 [] 300 @ [4]) = Some (300, [4])"
  using coding_roundtrip [of "[1, 2, 3]" 300 "[4]" 0] by simp

end
