(* ===== verification/Keys.thy ===== *)
theory Keys
  imports Coding "HOL-Library.List_Lexorder"
begin

unbundle bit_operations_syntax

text \<open>
  Keys and their orders: \<^verbatim>\<open>Slice::compare\<close>, the bytewise comparator of
  \<^verbatim>\<open>util/comparator.cc\<close>, and the internal keys of \<^verbatim>\<open>db/dbformat\<close>, which append a
  sequence number and a type to a user key. The contract of \<^verbatim>\<open>Comparator\<close> is a locale that
  both comparators interpret.
\<close>

type_synonym slice = "byte list"

section \<open>Slices\<close>

text \<open>\<^verbatim>\<open>memcmp\<close> on two arrays of the same length; only the sign of its result is specified.\<close>

fun memcmp :: "slice \<Rightarrow> slice \<Rightarrow> int" where
  "memcmp (a # as) (b # bs) = (if a = b then memcmp as bs else if a < b then - 1 else 1)"
| "memcmp _ _ = 0"

definition slice_compare :: "slice \<Rightarrow> slice \<Rightarrow> int" where
  "slice_compare a b =
     (let min_len = (if length a < length b then length a else length b);
          r = memcmp (take min_len a) (take min_len b)
      in if r = 0 then (if length a < length b then - 1 else if length b < length a then 1 else r) else r)"

definition slice_eq :: "slice \<Rightarrow> slice \<Rightarrow> bool" where
  "slice_eq x y \<longleftrightarrow> length x = length y \<and> memcmp x y = 0"

definition starts_with :: "slice \<Rightarrow> slice \<Rightarrow> bool" where
  "starts_with s x \<longleftrightarrow> length x \<le> length s \<and> memcmp (take (length x) s) x = 0"

section \<open>The bytewise comparator\<close>

definition BytewiseCompare :: "slice \<Rightarrow> slice \<Rightarrow> int" where
  "BytewiseCompare a b = slice_compare a b"

fun diff_index :: "slice \<Rightarrow> slice \<Rightarrow> nat" where
  "diff_index (a # as) (b # bs) = (if a = b then Suc (diff_index as bs) else 0)"
| "diff_index _ _ = 0"

definition FindShortestSeparator :: "slice \<Rightarrow> slice \<Rightarrow> slice" where
  "FindShortestSeparator start limit =
     (let d = diff_index start limit in
      if min (length start) (length limit) \<le> d then start
      else (let diff_byte = start ! d in
            if diff_byte < 255 \<and> unat diff_byte + 1 < unat (limit ! d)
            then take (d + 1) (start[d := diff_byte + 1]) else start))"

fun FindShortSuccessor :: "slice \<Rightarrow> slice" where
  "FindShortSuccessor [] = []"
| "FindShortSuccessor (byte # key) = (if byte \<noteq> 255 then [byte + 1] else byte # FindShortSuccessor key)"

section \<open>The bytewise order is lexicographic\<close>

lemma slice_compare_Nil [simp]:
  "slice_compare [] [] = 0" "slice_compare [] (b # bs) = - 1" "slice_compare (a # as) [] = 1"
  by (simp_all add: slice_compare_def)

lemma slice_compare_Cons [simp]:
  "slice_compare (a # as) (b # bs) = (if a = b then slice_compare as bs else if a < b then - 1 else 1)"
  by (auto simp: slice_compare_def Let_def)

lemma slice_compare_spec: "slice_compare a b = (if a = b then 0 else if a < b then - 1 else 1)"
proof (induction a arbitrary: b)
  case (Cons x a)
  then show ?case by (cases b) auto
next
  case Nil
  then show ?case by (cases b) auto
qed

lemma memcmp_0: "length a = length b \<Longrightarrow> memcmp a b = 0 \<longleftrightarrow> a = b"
  by (induction a b rule: list_induct2) auto

lemma slice_eq_iff: "slice_eq x y \<longleftrightarrow> x = y"
  using memcmp_0 by (auto simp: slice_eq_def)

lemma starts_with_iff: "starts_with s x \<longleftrightarrow> take (length x) s = x"
proof (cases "length x \<le> length s")
  case True
  then show ?thesis using memcmp_0 [of "take (length x) s" x] by (simp add: starts_with_def)
next
  case False
  then have "length (take (length x) s) \<noteq> length x" by simp
  with False show ?thesis unfolding starts_with_def by metis
qed

lemma byte_inc: "b \<noteq> 255 \<Longrightarrow> b < b + 1 \<and> unat (b + 1) = unat b + 1" for b :: byte
proof -
  assume "b \<noteq> 255"
  have "1 + b \<noteq> 0"
  proof
    assume "1 + b = 0"
    then have "b = - 1" by (simp add: add_eq_0_iff)
    with \<open>b \<noteq> 255\<close> show False by simp
  qed
  then have "unat (b + 1) = unat b + 1" using unatSuc [of b] by (simp add: add.commute)
  then show ?thesis by (simp add: word_less_nat_alt)
qed

lemma FindShortestSeparator_Cons:
  "FindShortestSeparator (a # as) (b # bs) =
     (if a = b then a # FindShortestSeparator as bs
      else if a < 255 \<and> unat a + 1 < unat b then [a + 1] else a # as)"
  by (auto simp: FindShortestSeparator_def Let_def)

lemma FindShortestSeparator_between:
  "start < limit \<Longrightarrow> start \<le> FindShortestSeparator start limit \<and> FindShortestSeparator start limit < limit"
proof (induction start limit rule: diff_index.induct)
  case (1 a as b bs)
  show ?case
  proof (cases "a \<noteq> b \<and> a < 255 \<and> unat a + 1 < unat b")
    case True
    then have "a < a + 1" "a + 1 < b" using byte_inc [of a] by (auto simp: word_less_nat_alt [of "a + 1"])
    with True show ?thesis by (simp add: FindShortestSeparator_Cons)
  next
    case False
    with 1 show ?thesis by (auto simp: FindShortestSeparator_Cons)
  qed
qed (auto simp: FindShortestSeparator_def Let_def)

lemma FindShortestSeparator_refl: "FindShortestSeparator start start = start"
  by (induction start) (simp_all add: FindShortestSeparator_Cons, simp add: FindShortestSeparator_def)

lemma FindShortSuccessor_ge: "key \<le> FindShortSuccessor key"
  using byte_inc by (induction key) auto

section \<open>What a comparator promises\<close>

text \<open>
  The contract of \<^verbatim>\<open>include/leveldb/comparator.h\<close>: a total order on the valid keys, a
  separator at or above the start and below the limit, and a successor that is not smaller. The
  separator of a key and itself is that key.
\<close>

locale comparator =
  fixes compare :: "slice \<Rightarrow> slice \<Rightarrow> int" and separator :: "slice \<Rightarrow> slice \<Rightarrow> slice" and successor :: "slice \<Rightarrow> slice"
    and valid :: "slice \<Rightarrow> bool"
  assumes compare_eq: "valid a \<Longrightarrow> valid b \<Longrightarrow> compare a b = 0 \<longleftrightarrow> a = b"
    and compare_flip: "valid a \<Longrightarrow> valid b \<Longrightarrow> compare a b < 0 \<longleftrightarrow> 0 < compare b a"
    and compare_trans: "valid a \<Longrightarrow> valid b \<Longrightarrow> valid c \<Longrightarrow> compare a b < 0 \<Longrightarrow> compare b c < 0 \<Longrightarrow> compare a c < 0"
    and separator_between: "valid a \<Longrightarrow> valid b \<Longrightarrow> compare a b < 0 \<Longrightarrow>
      valid (separator a b) \<and> compare a (separator a b) \<le> 0 \<and> compare (separator a b) b < 0"
    and separator_refl: "valid a \<Longrightarrow> separator a a = a"
    and successor_ge: "valid a \<Longrightarrow> valid (successor a) \<and> compare a (successor a) \<le> 0"
begin

lemma compare_refl: "valid a \<Longrightarrow> compare a a = 0"
  by (simp add: compare_eq)

lemma compare_le_trans:
  assumes "valid a" "valid b" "valid c" "compare a b \<le> 0" "compare b c < 0" shows "compare a c < 0"
  using compare_trans [OF assms(1-3) _ assms(5)] compare_eq [OF assms(1,2)] assms(4,5) by (cases "compare a b = 0") auto

lemma compare_less_le_trans:
  assumes "valid a" "valid b" "valid c" "compare a b < 0" "compare b c \<le> 0" shows "compare a c < 0"
  using compare_trans [OF assms(1-4)] compare_eq [OF assms(2,3)] assms(4,5) by (cases "compare b c = 0") auto

lemma compare_total: "valid a \<Longrightarrow> valid b \<Longrightarrow> compare a b < 0 \<or> a = b \<or> compare b a < 0"
  using compare_eq [of a b] compare_flip [of b a] by linarith

text \<open>A key put between two neighbours keeps them apart: what index blocks rely on.\<close>

lemma separator_separates:
  assumes "valid a" "valid b" "valid x" "compare a b < 0"
  shows "compare x a \<le> 0 \<Longrightarrow> compare x (separator a b) \<le> 0" and "compare b x \<le> 0 \<Longrightarrow> compare (separator a b) x < 0"
proof -
  note S = separator_between [OF assms(1,2,4)]
  show "compare x (separator a b) \<le> 0" if x: "compare x a \<le> 0"
  proof (cases "compare a (separator a b) = 0")
    case True
    then show ?thesis using x compare_eq [OF assms(1)] S by auto
  next
    case False
    with S have "compare a (separator a b) < 0" by linarith
    from compare_le_trans [OF assms(3,1) _ x this] S show ?thesis by simp
  qed
  show "compare (separator a b) x < 0" if "compare b x \<le> 0"
    using compare_less_le_trans [OF _ assms(2,3) _ that] S by blast
qed

end

interpretation bytewise: comparator BytewiseCompare FindShortestSeparator FindShortSuccessor "\<lambda>_. True"
proof unfold_locales
  fix a b :: slice
  show "BytewiseCompare a b < 0 \<longleftrightarrow> 0 < BytewiseCompare b a" by (auto simp: BytewiseCompare_def slice_compare_spec)
  show "True \<and> BytewiseCompare a (FindShortSuccessor a) \<le> 0"
    using FindShortSuccessor_ge [of a] by (auto simp: BytewiseCompare_def slice_compare_spec)
next
  fix a b :: slice assume "BytewiseCompare a b < 0"
  then have "a < b" by (auto simp: BytewiseCompare_def slice_compare_spec split: if_splits)
  from FindShortestSeparator_between [OF this]
  show "True \<and> BytewiseCompare a (FindShortestSeparator a b) \<le> 0 \<and> BytewiseCompare (FindShortestSeparator a b) b < 0"
    by (auto simp: BytewiseCompare_def slice_compare_spec)
qed (auto simp: BytewiseCompare_def slice_compare_spec FindShortestSeparator_refl split: if_splits)

section \<open>Internal keys\<close>

datatype ValueType = kTypeDeletion | kTypeValue

definition type_code :: "ValueType \<Rightarrow> u64" where
  "type_code t = (case t of kTypeDeletion \<Rightarrow> 0 | kTypeValue \<Rightarrow> 1)"

definition kValueTypeForSeek :: ValueType where
  "kValueTypeForSeek = kTypeValue"

definition kMaxSequenceNumber :: u64 where
  "kMaxSequenceNumber = push_bit 56 1 - 1"

record ParsedInternalKey =
  user_key :: slice
  sequence :: u64
  vtype :: ValueType

definition InternalKeyEncodingLength :: "ParsedInternalKey \<Rightarrow> nat" where
  "InternalKeyEncodingLength key = length (user_key key) + 8"

definition PackSequenceAndType :: "u64 \<Rightarrow> ValueType \<Rightarrow> u64" where
  "PackSequenceAndType seq t = push_bit 8 seq OR type_code t"

definition AppendInternalKey :: "slice \<Rightarrow> ParsedInternalKey \<Rightarrow> slice" where
  "AppendInternalKey result key = PutFixed64 (result @ user_key key) (PackSequenceAndType (sequence key) (vtype key))"

definition ExtractUserKey :: "slice \<Rightarrow> slice" where
  "ExtractUserKey internal_key = take (length internal_key - 8) internal_key"

text \<open>The number packed into the last eight bytes.\<close>

definition key_num :: "slice \<Rightarrow> u64" where
  "key_num k = DecodeFixed64 (drop (length k - 8) k)"

definition ParseInternalKey :: "slice \<Rightarrow> ParsedInternalKey option" where
  "ParseInternalKey internal_key =
     (let n = length internal_key in
      if n < 8 then None
      else (let num = DecodeFixed64 (drop (n - 8) internal_key); c = num AND 255 in
            if c = 0 then Some \<lparr> user_key = take (n - 8) internal_key, sequence = drop_bit 8 num, vtype = kTypeDeletion \<rparr>
            else if c = 1 then Some \<lparr> user_key = take (n - 8) internal_key, sequence = drop_bit 8 num, vtype = kTypeValue \<rparr>
            else None))"

definition InternalKeyCompare :: "(slice \<Rightarrow> slice \<Rightarrow> int) \<Rightarrow> slice \<Rightarrow> slice \<Rightarrow> int" where
  "InternalKeyCompare ucmp akey bkey =
     (let r = ucmp (ExtractUserKey akey) (ExtractUserKey bkey) in
      if r = 0 then (let anum = key_num akey; bnum = key_num bkey in if bnum < anum then - 1 else if anum < bnum then 1 else r)
      else r)"

definition InternalKeySeparator ::
  "(slice \<Rightarrow> slice \<Rightarrow> int) \<Rightarrow> (slice \<Rightarrow> slice \<Rightarrow> slice) \<Rightarrow> slice \<Rightarrow> slice \<Rightarrow> slice" where
  "InternalKeySeparator ucmp usep start limit =
     (let user_start = ExtractUserKey start; user_limit = ExtractUserKey limit; tmp = usep user_start user_limit in
      if length tmp < length user_start \<and> ucmp user_start tmp < 0
      then PutFixed64 tmp (PackSequenceAndType kMaxSequenceNumber kValueTypeForSeek) else start)"

definition InternalKeySuccessor :: "(slice \<Rightarrow> slice \<Rightarrow> int) \<Rightarrow> (slice \<Rightarrow> slice) \<Rightarrow> slice \<Rightarrow> slice" where
  "InternalKeySuccessor ucmp usucc key =
     (let user_key = ExtractUserKey key; tmp = usucc user_key in
      if length tmp < length user_key \<and> ucmp user_key tmp < 0
      then PutFixed64 tmp (PackSequenceAndType kMaxSequenceNumber kValueTypeForSeek) else key)"

text \<open>The three views of a \<^verbatim>\<open>LookupKey\<close>.\<close>

definition LookupKey_memtable_key :: "slice \<Rightarrow> u64 \<Rightarrow> slice" where
  "LookupKey_memtable_key ukey s =
     EncodeVarint32 (of_nat (length ukey + 8)) @ ukey @ EncodeFixed64 (PackSequenceAndType s kValueTypeForSeek)"

definition LookupKey_internal_key :: "slice \<Rightarrow> u64 \<Rightarrow> slice" where
  "LookupKey_internal_key ukey s = ukey @ EncodeFixed64 (PackSequenceAndType s kValueTypeForSeek)"

section \<open>Packing and unpacking\<close>

lemma DecodeFixed64_EncodeFixed64_all [simp]: "DecodeFixed64 (EncodeFixed64 v) = v"
  using DecodeFixed64_EncodeFixed64 [of v "[]"] by simp

lemma key_parts [simp]:
  "ExtractUserKey (u @ EncodeFixed64 n) = u" "key_num (u @ EncodeFixed64 n) = n"
  by (simp_all add: ExtractUserKey_def key_num_def)

lemma seq_range: "s \<le> kMaxSequenceNumber \<longleftrightarrow> unat s < 2 ^ 56"
  by (simp add: kMaxSequenceNumber_def word_le_nat_alt less_eq_Suc_le)

lemma type_code_lt: "unat (type_code t) \<le> 1"
  by (cases t) (simp_all add: type_code_def)

lemma unat_Pack:
  assumes "s \<le> kMaxSequenceNumber" shows "unat (PackSequenceAndType s t) = unat s * 256 + unat (type_code t)"
proof -
  have s: "unat s < 2 ^ 56" using assms seq_range by blast
  have "push_bit 8 s AND type_code t = 0"
    by (rule bit_word_eqI) (cases t; auto simp: type_code_def bit_simps)
  then have "PackSequenceAndType s t = push_bit 8 s + type_code t"
    by (simp add: PackSequenceAndType_def disjunctive_add_eq_or)
  moreover have "push_bit 8 s = of_nat (unat s * 256)" by (simp add: push_bit_eq_mult mult.commute)
  ultimately have "PackSequenceAndType s t = of_nat (unat s * 256 + unat (type_code t))" by simp
  moreover have "unat s * 256 + unat (type_code t) < 2 ^ LENGTH(64)" using s type_code_lt [of t] by simp
  ultimately show ?thesis by (simp only: unat_of_nat_small)
qed

lemma Pack_drop:
  assumes "s \<le> kMaxSequenceNumber" shows "drop_bit 8 (PackSequenceAndType s t) = s"
proof -
  have "unat (drop_bit 8 (PackSequenceAndType s t)) = unat s"
    unfolding unat_drop_bit unat_Pack [OF assms] using type_code_lt [of t] by simp
  then show ?thesis by (simp only: word_unat_eq_iff)
qed

lemma Pack_type:
  assumes "s \<le> kMaxSequenceNumber" shows "PackSequenceAndType s t AND 255 = type_code t"
proof -
  have "PackSequenceAndType s t AND 255 = take_bit 8 (PackSequenceAndType s t)"
    by (simp only: take_bit_eq_mask) (simp add: mask_numeral)
  moreover have "unat (take_bit 8 (PackSequenceAndType s t)) = unat (type_code t)"
    unfolding unat_take_bit unat_Pack [OF assms] using type_code_lt [of t] by simp
  ultimately show ?thesis by (simp only: word_unat_eq_iff)
qed

lemma ParseInternalKey_Append:
  assumes "sequence k \<le> kMaxSequenceNumber"
  shows "ParseInternalKey (AppendInternalKey [] k) = Some k"
proof -
  let ?n = "PackSequenceAndType (sequence k) (vtype k)"
  have "AppendInternalKey [] k = user_key k @ EncodeFixed64 ?n" by (simp add: AppendInternalKey_def PutFixed64_def)
  moreover have "?n AND 255 = type_code (vtype k)" "drop_bit 8 ?n = sequence k"
    using Pack_type [OF assms] Pack_drop [OF assms] by auto
  ultimately show ?thesis
    by (cases "vtype k") (simp_all add: ParseInternalKey_def Let_def type_code_def)
qed

lemma Pack_less:
  assumes "s \<le> kMaxSequenceNumber" "s' \<le> kMaxSequenceNumber"
  shows "PackSequenceAndType s t < PackSequenceAndType s' t' \<longleftrightarrow> s < s' \<or> s = s' \<and> type_code t < type_code t'"
proof -
  have "unat s * 256 + unat (type_code t) < unat s' * 256 + unat (type_code t') \<longleftrightarrow>
      unat s < unat s' \<or> unat s = unat s' \<and> unat (type_code t) < unat (type_code t')"
    using type_code_lt [of t] type_code_lt [of t'] by linarith
  then show ?thesis by (simp only: word_less_nat_alt unat_Pack assms word_unat_eq_iff)
qed

lemma bit_byte_high [simp]: "8 \<le> m \<Longrightarrow> \<not> bit (b :: byte) m"
  using bit_byte by fastforce

lemma EncodeFixed64_DecodeFixed64:
  assumes "length bs = 8" shows "EncodeFixed64 (DecodeFixed64 bs) = bs"
proof -
  obtain b0 b1 b2 b3 b4 b5 b6 b7 where bs: "bs = [b0, b1, b2, b3, b4, b5, b6, b7]"
    using assms by (auto simp: numeral_eq_Suc length_Suc_conv)
  have "ucast (drop_bit 0 (DecodeFixed64 bs)) = b0" "ucast (drop_bit 8 (DecodeFixed64 bs)) = b1"
    "ucast (drop_bit 16 (DecodeFixed64 bs)) = b2" "ucast (drop_bit 24 (DecodeFixed64 bs)) = b3"
    "ucast (drop_bit 32 (DecodeFixed64 bs)) = b4" "ucast (drop_bit 40 (DecodeFixed64 bs)) = b5"
    "ucast (drop_bit 48 (DecodeFixed64 bs)) = b6" "ucast (drop_bit 56 (DecodeFixed64 bs)) = b7"
    unfolding bs DecodeFixed64_def
    by (rule bit_word_eqI; simp add: bit_simps)+
  then show ?thesis by (simp add: EncodeFixed64_def bs)
qed

lemma internal_key_split: "8 \<le> length k \<Longrightarrow> ExtractUserKey k @ EncodeFixed64 (key_num k) = k"
  by (simp add: ExtractUserKey_def key_num_def EncodeFixed64_DecodeFixed64)

section \<open>Internal keys are ordered too\<close>

text \<open>Any comparator that takes all slices gives a comparator of internal keys.\<close>

locale user_comparator = comparator ucmp usep usucc "\<lambda>_. True" for ucmp usep usucc
begin

lemma internal_less:
  "InternalKeyCompare ucmp a b < 0 \<longleftrightarrow>
     ucmp (ExtractUserKey a) (ExtractUserKey b) < 0 \<or> ExtractUserKey a = ExtractUserKey b \<and> key_num b < key_num a"
  using compare_eq [of "ExtractUserKey a" "ExtractUserKey b"] by (auto simp: InternalKeyCompare_def Let_def)

lemma internal_greater:
  "0 < InternalKeyCompare ucmp a b \<longleftrightarrow>
     0 < ucmp (ExtractUserKey a) (ExtractUserKey b) \<or> ExtractUserKey a = ExtractUserKey b \<and> key_num a < key_num b"
  using compare_eq [of "ExtractUserKey a" "ExtractUserKey b"] by (auto simp: InternalKeyCompare_def Let_def)

lemma internal_eq:
  assumes "8 \<le> length a" "8 \<le> length b" shows "InternalKeyCompare ucmp a b = 0 \<longleftrightarrow> a = b"
proof -
  have "InternalKeyCompare ucmp a b = 0 \<longleftrightarrow> ExtractUserKey a = ExtractUserKey b \<and> key_num a = key_num b"
    using compare_eq [of "ExtractUserKey a" "ExtractUserKey b"] by (auto simp: InternalKeyCompare_def Let_def)
  with internal_key_split [OF assms(1)] internal_key_split [OF assms(2)] show ?thesis by metis
qed

lemma internal_trans:
  assumes "InternalKeyCompare ucmp a b < 0" "InternalKeyCompare ucmp b c < 0" shows "InternalKeyCompare ucmp a c < 0"
  using assms compare_trans [of "ExtractUserKey a" "ExtractUserKey b" "ExtractUserKey c"] unfolding internal_less by auto

lemma shortened_key:
  assumes "ucmp (ExtractUserKey a) tmp < 0"
  shows "InternalKeyCompare ucmp a (PutFixed64 tmp n) < 0" and "8 \<le> length (PutFixed64 tmp n)"
  using assms by (simp_all add: internal_less PutFixed64_def)

lemma internal_separator:
  assumes "8 \<le> length a" "8 \<le> length b" "InternalKeyCompare ucmp a b < 0"
  shows "8 \<le> length (InternalKeySeparator ucmp usep a b) \<and> InternalKeyCompare ucmp a (InternalKeySeparator ucmp usep a b) \<le> 0 \<and>
     InternalKeyCompare ucmp (InternalKeySeparator ucmp usep a b) b < 0"
proof -
  define tmp where "tmp = usep (ExtractUserKey a) (ExtractUserKey b)"
  show ?thesis
  proof (cases "length tmp < length (ExtractUserKey a) \<and> ucmp (ExtractUserKey a) tmp < 0")
    case True
    let ?k = "PutFixed64 tmp (PackSequenceAndType kMaxSequenceNumber kValueTypeForSeek)"
    have e: "InternalKeySeparator ucmp usep a b = ?k" using True by (simp add: InternalKeySeparator_def Let_def tmp_def)
    have "ExtractUserKey a \<noteq> ExtractUserKey b" using True separator_refl tmp_def by auto
    then have "ucmp (ExtractUserKey a) (ExtractUserKey b) < 0" using assms(3) unfolding internal_less by blast
    then have "ucmp tmp (ExtractUserKey b) < 0" using separator_between tmp_def by blast
    then have "InternalKeyCompare ucmp ?k b < 0" by (simp add: internal_less PutFixed64_def)
    moreover have "InternalKeyCompare ucmp a ?k \<le> 0" using shortened_key [of a tmp] True by (simp add: less_imp_le)
    ultimately show ?thesis using e by (simp add: PutFixed64_def)
  next
    case False
    then have "InternalKeySeparator ucmp usep a b = a" unfolding InternalKeySeparator_def Let_def tmp_def by auto
    with assms internal_eq [OF assms(1) assms(1)] show ?thesis by simp
  qed
qed

lemma internal_successor:
  assumes "8 \<le> length a"
  shows "8 \<le> length (InternalKeySuccessor ucmp usucc a) \<and> InternalKeyCompare ucmp a (InternalKeySuccessor ucmp usucc a) \<le> 0"
  using assms shortened_key [of a "usucc (ExtractUserKey a)"] internal_eq [OF assms assms]
  by (simp add: InternalKeySuccessor_def Let_def less_imp_le)

end

sublocale user_comparator \<subseteq> internal: comparator "InternalKeyCompare ucmp" "InternalKeySeparator ucmp usep"
    "InternalKeySuccessor ucmp usucc" "\<lambda>k. 8 \<le> length k"
proof unfold_locales
  fix a b :: slice
  show "InternalKeyCompare ucmp a b < 0 \<longleftrightarrow> 0 < InternalKeyCompare ucmp b a"
    unfolding internal_less internal_greater using compare_flip by auto
  show "InternalKeySeparator ucmp usep a a = a"
    by (simp add: InternalKeySeparator_def Let_def separator_refl)
qed (use internal_eq internal_trans internal_separator internal_successor in blast)+

interpretation dbkeys: user_comparator BytewiseCompare FindShortestSeparator FindShortSuccessor
  by unfold_locales

lemma AppendInternalKey_parts [simp]:
  "ExtractUserKey (AppendInternalKey [] k) = user_key k"
  "key_num (AppendInternalKey [] k) = PackSequenceAndType (sequence k) (vtype k)"
  "length (AppendInternalKey [] k) = InternalKeyEncodingLength k"
  by (simp_all add: AppendInternalKey_def PutFixed64_def InternalKeyEncodingLength_def)

lemma BytewiseCompare_less: "BytewiseCompare a b < 0 \<longleftrightarrow> a < b"
  by (auto simp: BytewiseCompare_def slice_compare_spec)

lemma LookupKey_views:
  "LookupKey_internal_key ukey s = AppendInternalKey [] \<lparr> user_key = ukey, sequence = s, vtype = kValueTypeForSeek \<rparr>"
  "LookupKey_memtable_key ukey s = PutLengthPrefixedSlice [] (LookupKey_internal_key ukey s)"
  by (simp_all add: LookupKey_internal_key_def LookupKey_memtable_key_def AppendInternalKey_def PutFixed64_def
      PutLengthPrefixedSlice_def PutVarint32_def)

section \<open>Properties\<close>

text \<open>
  C38. Internal keys. A key is parsed back from its bytes; the comparator of internal keys orders
  the encoded keys by increasing user key, then decreasing sequence number, then decreasing type,
  and takes two of them for equal only when all three agree. So among the entries of a user key
  the newest comes first, and the key a lookup builds for a snapshot comes before every entry of
  that snapshot or an older one and after every newer entry.
\<close>

theorem internal_key_order:
  assumes "sequence a \<le> kMaxSequenceNumber" and "sequence b \<le> kMaxSequenceNumber"
  shows "ParseInternalKey (AppendInternalKey [] a) = Some a \<and>
     (InternalKeyCompare BytewiseCompare (AppendInternalKey [] a) (AppendInternalKey [] b) < 0 \<longleftrightarrow>
        user_key a < user_key b \<or> user_key a = user_key b \<and>
        (sequence b < sequence a \<or> sequence a = sequence b \<and> type_code (vtype b) < type_code (vtype a))) \<and>
     (InternalKeyCompare BytewiseCompare (AppendInternalKey [] a) (AppendInternalKey [] b) = 0 \<longleftrightarrow> a = b) \<and>
     (user_key a = user_key b \<longrightarrow>
        (InternalKeyCompare BytewiseCompare (LookupKey_internal_key (user_key a) (sequence a)) (AppendInternalKey [] b) \<le> 0 \<longleftrightarrow>
           sequence b \<le> sequence a))"
proof -
  note P = ParseInternalKey_Append [OF assms(1)] ParseInternalKey_Append [OF assms(2)]
  have len: "8 \<le> length (AppendInternalKey [] k)" for k by (simp add: InternalKeyEncodingLength_def)
  have lt: "InternalKeyCompare BytewiseCompare (AppendInternalKey [] x) (AppendInternalKey [] y) < 0 \<longleftrightarrow>
      user_key x < user_key y \<or> user_key x = user_key y \<and>
      (sequence y < sequence x \<or> sequence x = sequence y \<and> type_code (vtype y) < type_code (vtype x))"
    if "sequence x \<le> kMaxSequenceNumber" "sequence y \<le> kMaxSequenceNumber" for x y
    using that by (auto simp: dbkeys.internal_less BytewiseCompare_less Pack_less)
  have eq: "InternalKeyCompare BytewiseCompare (AppendInternalKey [] a) (AppendInternalKey [] b) = 0 \<longleftrightarrow> a = b"
    unfolding dbkeys.internal_eq [OF len len] using P by (metis option.inject)
  have "InternalKeyCompare BytewiseCompare (LookupKey_internal_key (user_key a) (sequence a)) (AppendInternalKey [] b) \<le> 0 \<longleftrightarrow>
      sequence b \<le> sequence a" if u: "user_key a = user_key b"
  proof -
    define l where "l = \<lparr> user_key = user_key b, sequence = sequence a, vtype = kTypeValue \<rparr>"
    have "InternalKeyCompare BytewiseCompare (AppendInternalKey [] l) (AppendInternalKey [] b) \<le> 0 \<longleftrightarrow>
        \<not> InternalKeyCompare BytewiseCompare (AppendInternalKey [] b) (AppendInternalKey [] l) < 0"
      using dbkeys.internal.compare_flip [OF len len, of b l] by linarith
    also have "\<dots> \<longleftrightarrow> \<not> (sequence a < sequence b)"
      using lt [of b l] assms by (cases "vtype b") (auto simp: l_def type_code_def)
    finally show ?thesis by (simp add: u LookupKey_views l_def kValueTypeForSeek_def not_less)
  qed
  with P lt [OF assms] eq show ?thesis by blast
qed

theorem internal_key_order_witness:
  "InternalKeyCompare BytewiseCompare
     (AppendInternalKey [] \<lparr> user_key = [97], sequence = 7, vtype = kTypeValue \<rparr>)
     (AppendInternalKey [] \<lparr> user_key = [97], sequence = 5, vtype = kTypeDeletion \<rparr>) < 0"
  using internal_key_order [of "\<lparr> user_key = [97], sequence = 7, vtype = kTypeValue \<rparr>"
      "\<lparr> user_key = [97], sequence = 5, vtype = kTypeDeletion \<rparr>"]
  by (simp add: kMaxSequenceNumber_def)

text \<open>
  C39. The keys that index blocks store. For two internal keys in order,
  \<^verbatim>\<open>FindShortestSeparator\<close> returns a valid internal key, not longer than the first, that is at
  least the first and less than the second; \<^verbatim>\<open>FindShortSuccessor\<close> returns a valid internal key
  that is at least its argument and not longer.
\<close>

theorem separators_separate:
  assumes "8 \<le> length start" and "8 \<le> length limit" and "InternalKeyCompare BytewiseCompare start limit < 0"
  shows "let sep = InternalKeySeparator BytewiseCompare FindShortestSeparator start limit;
             nxt = InternalKeySuccessor BytewiseCompare FindShortSuccessor start
         in 8 \<le> length sep \<and> length sep \<le> length start \<and> InternalKeyCompare BytewiseCompare start sep \<le> 0 \<and>
            InternalKeyCompare BytewiseCompare sep limit < 0 \<and>
            8 \<le> length nxt \<and> length nxt \<le> length start \<and> InternalKeyCompare BytewiseCompare start nxt \<le> 0"
proof -
  have "length (InternalKeySeparator BytewiseCompare FindShortestSeparator start limit) \<le> length start"
    "length (InternalKeySuccessor BytewiseCompare FindShortSuccessor start) \<le> length start"
    using assms(1) by (auto simp: InternalKeySeparator_def InternalKeySuccessor_def Let_def PutFixed64_def ExtractUserKey_def)
  with dbkeys.internal.separator_between [OF assms] dbkeys.internal.successor_ge [OF assms(1)]
  show ?thesis unfolding Let_def by blast
qed

theorem separators_separate_witness:
  "\<exists>sep. InternalKeyCompare BytewiseCompare ([97, 98] @ EncodeFixed64 7) sep \<le> 0 \<and>
     InternalKeyCompare BytewiseCompare sep ([100] @ EncodeFixed64 3) < 0"
proof -
  have "InternalKeyCompare BytewiseCompare ([97, 98] @ EncodeFixed64 7) ([100] @ EncodeFixed64 3) < 0"
    unfolding dbkeys.internal_less key_parts by (simp add: BytewiseCompare_def)
  with separators_separate [of "[97, 98] @ EncodeFixed64 7" "[100] @ EncodeFixed64 3"] show ?thesis
    unfolding Let_def by auto
qed

end
