(* ===== verification/FilterBlock.thy ===== *)
theory FilterBlock
  imports Keys
begin

unbundle bit_operations_syntax

text \<open>
  Filters: the hash function (\<^verbatim>\<open>util/hash.cc\<close>), the Bloom filter policy
  (\<^verbatim>\<open>util/bloom.cc\<close>), the wrapper for internal keys (\<^verbatim>\<open>db/dbformat.cc\<close>), and the
  filter block of a table (\<^verbatim>\<open>table/filter_block.cc\<close>). The contract of a filter policy, no
  false negatives, is a locale; the filter block is proved correct inside it.
\<close>

section \<open>Hash\<close>

fun hash_words :: "u32 \<Rightarrow> slice \<Rightarrow> u32" where
  "hash_words h (a # b # c # d # data) =
     (let h1 = (h + DecodeFixed32 [a, b, c, d]) * 0xc6a4a793 in hash_words (h1 XOR drop_bit 16 h1) data)"
| "hash_words h data =
     (let h3 = (if length data = 3 then h + push_bit 16 (ucast (data ! 2)) else h);
          h2 = (if 2 \<le> length data then h3 + push_bit 8 (ucast (data ! 1)) else h3)
      in if 1 \<le> length data
         then (let h1 = (h2 + ucast (data ! 0)) * 0xc6a4a793 in h1 XOR drop_bit 24 h1) else h2)"

definition Hash :: "slice \<Rightarrow> u32 \<Rightarrow> u32" where
  "Hash data seed = hash_words (seed XOR (of_nat (length data) * 0xc6a4a793)) data"

definition BloomHash :: "slice \<Rightarrow> u32" where
  "BloomHash key = Hash key 0xbc9f1d34"

section \<open>Bloom filters\<close>

text \<open>
  The number of probes. The source multiplies by the double 0.69 and truncates. From 44 bits per
  key on the result is cut to 30, and below that the exact product is at least 0.01 away from the
  next integer, so the rounding of the double does not show.
\<close>

definition bloom_k :: "nat \<Rightarrow> nat" where
  "bloom_k bits_per_key = (let k = 69 * bits_per_key div 100 in if k < 1 then 1 else if 30 < k then 30 else k)"

definition bloom_delta :: "u32 \<Rightarrow> u32" where
  "bloom_delta h = drop_bit 17 h OR push_bit 15 h"

definition bitpos :: "u32 \<Rightarrow> nat \<Rightarrow> nat" where
  "bitpos h bits = unat h mod bits"

fun set_probes :: "nat \<Rightarrow> nat \<Rightarrow> u32 \<Rightarrow> u32 \<Rightarrow> byte list \<Rightarrow> byte list" where
  "set_probes bits 0 h delta array = array"
| "set_probes bits (Suc j) h delta array =
     (let p = bitpos h bits in
      set_probes bits j (h + delta) delta (array[p div 8 := array ! (p div 8) OR push_bit (p mod 8) 1]))"

definition CreateFilter :: "nat \<Rightarrow> slice list \<Rightarrow> slice \<Rightarrow> slice" where
  "CreateFilter bits_per_key keys dst =
     (let bits0 = length keys * bits_per_key;
          bits1 = (if bits0 < 64 then 64 else bits0);
          bytes = (bits1 + 7) div 8;
          bits = bytes * 8;
          k = bloom_k bits_per_key;
          array = fold (\<lambda>key. set_probes bits k (BloomHash key) (bloom_delta (BloomHash key))) keys (replicate bytes 0)
      in dst @ array @ [of_nat k])"

fun test_probes :: "nat \<Rightarrow> nat \<Rightarrow> u32 \<Rightarrow> u32 \<Rightarrow> byte list \<Rightarrow> bool" where
  "test_probes bits 0 h delta array = True"
| "test_probes bits (Suc j) h delta array =
     (let p = bitpos h bits in
      if array ! (p div 8) AND push_bit (p mod 8) 1 = 0 then False else test_probes bits j (h + delta) delta array)"

definition KeyMayMatch :: "slice \<Rightarrow> slice \<Rightarrow> bool" where
  "KeyMayMatch key bloom_filter =
     (let len = length bloom_filter in
      if len < 2 then False
      else (let bits = (len - 1) * 8; k = unat (bloom_filter ! (len - 1)) in
            if 30 < k then True
            else test_probes bits k (BloomHash key) (bloom_delta (BloomHash key)) bloom_filter))"

text \<open>The wrapper that strips the internal part of the keys.\<close>

definition InternalCreateFilter :: "(slice list \<Rightarrow> slice \<Rightarrow> slice) \<Rightarrow> slice list \<Rightarrow> slice \<Rightarrow> slice" where
  "InternalCreateFilter create keys dst = create (map ExtractUserKey keys) dst"

definition InternalKeyMayMatch :: "(slice \<Rightarrow> slice \<Rightarrow> bool) \<Rightarrow> slice \<Rightarrow> slice \<Rightarrow> bool" where
  "InternalKeyMayMatch may_match key f = may_match (ExtractUserKey key) f"

section \<open>No false negatives\<close>

definition has_bit :: "byte list \<Rightarrow> nat \<Rightarrow> bool" where
  "has_bit array p \<longleftrightarrow> bit (array ! (p div 8)) (p mod 8)"

lemma length_set_probes [simp]: "length (set_probes bits j h delta array) = length array"
  by (induction bits j h delta array rule: set_probes.induct) (auto simp: Let_def)

lemma has_bit_set:
  assumes "p div 8 < length array"
  shows "has_bit (array[p div 8 := array ! (p div 8) OR push_bit (p mod 8) 1]) q \<longleftrightarrow> q = p \<or> has_bit array q"
proof -
  have "p div 8 = q div 8 \<and> p mod 8 = q mod 8 \<longleftrightarrow> q = p" by (metis div_mult_mod_eq)
  then show ?thesis using assms unfolding has_bit_def
    by (cases "q div 8 = p div 8") (auto simp: bit_simps bit_1_iff)
qed

lemma set_probes_bits:
  assumes "0 < bits" and "bits \<le> 8 * length array"
  shows "has_bit (set_probes bits j h delta array) q \<longleftrightarrow>
     has_bit array q \<or> (\<exists>i < j. q = bitpos (h + of_nat i * delta) bits)"
  using assms
proof (induction bits j h delta array rule: set_probes.induct)
  case (2 bits j h delta array)
  have "bitpos h bits div 8 < length array"
    using 2(2,3) unfolding bitpos_def by (metis less_mult_imp_div_less mod_less_divisor mult.commute order_less_le_trans)
  note S = has_bit_set [OF this, of q]
  have "(\<exists>i < Suc j. q = bitpos (h + of_nat i * delta) bits) \<longleftrightarrow>
      q = bitpos h bits \<or> (\<exists>i < j. q = bitpos (h + delta + of_nat i * delta) bits)"
    by (auto simp: less_Suc_eq_0_disj algebra_simps)
  with 2(1) [OF refl 2(2)] 2(3) S show ?case by (simp add: Let_def) blast
qed simp

lemma test_probes_bits:
  "test_probes bits j h delta array \<longleftrightarrow> (\<forall>i < j. has_bit array (bitpos (h + of_nat i * delta) bits))"
proof (induction bits j h delta array rule: test_probes.induct)
  case (2 bits j h delta array)
  have "(\<forall>i < Suc j. has_bit array (bitpos (h + of_nat i * delta) bits)) \<longleftrightarrow>
      has_bit array (bitpos h bits) \<and> (\<forall>i < j. has_bit array (bitpos (h + delta + of_nat i * delta) bits))"
    by (auto simp: less_Suc_eq_0_disj algebra_simps)
  with 2 show ?case by (auto simp: Let_def has_bit_def bit_iff_and_push_bit_not_eq_0)
qed simp

lemma fold_set_probes:
  assumes "0 < bits" and "bits \<le> 8 * length array"
  shows "length (fold (\<lambda>key. set_probes bits k (BloomHash key) (bloom_delta (BloomHash key))) keys array) = length array \<and>
     (has_bit (fold (\<lambda>key. set_probes bits k (BloomHash key) (bloom_delta (BloomHash key))) keys array) q \<longleftrightarrow>
        has_bit array q \<or> (\<exists>key \<in> set keys. \<exists>i < k. q = bitpos (BloomHash key + of_nat i * bloom_delta (BloomHash key)) bits))"
  using assms(2)
proof (induction keys arbitrary: array)
  case (Cons key keys)
  have "bits \<le> 8 * length (set_probes bits k (BloomHash key) (bloom_delta (BloomHash key)) array)" using Cons.prems by simp
  from Cons.IH [OF this] set_probes_bits [OF assms(1) Cons.prems] show ?case by auto
qed simp

lemma bloom_k_range: "1 \<le> bloom_k b \<and> bloom_k b \<le> 30"
  by (simp add: bloom_k_def Let_def)

lemma bloom_no_false_negatives:
  assumes "key \<in> set keys" shows "KeyMayMatch key (CreateFilter b keys [])"
proof -
  define bits1 where "bits1 = (if length keys * b < 64 then 64 else length keys * b)"
  define bytes where "bytes = (bits1 + 7) div 8"
  define array where "array = fold (\<lambda>key. set_probes (bytes * 8) (bloom_k b) (BloomHash key) (bloom_delta (BloomHash key)))
      keys (replicate bytes 0)"
  have "64 \<le> bits1" by (simp add: bits1_def)
  then have pos: "0 < bytes * 8" by (simp add: bytes_def div_greater_zero_iff)
  have f: "CreateFilter b keys [] = array @ [of_nat (bloom_k b)]"
    by (simp add: CreateFilter_def Let_def array_def bytes_def bits1_def)
  note F = fold_set_probes [OF pos, of "replicate bytes 0" "bloom_k b" keys]
  have len: "length array = bytes" using F by (simp add: array_def)
  have "unat (of_nat (bloom_k b) :: byte) = bloom_k b" using bloom_k_range [of b] by (intro unat_of_nat_small) simp
  then have k: "unat ((array @ [of_nat (bloom_k b)]) ! bytes) = bloom_k b" using len by (simp add: nth_append)
  have "has_bit (array @ [of_nat (bloom_k b)]) (bitpos (BloomHash key + of_nat i * bloom_delta (BloomHash key)) (bytes * 8))"
    if "i < bloom_k b" for i
  proof -
    let ?p = "bitpos (BloomHash key + of_nat i * bloom_delta (BloomHash key)) (bytes * 8)"
    have "has_bit array ?p" using F assms that unfolding array_def by auto
    moreover have "?p div 8 < length array"
      using pos len by (simp add: bitpos_def less_mult_imp_div_less)
    ultimately show ?thesis by (simp add: has_bit_def nth_append)
  qed
  with k len pos bloom_k_range [of b] show ?thesis
    unfolding KeyMayMatch_def f Let_def by (simp add: test_probes_bits)
qed

section \<open>What a filter policy promises\<close>

locale filter_policy =
  fixes create :: "slice list \<Rightarrow> slice \<Rightarrow> slice" and may_match :: "slice \<Rightarrow> slice \<Rightarrow> bool"
  assumes create_appends: "create keys dst = dst @ create keys []"
    and no_false_negatives: "key \<in> set keys \<Longrightarrow> may_match key (create keys [])"

locale user_filter_policy = filter_policy ucreate umatch for ucreate umatch

sublocale user_filter_policy \<subseteq> internal: filter_policy "InternalCreateFilter ucreate" "InternalKeyMayMatch umatch"
proof unfold_locales
  show "InternalCreateFilter ucreate keys dst = dst @ InternalCreateFilter ucreate keys []" for keys dst
    unfolding InternalCreateFilter_def by (rule create_appends)
  show "key \<in> set keys \<Longrightarrow> InternalKeyMayMatch umatch key (InternalCreateFilter ucreate keys [])" for key keys
    unfolding InternalCreateFilter_def InternalKeyMayMatch_def by (rule no_false_negatives) simp
qed

interpretation bloom: user_filter_policy "CreateFilter b" KeyMayMatch for b
proof unfold_locales
  show "CreateFilter b keys dst = dst @ CreateFilter b keys []" for keys dst
    by (simp add: CreateFilter_def Let_def)
qed (rule bloom_no_false_negatives)

section \<open>The filter block\<close>

definition kFilterBaseLg :: nat where
  "kFilterBaseLg = 11"

definition kFilterBase :: nat where
  "kFilterBase = 2 ^ kFilterBaseLg"

record FilterBlockBuilder =
  fb_keys :: slice
  fb_start :: "nat list"
  fb_result :: slice
  fb_offsets :: "u32 list"

definition new_builder :: FilterBlockBuilder where
  "new_builder = \<lparr> fb_keys = [], fb_start = [], fb_result = [], fb_offsets = [] \<rparr>"

definition GenerateFilter :: "(slice list \<Rightarrow> slice \<Rightarrow> slice) \<Rightarrow> FilterBlockBuilder \<Rightarrow> FilterBlockBuilder" where
  "GenerateFilter create st =
     (let num_keys = length (fb_start st) in
      if num_keys = 0 then st\<lparr> fb_offsets := fb_offsets st @ [of_nat (length (fb_result st))] \<rparr>
      else (let start = fb_start st @ [length (fb_keys st)];
                tmp_keys = map (\<lambda>i. take (start ! (i + 1) - start ! i) (drop (start ! i) (fb_keys st))) [0..<num_keys]
            in \<lparr> fb_keys = [], fb_start = [], fb_result = create tmp_keys (fb_result st),
                 fb_offsets = fb_offsets st @ [of_nat (length (fb_result st))] \<rparr>))"

lemma GenerateFilter_offsets [simp]:
  "fb_offsets (GenerateFilter create st) = fb_offsets st @ [of_nat (length (fb_result st))]"
  by (simp add: GenerateFilter_def Let_def)

text \<open>The loop of \<^verbatim>\<open>StartBlock\<close>: every round appends one offset.\<close>

function start_block_loop :: "(slice list \<Rightarrow> slice \<Rightarrow> slice) \<Rightarrow> nat \<Rightarrow> FilterBlockBuilder \<Rightarrow> FilterBlockBuilder" where
  "start_block_loop create filter_index st =
     (if length (fb_offsets st) < filter_index then start_block_loop create filter_index (GenerateFilter create st) else st)"
  by auto
termination by (relation "measure (\<lambda>(create, filter_index, st). filter_index - length (fb_offsets st))") auto

declare start_block_loop.simps [simp del]

definition StartBlock :: "(slice list \<Rightarrow> slice \<Rightarrow> slice) \<Rightarrow> nat \<Rightarrow> FilterBlockBuilder \<Rightarrow> FilterBlockBuilder" where
  "StartBlock create block_offset st = start_block_loop create (block_offset div kFilterBase) st"

definition AddKey :: "slice \<Rightarrow> FilterBlockBuilder \<Rightarrow> FilterBlockBuilder" where
  "AddKey key st = st\<lparr> fb_start := fb_start st @ [length (fb_keys st)], fb_keys := fb_keys st @ key \<rparr>"

definition Finish :: "(slice list \<Rightarrow> slice \<Rightarrow> slice) \<Rightarrow> FilterBlockBuilder \<Rightarrow> slice" where
  "Finish create st0 =
     (let st = (if fb_start st0 \<noteq> [] then GenerateFilter create st0 else st0);
          array_offset = of_nat (length (fb_result st))
      in PutFixed32 (fold (\<lambda>off r. PutFixed32 r off) (fb_offsets st) (fb_result st)) array_offset @ [of_nat kFilterBaseLg])"

record FilterBlockReader =
  fr_data :: slice
  fr_offset :: nat
  fr_num :: nat
  fr_base_lg :: nat

definition new_reader :: "slice \<Rightarrow> FilterBlockReader" where
  "new_reader contents =
     (let n = length contents in
      if n < 5 then \<lparr> fr_data = [], fr_offset = 0, fr_num = 0, fr_base_lg = 0 \<rparr>
      else (let lg = unat (contents ! (n - 1)); last_word = unat (DecodeFixed32 (drop (n - 5) contents)) in
            if n - 5 < last_word then \<lparr> fr_data = [], fr_offset = 0, fr_num = 0, fr_base_lg = lg \<rparr>
            else \<lparr> fr_data = contents, fr_offset = last_word, fr_num = (n - 5 - last_word) div 4, fr_base_lg = lg \<rparr>))"

definition reader_KeyMayMatch :: "(slice \<Rightarrow> slice \<Rightarrow> bool) \<Rightarrow> FilterBlockReader \<Rightarrow> nat \<Rightarrow> slice \<Rightarrow> bool" where
  "reader_KeyMayMatch may_match r block_offset key =
     (let index = block_offset div 2 ^ fr_base_lg r in
      if index < fr_num r
      then (let start = unat (DecodeFixed32 (drop (fr_offset r + index * 4) (fr_data r)));
                limit = unat (DecodeFixed32 (drop (fr_offset r + index * 4 + 4) (fr_data r)))
            in if start \<le> limit \<and> limit \<le> fr_offset r then may_match key (take (limit - start) (drop start (fr_data r)))
               else start \<noteq> limit)
      else True)"

section \<open>The builder groups keys by block offset\<close>

definition group_filter :: "(slice list \<Rightarrow> slice \<Rightarrow> slice) \<Rightarrow> slice list \<Rightarrow> slice" where
  "group_filter create ks = (if ks = [] then [] else create ks [])"

definition filters_upto :: "(slice list \<Rightarrow> slice \<Rightarrow> slice) \<Rightarrow> slice list list \<Rightarrow> nat \<Rightarrow> slice" where
  "filters_upto create gs i = concat (map (group_filter create) (take i gs))"

text \<open>\<open>gs\<close> are the key groups whose filters are built, \<open>ks\<close> the keys collected since.\<close>

definition builder_inv :: "(slice list \<Rightarrow> slice \<Rightarrow> slice) \<Rightarrow> FilterBlockBuilder \<Rightarrow> slice list list \<Rightarrow> slice list \<Rightarrow> bool" where
  "builder_inv create st gs ks \<longleftrightarrow> fb_result st = filters_upto create gs (length gs) \<and>
     fb_offsets st = map (\<lambda>i. of_nat (length (filters_upto create gs i))) [0..<length gs] \<and>
     fb_keys st = concat ks \<and> fb_start st = map (\<lambda>i. length (concat (take i ks))) [0..<length ks]"

lemma concat_slice:
  assumes "i < length ks"
  shows "take (length (concat (take (Suc i) ks)) - length (concat (take i ks))) (drop (length (concat (take i ks))) (concat ks)) = ks ! i"
proof -
  have "concat ks = concat (take i ks) @ ks ! i @ concat (drop (Suc i) ks)"
    by (metis assms append_assoc concat.simps(2) concat_append id_take_nth_drop)
  moreover have "length (concat (take (Suc i) ks)) = length (concat (take i ks)) + length (ks ! i)"
    using assms by (simp add: take_Suc_conv_app_nth)
  ultimately show ?thesis by simp
qed

lemma filters_upto_append [simp]: "i \<le> length gs \<Longrightarrow> filters_upto create (gs @ hs) i = filters_upto create gs i"
  by (simp add: filters_upto_def)

text \<open>The calls a table builder makes: per data block its offset and its keys.\<close>

definition add_blocks :: "(slice list \<Rightarrow> slice \<Rightarrow> slice) \<Rightarrow> (nat \<times> slice list) list \<Rightarrow> FilterBlockBuilder" where
  "add_blocks create blocks = fold (\<lambda>(off, new) st. fold AddKey new (StartBlock create off st)) blocks new_builder"

lemma fold_PutFixed32: "fold (\<lambda>off r. PutFixed32 r off) offs r = r @ concat (map EncodeFixed32 offs)"
  by (induction offs arbitrary: r) (simp_all add: PutFixed32_def)

lemma drop_concat_fixed:
  "\<forall>x \<in> set xs. length x = n \<Longrightarrow> j \<le> length xs \<Longrightarrow> drop (j * n) (concat xs @ t) = concat (drop j xs) @ t"
proof (induction j arbitrary: xs)
  case (Suc j)
  then obtain x ys where "xs = x # ys" by (cases xs) auto
  with Suc show ?case by simp
qed simp

context filter_policy
begin

lemma GenerateFilter_inv:
  assumes "builder_inv create st gs ks" shows "builder_inv create (GenerateFilter create st) (gs @ [ks]) []"
proof -
  note I = assms [unfolded builder_inv_def]
  have up: "filters_upto create (gs @ [ks]) (Suc (length gs)) = filters_upto create gs (length gs) @ group_filter create ks"
    by (simp add: filters_upto_def)
  have offs: "fb_offsets (GenerateFilter create st) =
      map (\<lambda>i. of_nat (length (filters_upto create (gs @ [ks]) i))) [0..<length (gs @ [ks])]"
    using I by simp
  have "fb_result (GenerateFilter create st) = fb_result st @ group_filter create ks \<and> fb_keys (GenerateFilter create st) = [] \<and>
      fb_start (GenerateFilter create st) = []"
  proof (cases "ks = []")
    case False
    let ?start = "fb_start st @ [length (fb_keys st)]"
    have start: "?start = map (\<lambda>i. length (concat (take i ks))) [0..<Suc (length ks)]" using I by simp
    have "map (\<lambda>i. take (?start ! (i + 1) - ?start ! i) (drop (?start ! i) (fb_keys st))) [0..<length ks] = map ((!) ks) [0..<length ks]"
      unfolding start using I by (intro map_cong refl) (simp add: concat_slice del: upt_Suc)
    also have "\<dots> = ks" by (rule map_nth)
    finally show ?thesis
      using False I create_appends [of ks "fb_result st"] by (simp add: GenerateFilter_def Let_def group_filter_def)
  qed (use I in \<open>simp add: GenerateFilter_def group_filter_def\<close>)
  with I up offs show ?thesis unfolding builder_inv_def by simp
qed

lemma start_block_loop_inv:
  assumes "builder_inv create st gs ks" and "length gs \<le> idx"
  shows "\<exists>gs' ks'. builder_inv create (start_block_loop create idx st) gs' ks' \<and> length gs' = idx \<and>
     gs' @ [ks'] = (gs @ [ks]) @ replicate (idx - length gs) []"
  using assms
proof (induction "idx - length gs" arbitrary: st gs ks)
  case 0
  then have "length (fb_offsets st) = length gs" by (simp add: builder_inv_def)
  with 0 show ?case by (subst start_block_loop.simps) auto
next
  case (Suc d)
  have l: "length (fb_offsets st) = length gs" using Suc.prems by (simp add: builder_inv_def)
  obtain gs' ks' where "builder_inv create (start_block_loop create idx (GenerateFilter create st)) gs' ks'" "length gs' = idx"
    "gs' @ [ks'] = ((gs @ [ks]) @ [[]]) @ replicate (idx - length (gs @ [ks])) []"
    using Suc.hyps(1) [OF _ GenerateFilter_inv [OF Suc.prems(1)]] Suc.hyps(2) by fastforce
  moreover have "replicate (idx - length gs) ([] :: slice list) = [] # replicate (idx - length (gs @ [ks])) []"
    using Suc.hyps(2) by (simp flip: replicate_Suc)
  ultimately show ?case using Suc.hyps(2) l by (subst start_block_loop.simps) auto
qed

lemma AddKeys_inv:
  "builder_inv create st gs ks \<Longrightarrow> builder_inv create (fold AddKey new st) gs (ks @ new)"
proof (induction new arbitrary: st ks)
  case (Cons k new)
  have "builder_inv create (AddKey k st) gs (ks @ [k])" using Cons.prems by (simp add: builder_inv_def AddKey_def)
  from Cons.IH [OF this] show ?case by simp
qed simp

lemma add_blocks_inv:
  assumes "sorted (map fst blocks)"
  shows "\<exists>gs ks. builder_inv create (add_blocks create blocks) gs ks \<and>
     length gs = (if blocks = [] then 0 else fst (last blocks) div kFilterBase) \<and>
     (\<forall>(off, new) \<in> set blocks. off div kFilterBase \<le> length gs \<and> set new \<subseteq> set ((gs @ [ks]) ! (off div kFilterBase)))"
  using assms
proof (induction blocks rule: rev_induct)
  case Nil
  then show ?case by (intro exI [of _ "[]"]) (simp add: add_blocks_def new_builder_def builder_inv_def filters_upto_def)
next
  case (snoc b blocks)
  obtain off new where b: "b = (off, new)" by (cases b)
  from snoc obtain gs ks where I: "builder_inv create (add_blocks create blocks) gs ks"
    "length gs = (if blocks = [] then 0 else fst (last blocks) div kFilterBase)"
    "\<forall>(off, new) \<in> set blocks. off div kFilterBase \<le> length gs \<and> set new \<subseteq> set ((gs @ [ks]) ! (off div kFilterBase))"
    by (auto simp: sorted_append)
  let ?i = "off div kFilterBase"
  have "length gs \<le> ?i" using snoc.prems I(2) b by (auto simp: sorted_append div_le_mono)
  from start_block_loop_inv [OF I(1) this] obtain gs' ks' where
    J: "builder_inv create (StartBlock create off (add_blocks create blocks)) gs' ks'" "length gs' = ?i"
      "gs' @ [ks'] = (gs @ [ks]) @ replicate (?i - length gs) []" by (auto simp: StartBlock_def)
  have step: "add_blocks create (blocks @ [b]) = fold AddKey new (StartBlock create off (add_blocks create blocks))"
    by (simp add: add_blocks_def b)
  have old: "set ((gs' @ [ks']) ! j) \<subseteq> set ((gs' @ [ks' @ new]) ! j)" if "j \<le> length gs'" for j
    using that by (auto simp: nth_append)
  have "off' div kFilterBase \<le> length gs' \<and> set new' \<subseteq> set ((gs' @ [ks' @ new]) ! (off' div kFilterBase))"
    if "(off', new') \<in> set (blocks @ [b])" for off' new'
  proof (cases "(off', new') \<in> set blocks")
    case True
    then have k: "off' div kFilterBase \<le> length gs" "set new' \<subseteq> set ((gs @ [ks]) ! (off' div kFilterBase))" using I(3) by auto
    moreover have "(gs' @ [ks']) ! (off' div kFilterBase) = (gs @ [ks]) ! (off' div kFilterBase)"
      unfolding J(3) using k(1) by (subst nth_append) simp
    moreover have "off' div kFilterBase \<le> length gs'" using k(1) \<open>length gs \<le> ?i\<close> J(2) by simp
    ultimately show ?thesis using old [of "off' div kFilterBase"] by auto
  qed (use that b J(2) in \<open>auto simp: nth_append\<close>)
  then have all: "\<forall>(off, new') \<in> set (blocks @ [b]). off div kFilterBase \<le> length gs' \<and>
      set new' \<subseteq> set ((gs' @ [ks' @ new]) ! (off div kFilterBase))" by blast
  have "length gs' = (if blocks @ [b] = [] then 0 else fst (last (blocks @ [b])) div kFilterBase)" using J(2) b by simp
  with AddKeys_inv [OF J(1), of new] all show ?case unfolding step by blast
qed

lemma Finish_layout:
  assumes "builder_inv create st gs ks"
  shows "\<exists>hs. Finish create st = filters_upto create hs (length hs) @
      concat (map (\<lambda>i. EncodeFixed32 (of_nat (length (filters_upto create hs i)))) [0..<Suc (length hs)]) @ [of_nat kFilterBaseLg] \<and>
      (\<forall>i \<le> length gs. (gs @ [ks]) ! i \<noteq> [] \<longrightarrow> i < length hs \<and> hs ! i = (gs @ [ks]) ! i)"
proof -
  define st1 where "st1 = (if fb_start st \<noteq> [] then GenerateFilter create st else st)"
  define hs where "hs = (if ks = [] then gs else gs @ [ks])"
  have "fb_start st = [] \<longleftrightarrow> ks = []" using assms by (simp add: builder_inv_def)
  with assms GenerateFilter_inv [OF assms] have "builder_inv create st1 hs []" by (auto simp: st1_def hs_def)
  then have "fb_result st1 = filters_upto create hs (length hs)"
    "fb_offsets st1 = map (\<lambda>i. of_nat (length (filters_upto create hs i))) [0..<length hs]" by (simp_all add: builder_inv_def)
  then have "Finish create st = filters_upto create hs (length hs) @
      concat (map (\<lambda>i. EncodeFixed32 (of_nat (length (filters_upto create hs i)))) [0..<Suc (length hs)]) @ [of_nat kFilterBaseLg]"
    unfolding Finish_def Let_def st1_def [symmetric] fold_PutFixed32 by (simp add: PutFixed32_def comp_def)
  moreover have "\<forall>i \<le> length gs. (gs @ [ks]) ! i \<noteq> [] \<longrightarrow> i < length hs \<and> hs ! i = (gs @ [ks]) ! i"
    by (auto simp: hs_def nth_append)
  ultimately show ?thesis by blast
qed

lemma reader_finds_group:
  assumes contents: "contents = filters_upto create hs (length hs) @
      concat (map (\<lambda>i. EncodeFixed32 (of_nat (length (filters_upto create hs i)))) [0..<Suc (length hs)]) @ [of_nat kFilterBaseLg]"
    and small: "length (filters_upto create hs (length hs)) < 2 ^ 32" and i: "off div kFilterBase < length hs"
    and key: "key \<in> set (hs ! (off div kFilterBase))"
  shows "reader_KeyMayMatch may_match (new_reader contents) off key"
proof -
  let ?R = "filters_upto create hs (length hs)" and ?i = "off div kFilterBase"
  let ?e = "\<lambda>i. EncodeFixed32 (of_nat (length (filters_upto create hs i)))"
  have len: "length contents = length ?R + 4 * length hs + 5"
    unfolding contents by (simp add: length_concat comp_def sum_list_triv del: upt_Suc)
  have le: "length (filters_upto create hs j) \<le> length ?R" for j
    unfolding filters_upto_def by (metis append_take_drop_id concat_append le_add1 length_append map_append take_all_iff order_refl)
  have dec: "unat (DecodeFixed32 (drop (length ?R + j * 4) contents)) = length (filters_upto create hs j)" if "j \<le> length hs" for j
  proof -
    have "drop (length ?R + j * 4) contents = concat (map ?e [j..<Suc (length hs)]) @ [of_nat kFilterBaseLg]"
      unfolding contents using that drop_concat_fixed [of "map ?e [0..<Suc (length hs)]" 4 j] by (simp add: drop_map del: upt_Suc)
    also have "\<dots> = ?e j @ concat (map ?e [Suc j..<Suc (length hs)]) @ [of_nat kFilterBaseLg]"
      using that by (subst upt_conv_Cons) auto
    finally show ?thesis using le [of j] small by (simp add: unat_of_nat_small del: unsigned_of_nat)
  qed
  have last: "unat (contents ! (length contents - 1)) = 11"
    unfolding contents by (simp add: nth_append kFilterBaseLg_def del: upt_Suc)
  have r: "new_reader contents = \<lparr> fr_data = contents, fr_offset = length ?R, fr_num = length hs, fr_base_lg = 11 \<rparr>"
    using dec [of "length hs"] last len by (simp add: new_reader_def Let_def algebra_simps)
  let ?s = "length (filters_upto create hs ?i)" and ?l = "length (filters_upto create hs (Suc ?i))"
  have sl: "?s \<le> ?l" using i by (simp add: filters_upto_def take_Suc_conv_app_nth)
  have "take (?l - ?s) (drop ?s contents) = take (?l - ?s) (drop ?s ?R)"
    unfolding contents using le [of ?i] le [of "Suc ?i"] by simp
  also have "\<dots> = group_filter create (hs ! ?i)"
    using concat_slice [of ?i "map (group_filter create) hs"] i by (simp add: filters_upto_def take_map)
  also have "\<dots> = create (hs ! ?i) []" using key by (auto simp: group_filter_def)
  finally have "may_match key (take (?l - ?s) (drop ?s contents))" using no_false_negatives [OF key] by simp
  moreover have "off div 2 ^ 11 = ?i" by (simp add: kFilterBase_def kFilterBaseLg_def)
  ultimately show ?thesis
    unfolding reader_KeyMayMatch_def r Let_def using i dec [of ?i] dec [of "Suc ?i"] sl le [of "Suc ?i"] by (simp add: algebra_simps)
qed

lemma filter_block_complete:
  assumes "sorted (map fst blocks)" and "(off, new) \<in> set blocks" and "key \<in> set new"
    and "length (Finish create (add_blocks create blocks)) < 2 ^ 32"
  shows "reader_KeyMayMatch may_match (new_reader (Finish create (add_blocks create blocks))) off key"
proof -
  let ?i = "off div kFilterBase"
  from add_blocks_inv [OF assms(1)] obtain gs ks where I: "builder_inv create (add_blocks create blocks) gs ks"
    "\<forall>(off, new) \<in> set blocks. off div kFilterBase \<le> length gs \<and> set new \<subseteq> set ((gs @ [ks]) ! (off div kFilterBase))" by blast
  with assms(2,3) have g: "?i \<le> length gs" "key \<in> set ((gs @ [ks]) ! ?i)" by auto
  from Finish_layout [OF I(1)] obtain hs where
    hs: "Finish create (add_blocks create blocks) = filters_upto create hs (length hs) @
      concat (map (\<lambda>i. EncodeFixed32 (of_nat (length (filters_upto create hs i)))) [0..<Suc (length hs)]) @ [of_nat kFilterBaseLg]"
    "\<forall>i \<le> length gs. (gs @ [ks]) ! i \<noteq> [] \<longrightarrow> i < length hs \<and> hs ! i = (gs @ [ks]) ! i" by blast
  have "(gs @ [ks]) ! ?i \<noteq> []" using g(2) by auto
  with hs(2) g have "?i < length hs" "key \<in> set (hs ! ?i)" by auto
  moreover have "length (filters_upto create hs (length hs)) < 2 ^ 32" using assms(4) unfolding hs(1) by simp
  ultimately show ?thesis using reader_finds_group [OF hs(1)] by blast
qed

end

section \<open>Properties\<close>

text \<open>
  C37. The filter block of a table has no false negatives. However the keys of the data blocks
  are spread over the 2 KiB windows of block offsets, the reader, given the bytes the builder
  produced with the Bloom policy for internal keys, answers that a key may be present in the block
  with that offset whenever the key was added to that block. Blocks come in the order of their
  offsets and the filter block is smaller than 4 GiB.
\<close>

theorem filter_block_no_false_negatives:
  assumes "contents = Finish (InternalCreateFilter (CreateFilter b)) (add_blocks (InternalCreateFilter (CreateFilter b)) blocks)"
    and "sorted (map fst blocks)" and "(off, keys) \<in> set blocks" and "key \<in> set keys" and "length contents < 2 ^ 32"
  shows "reader_KeyMayMatch (InternalKeyMayMatch KeyMayMatch) (new_reader contents) off key"
  using bloom.internal.filter_block_complete [OF assms(2-4)] assms(1,5) by simp

lemma demo_filter_size:
  "length (Finish (InternalCreateFilter (CreateFilter 10)) (add_blocks (InternalCreateFilter (CreateFilter 10)) [(5000, [k])])) = 26"
proof -
  let ?c = "InternalCreateFilter (CreateFilter 10)"
  have idx: "5000 div kFilterBase = 2" by (simp add: kFilterBase_def kFilterBaseLg_def)
  have l: "length (?c [k] []) = 9"
  proof -
    have "length (fold (\<lambda>key. set_probes 64 k (BloomHash key) (bloom_delta (BloomHash key))) ks (replicate 8 0)) = 8" for ks k
      using fold_set_probes [of 64 "replicate 8 0"] by simp
    then show ?thesis by (simp add: InternalCreateFilter_def CreateFilter_def Let_def)
  qed
  show ?thesis
    by (simp add: add_blocks_def StartBlock_def idx start_block_loop.simps new_builder_def GenerateFilter_def AddKey_def
        Finish_def l PutFixed32_def)
qed

theorem filter_block_no_false_negatives_witness:
  "reader_KeyMayMatch (InternalKeyMayMatch KeyMayMatch)
     (new_reader (Finish (InternalCreateFilter (CreateFilter 10))
        (add_blocks (InternalCreateFilter (CreateFilter 10)) [(5000, [[97] @ EncodeFixed64 7])]))) 5000 ([97] @ EncodeFixed64 7)"
  by (rule filter_block_no_false_negatives [OF refl, where keys = "[[97] @ EncodeFixed64 7]"]) (simp_all add: demo_filter_size)

end
