(* ===== verification/Rand.thy ===== *)
theory Rand
  imports Coding
begin

text \<open>
  The random number generator of \<^verbatim>\<open>leveldb/util/random.h\<close>, a multiplicative congruential generator
  modulo the prime \<open>2\<^sup>3\<^sup>1 - 1\<close> that computes its remainder without a division.
\<close>

unbundle bit_operations_syntax

section \<open>Definitions\<close>

definition new_Random :: "u32 \<Rightarrow> u32" where
  "new_Random s = (let seed = s AND 0x7fffffff in if seed = 0 \<or> seed = 2147483647 then 1 else seed)"

text \<open>The new seed, which is also the number returned.\<close>

definition Random_Next :: "u32 \<Rightarrow> u32" where
  "Random_Next seed =
     (let product = (ucast seed :: u64) * 16807;
          seed' = (ucast (drop_bit 31 product + (product AND 2147483647)) :: u32)
      in if 2147483647 < seed' then seed' - 2147483647 else seed')"

definition Uniform :: "u32 \<Rightarrow> u32 \<Rightarrow> u32 \<times> u32" where
  "Uniform n seed = (let s = Random_Next seed in (s mod n, s))"

definition OneIn :: "u32 \<Rightarrow> u32 \<Rightarrow> bool \<times> u32" where
  "OneIn n seed = (let s = Random_Next seed in (s mod n = 0, s))"

section \<open>The remainder without a division\<close>

definition seed_ok :: "u32 \<Rightarrow> bool" where
  "seed_ok seed \<longleftrightarrow> 0 < unat seed \<and> unat seed < 2147483647"

lemma and_M: "v AND 2147483647 = take_bit 31 v" for v :: "'a::len word"
  by (simp only: take_bit_eq_mask) (simp add: mask_numeral)

lemma unat_M: "unat (2147483647 :: u32) = 2147483647"
  by simp

lemma new_Random_ok: "seed_ok (new_Random s)"
proof -
  let ?n = "unat (take_bit 31 s)"
  have lt: "?n < 2147483648" by (simp add: unat_take_bit)
  have z: "take_bit 31 s = 0 \<longleftrightarrow> ?n = 0" by (simp only: unsigned_eq_0_iff)
  have m: "take_bit 31 s = 2147483647 \<longleftrightarrow> ?n = 2147483647" by (simp only: word_unat_eq_iff unat_M)
  show ?thesis unfolding seed_ok_def new_Random_def Let_def and_M z m using lt by auto
qed

text \<open>The arithmetic: with \<open>p = q \<sqdot> 2\<^sup>3\<^sup>1 + r\<close>, \<open>q + r\<close> is \<open>p\<close> up to multiples of \<open>2\<^sup>3\<^sup>1 - 1\<close>.\<close>

lemma coprime_A_M: "coprime (16807 :: nat) 2147483647"
proof -
  have "coprime (7 :: nat) (7 * 306783378 + 1)"
  proof (rule coprimeI)
    fix c :: nat assume "c dvd 7" "c dvd 7 * 306783378 + 1"
    then show "is_unit c" using dvd_add_right_iff [of c "7 * 306783378" 1] dvd_mult2 by blast
  qed
  then have "coprime ((7 :: nat) ^ 5) 2147483647" by (simp only: coprime_power_left_iff) simp
  then show ?thesis by simp
qed

lemma fold_mod:
  fixes p :: nat
  assumes "p < 2147483647 * 16807" and "p mod 2147483647 \<noteq> 0"
  defines "t \<equiv> p div 2 ^ 31 + p mod 2 ^ 31"
  shows "t < 2 ^ 32" and "(if 2147483647 < t then t - 2147483647 else t) = p mod 2147483647"
proof -
  have q: "p div 2 ^ 31 < 16807" using assms(1) by (simp add: div_less_iff_less_mult)
  have r: "p mod 2 ^ 31 < 2 ^ 31" by simp
  show "t < 2 ^ 32" using q r unfolding t_def by simp
  have "p = p div 2 ^ 31 * 2 ^ 31 + p mod 2 ^ 31" by simp
  then have "p = p div 2 ^ 31 * 2147483647 + t" unfolding t_def by (simp add: algebra_simps)
  then have m: "p mod 2147483647 = t mod 2147483647" by (metis add.commute mod_mult_self1)
  have "t < 2 * 2147483647" using q r unfolding t_def by simp
  moreover have "t \<noteq> 2147483647" using assms(2) m by auto
  ultimately show "(if 2147483647 < t then t - 2147483647 else t) = p mod 2147483647"
    unfolding m by (cases "2147483647 < t") (simp_all add: mod_if)
qed

lemma Random_Next_spec:
  assumes "seed_ok s"
  shows "unat (Random_Next s) = unat s * 16807 mod 2147483647" and "seed_ok (Random_Next s)"
proof -
  define p where "p = unat s * 16807"
  have s: "0 < unat s" "unat s < 2147483647" using assms by (simp_all add: seed_ok_def)
  have lt: "p < 2147483647 * 16807" using s(2) unfolding p_def by simp
  have "\<not> 2147483647 dvd unat s" using s by (auto dest: dvd_imp_le)
  then have "\<not> 2147483647 dvd p"
    unfolding p_def using coprime_A_M by (metis coprime_commute coprime_dvd_mult_left_iff)
  then have nz: "p mod 2147483647 \<noteq> 0" by (simp add: mod_eq_0_iff_dvd)
  let ?product = "(ucast s :: u64) * 16807"
  let ?t = "p div 2 ^ 31 + p mod 2 ^ 31"
  have up: "unat ?product = p"
  proof -
    have "unat (ucast s :: u64) = unat s" using s(2) by (simp add: unsigned_ucast_eq take_bit_nat_eq_self)
    then show ?thesis using lt by (simp add: p_def unat_word_ariths(2))
  qed
  have "unat (drop_bit 31 ?product + (?product AND 2147483647)) = ?t"
    unfolding and_M unat_word_ariths(1) unat_drop_bit unat_take_bit up using fold_mod(1) [OF lt nz] by simp
  then have t: "unat (ucast (drop_bit 31 ?product + (?product AND 2147483647)) :: u32) = ?t"
    using fold_mod(1) [OF lt nz] by (simp add: unsigned_ucast_eq take_bit_nat_eq_self)
  then show 1: "unat (Random_Next s) = unat s * 16807 mod 2147483647"
    unfolding Random_Next_def Let_def word_less_nat_alt unat_M using fold_mod(2) [OF lt nz]
    by (simp add: unat_sub_if' p_def split: if_splits)
  have "p mod 2147483647 < 2147483647" by simp
  with 1 nz show "seed_ok (Random_Next s)" by (simp add: seed_ok_def p_def)
qed

end
