(* ===== verification/SkipList.thy ===== *)
theory SkipList
  imports Rand Keys
begin

text \<open>
  The skip list of \<^verbatim>\<open>leveldb/db/skiplist.h\<close>. Nodes live in an arena and are never freed, so a node is
  an index into the list of all nodes; index 0 is \<^verbatim>\<open>head_\<close>. The searches follow pointers and are
  partial: they are proved to return. The theory shows that the linked structure implements a sorted
  list of keys: insertion, membership and the iterator.
\<close>

section \<open>Definitions\<close>

definition kMaxHeight :: nat where
  "kMaxHeight = 12"

definition kBranching :: u32 where
  "kBranching = 4"

record 'k node =
  nkey :: 'k
  nnext :: "nat option list"

record 'k SkipList =
  nodes :: "'k node list"
  max_height :: nat
  rnd :: u32

definition NewNode :: "'k \<Rightarrow> nat \<Rightarrow> 'k node" where
  "NewNode key height = \<lparr> nkey = key, nnext = replicate height None \<rparr>"

text \<open>The head holds any key.\<close>

definition new_SkipList :: "'k \<Rightarrow> 'k SkipList" where
  "new_SkipList any_key = \<lparr> nodes = [NewNode any_key kMaxHeight], max_height = 1, rnd = new_Random 0xdeadbeef \<rparr>"

definition key_at :: "'k SkipList \<Rightarrow> nat \<Rightarrow> 'k" where
  "key_at L x = nkey (nodes L ! x)"

definition height_at :: "'k SkipList \<Rightarrow> nat \<Rightarrow> nat" where
  "height_at L x = length (nnext (nodes L ! x))"

definition Next :: "'k SkipList \<Rightarrow> nat \<Rightarrow> nat \<Rightarrow> nat option" where
  "Next L n x = nnext (nodes L ! x) ! n"

definition SetNext :: "nat \<Rightarrow> nat \<Rightarrow> nat option \<Rightarrow> 'k SkipList \<Rightarrow> 'k SkipList" where
  "SetNext n x p L = L\<lparr> nodes := (nodes L)[x := (nodes L ! x)\<lparr> nnext := (nnext (nodes L ! x))[n := p] \<rparr>] \<rparr>"

function height_loop :: "nat \<Rightarrow> u32 \<Rightarrow> nat \<times> u32" where
  "height_loop height r =
     (if height < kMaxHeight
      then (let (b, r) = OneIn kBranching r in if b then height_loop (height + 1) r else (height, r))
      else (height, r))"
  by pat_completeness auto
termination
  by (relation "measure (\<lambda>(height, r). kMaxHeight - height)") auto

declare height_loop.simps [simp del]

definition RandomHeight :: "u32 \<Rightarrow> nat \<times> u32" where
  "RandomHeight r = height_loop 1 r"

definition KeyIsAfterNode :: "('k \<Rightarrow> 'k \<Rightarrow> int) \<Rightarrow> 'k SkipList \<Rightarrow> 'k \<Rightarrow> nat option \<Rightarrow> bool" where
  "KeyIsAfterNode cmp L key n = (case n of None \<Rightarrow> False | Some a \<Rightarrow> cmp (key_at L a) key < 0)"

text \<open>
  The loop of the three searches: it goes on in the list of a level while \<open>go\<close> holds of the next
  pointer, then drops a level, recording where in \<open>prev\<close> (a search that is given a null array has
  the empty list there). It returns the node it ends at and that node's successor. Following a
  pointer that is not there has no result.
\<close>

partial_function (option) search_loop ::
  "(nat option \<Rightarrow> bool) \<Rightarrow> 'k SkipList \<Rightarrow> nat \<Rightarrow> nat \<Rightarrow> nat list \<Rightarrow> (nat \<times> nat option \<times> nat list) option" where
  "search_loop go L x level prev =
     (if x < length (nodes L) \<and> level < height_at L x
      then (let next = Next L level x in
            if go next then (case next of Some y \<Rightarrow> search_loop go L y level prev | None \<Rightarrow> None)
            else (let prev = prev[level := x] in
                  if level = 0 then Some (x, next, prev) else search_loop go L x (level - 1) prev))
      else None)"

definition FindGreaterOrEqual :: "('k \<Rightarrow> 'k \<Rightarrow> int) \<Rightarrow> 'k SkipList \<Rightarrow> 'k \<Rightarrow> nat list \<Rightarrow> (nat option \<times> nat list) option" where
  "FindGreaterOrEqual cmp L key prev =
     map_option snd (search_loop (KeyIsAfterNode cmp L key) L 0 (max_height L - 1) prev)"

definition FindLessThan :: "('k \<Rightarrow> 'k \<Rightarrow> int) \<Rightarrow> 'k SkipList \<Rightarrow> 'k \<Rightarrow> nat option" where
  "FindLessThan cmp L key =
     map_option fst (search_loop (\<lambda>next. \<not> (case next of None \<Rightarrow> True | Some a \<Rightarrow> 0 \<le> cmp (key_at L a) key)) L 0 (max_height L - 1) [])"

definition FindLast :: "'k SkipList \<Rightarrow> nat option" where
  "FindLast L = map_option fst (search_loop (\<lambda>next. next \<noteq> None) L 0 (max_height L - 1) [])"

definition link_level :: "nat \<Rightarrow> nat list \<Rightarrow> nat \<Rightarrow> 'k SkipList \<Rightarrow> 'k SkipList" where
  "link_level x prev i L = (let L = SetNext i x (Next L i (prev ! i)) L in SetNext i (prev ! i) (Some x) L)"

text \<open>The entries of \<open>prev\<close> the search does not set are set before they are used.\<close>

definition raise_height :: "nat \<Rightarrow> nat list \<Rightarrow> 'k SkipList \<Rightarrow> nat list \<times> 'k SkipList" where
  "raise_height height prev L =
     (if max_height L < height
      then (fold (\<lambda>i prev. prev[i := 0]) [max_height L ..< height] prev, L\<lparr> max_height := height \<rparr>)
      else (prev, L))"

definition Insert :: "('k \<Rightarrow> 'k \<Rightarrow> int) \<Rightarrow> 'k \<Rightarrow> 'k SkipList \<Rightarrow> 'k SkipList option" where
  "Insert cmp key L = (case FindGreaterOrEqual cmp L key (replicate kMaxHeight 0) of
     None \<Rightarrow> None
   | Some (_, prev) \<Rightarrow>
       (let (height, r) = RandomHeight (rnd L);
            (prev, L) = raise_height height prev (L\<lparr> rnd := r \<rparr>);
            x = length (nodes L)
        in Some (fold (link_level x prev) [0..<height] (L\<lparr> nodes := nodes L @ [NewNode key height] \<rparr>))))"

definition Contains :: "('k \<Rightarrow> 'k \<Rightarrow> int) \<Rightarrow> 'k \<Rightarrow> 'k SkipList \<Rightarrow> bool option" where
  "Contains cmp key L = map_option (\<lambda>(x, prev). case x of None \<Rightarrow> False | Some a \<Rightarrow> cmp key (key_at L a) = 0)
     (FindGreaterOrEqual cmp L key [])"

text \<open>The iterator is its node pointer; the outer option is the result of the search.\<close>

definition iter_Valid :: "nat option \<Rightarrow> bool" where
  "iter_Valid node \<longleftrightarrow> node \<noteq> None"

definition iter_key :: "'k SkipList \<Rightarrow> nat option \<Rightarrow> 'k" where
  "iter_key L node = key_at L (the node)"

definition iter_Next :: "'k SkipList \<Rightarrow> nat option \<Rightarrow> nat option" where
  "iter_Next L node = Next L 0 (the node)"

definition iter_Prev :: "('k \<Rightarrow> 'k \<Rightarrow> int) \<Rightarrow> 'k SkipList \<Rightarrow> nat option \<Rightarrow> nat option option" where
  "iter_Prev cmp L node = map_option (\<lambda>x. if x = 0 then None else Some x) (FindLessThan cmp L (key_at L (the node)))"

definition iter_Seek :: "('k \<Rightarrow> 'k \<Rightarrow> int) \<Rightarrow> 'k SkipList \<Rightarrow> 'k \<Rightarrow> nat option option" where
  "iter_Seek cmp L target = map_option fst (FindGreaterOrEqual cmp L target [])"

definition iter_SeekToFirst :: "'k SkipList \<Rightarrow> nat option" where
  "iter_SeekToFirst L = Next L 0 0"

definition iter_SeekToLast :: "'k SkipList \<Rightarrow> nat option option" where
  "iter_SeekToLast L = map_option (\<lambda>x. if x = 0 then None else Some x) (FindLast L)"

section \<open>Chains of pointers\<close>

primrec linked :: "(nat \<Rightarrow> nat option) \<Rightarrow> nat \<Rightarrow> nat list \<Rightarrow> bool" where
  "linked nx x [] \<longleftrightarrow> nx x = None"
| "linked nx x (y # ys) \<longleftrightarrow> nx x = Some y \<and> linked nx y ys"

definition hd_opt :: "'a list \<Rightarrow> 'a option" where
  "hd_opt xs = (case xs of [] \<Rightarrow> None | x # _ \<Rightarrow> Some x)"

lemma hd_opt_simps [simp]: "hd_opt [] = None" "hd_opt (x # xs) = Some x"
  by (simp_all add: hd_opt_def)

lemma linked_hd: "linked nx x ys \<Longrightarrow> nx x = hd_opt ys"
  by (cases ys) simp_all

lemma linked_split: "linked nx x (us @ y # ys) \<Longrightarrow> linked nx y ys"
  by (induction us arbitrary: x) auto

lemma linked_cong: "(\<And>a. a \<in> set (x # ys) \<Longrightarrow> nx' a = nx a) \<Longrightarrow> linked nx' x ys = linked nx x ys"
  by (induction ys arbitrary: x) auto

lemma linked_move:
  assumes "linked nx x zs" and "nx' n = nx x" and "\<And>a. a \<in> set zs \<Longrightarrow> nx' a = nx a"
  shows "linked nx' n zs"
proof (cases zs)
  case (Cons z zs')
  with assms have "nx' n = Some z" "linked nx z zs'" by simp_all
  moreover have "linked nx' z zs' = linked nx z zs'" by (rule linked_cong) (use Cons assms(3) in simp)
  ultimately show ?thesis using Cons by simp
qed (use assms in simp)

lemma linked_insert:
  assumes "linked nx x (ys @ zs)" and "distinct (x # ys @ zs)" and "n \<notin> set (x # ys @ zs)"
    and "nx' n = nx (last (x # ys))" and "nx' (last (x # ys)) = Some n"
    and "\<And>a. a \<in> set (x # ys @ zs) \<Longrightarrow> a \<noteq> last (x # ys) \<Longrightarrow> nx' a = nx a"
  shows "linked nx' x (ys @ n # zs)"
  using assms
proof (induction ys arbitrary: x)
  case Nil
  have "linked nx' n zs" by (rule linked_move [of nx x]) (use Nil in auto)
  with Nil show ?case by simp
next
  case (Cons y ys)
  have "last (y # ys) \<noteq> x" using Cons.prems(2) by (metis Cons_eq_appendI distinct.simps(2) in_set_conv_decomp last_in_set list.distinct(1) set_append UnI1)
  then have "nx' x = nx x" using Cons.prems by (intro Cons.prems(6)) auto
  moreover have "linked nx' y (ys @ n # zs)" by (rule Cons.IH) (use Cons.prems in auto)
  ultimately show ?case using Cons.prems(1) by simp
qed

section \<open>Searching\<close>

definition level :: "'k SkipList \<Rightarrow> nat \<Rightarrow> nat list \<Rightarrow> nat list" where
  "level L i as = filter (\<lambda>a. i < height_at L a) as"

lemma level_append [simp]: "level L i (as @ bs) = level L i as @ level L i bs"
  by (simp add: level_def)

lemma set_level: "set (level L i as) = {a \<in> set as. i < height_at L a}"
  by (auto simp: level_def)

text \<open>\<open>as\<close> are the nodes after the head in their order, each reachable on all its levels.\<close>

definition list_ok :: "'k SkipList \<Rightarrow> nat list \<Rightarrow> bool" where
  "list_ok L as \<longleftrightarrow> nodes L \<noteq> [] \<and> height_at L 0 = kMaxHeight \<and> distinct as \<and> set as = {1..<length (nodes L)} \<and>
     (\<forall>a\<in>set as. 0 < height_at L a \<and> height_at L a \<le> max_height L) \<and>
     0 < max_height L \<and> max_height L \<le> kMaxHeight \<and> (\<forall>i<kMaxHeight. linked (Next L i) 0 (level L i as)) \<and> seed_ok (rnd L)"

lemma level_0: "list_ok L as \<Longrightarrow> set bs \<subseteq> set as \<Longrightarrow> level L 0 bs = bs"
  by (auto simp: level_def list_ok_def intro!: filter_True)

lemma search_level:
  assumes "linked (Next L i) x (ys @ zs)" and "\<forall>y\<in>set (x # ys). y < length (nodes L) \<and> i < height_at L y"
    and "\<forall>y\<in>set ys. go (Some y)" and "\<not> go (hd_opt zs)"
  shows "search_loop go L x i prev =
     (let p = last (x # ys) in if i = 0 then Some (p, hd_opt zs, prev[i := p]) else search_loop go L p (i - 1) (prev[i := p]))"
  using assms
proof (induction ys arbitrary: x)
  case Nil
  then show ?case using linked_hd [of "Next L i" x zs] by (subst search_loop.simps) simp
next
  case (Cons y ys)
  have "search_loop go L x i prev = search_loop go L y i prev" using Cons.prems by (subst search_loop.simps) simp
  also have "\<dots> = (let p = last (y # ys) in if i = 0 then Some (p, hd_opt zs, prev[i := p]) else search_loop go L p (i - 1) (prev[i := p]))"
    by (rule Cons.IH) (use Cons.prems in simp_all)
  finally show ?case by simp
qed

definition last_at :: "'k SkipList \<Rightarrow> nat \<Rightarrow> nat list \<Rightarrow> nat" where
  "last_at L i B = last (0 # level L i B)"

lemma search_down:
  assumes ok: "list_ok L (B @ A)" and go: "\<forall>a\<in>set B. go (Some a)" "\<forall>a\<in>set A. \<not> go (Some a)" "\<not> go None"
    and i: "i < kMaxHeight" and x: "x \<in> set (0 # level L i B)"
  shows "search_loop go L x i prev = (if i = 0 then Some (last_at L i B, hd_opt (level L i A), prev[i := last_at L i B])
     else search_loop go L (last_at L i B) (i - 1) (prev[i := last_at L i B]))"
proof -
  obtain us ys where e: "0 # level L i B = us @ x # ys" using x by (metis split_list)
  have l: "linked (Next L i) 0 (level L i B @ level L i A)" using ok i by (simp add: list_ok_def)
  have lx: "linked (Next L i) x (ys @ level L i A)"
  proof (cases us)
    case Nil
    with e l show ?thesis by simp
  next
    case (Cons u us')
    with e have "level L i B = us' @ x # ys" by simp
    with l show ?thesis using linked_split [of "Next L i" 0 us' x "ys @ level L i A"] by simp
  qed
  have sub: "set (x # ys) \<subseteq> set (0 # level L i B)" unfolding e by auto
  have "y < length (nodes L) \<and> i < height_at L y" if "y \<in> set (0 # level L i B)" for y
    using that ok i by (auto simp: list_ok_def set_level)
  with sub have r: "\<forall>y\<in>set (x # ys). y < length (nodes L) \<and> i < height_at L y" by blast
  have "set ys \<subseteq> set (level L i B)" using e by (cases us) auto
  then have y: "\<forall>y\<in>set ys. go (Some y)" using go(1) by (auto simp: set_level)
  have h: "\<not> go (hd_opt (level L i A))"
    using go(2,3) set_level [of L i A] by (cases "level L i A") auto
  have "last (x # ys) = last_at L i B" unfolding last_at_def e by simp
  with search_level [OF lx r y h, of prev] show ?thesis by (simp only: Let_def)
qed

lemma search_spec:
  assumes "list_ok L (B @ A)" and "\<forall>a\<in>set B. go (Some a)" and "\<forall>a\<in>set A. \<not> go (Some a)" and "\<not> go None"
    and "i < kMaxHeight" and "x \<in> set (0 # level L i B)"
  shows "\<exists>prev'. search_loop go L x i prev = Some (last (0 # B), hd_opt A, prev') \<and> length prev' = length prev \<and>
     (\<forall>j < length prev. prev' ! j = (if j \<le> i then last_at L j B else prev ! j))"
  using assms(5,6)
proof (induction i arbitrary: x prev)
  case (0 x prev)
  have "level L 0 B = B" "level L 0 A = A" using level_0 [OF assms(1)] by simp_all
  with search_down [OF assms(1-4) 0, of prev] show ?case
    by (auto simp: last_at_def nth_list_update)
next
  case (Suc i)
  let ?p = "last_at L (Suc i) B"
  have "?p \<in> set (0 # level L (Suc i) B)" unfolding last_at_def by (rule last_in_set) simp
  then have "?p \<in> set (0 # level L i B)" by (auto simp: set_level)
  with Suc.IH [OF _ this, of "prev[Suc i := ?p]"] Suc.prems(1) obtain prev' where
    p: "search_loop go L ?p i (prev[Suc i := ?p]) = Some (last (0 # B), hd_opt A, prev')" "length prev' = length prev"
      "\<forall>j < length prev. prev' ! j = (if j \<le> i then last_at L j B else prev[Suc i := ?p] ! j)" by auto
  have "prev' ! j = (if j \<le> Suc i then last_at L j B else prev ! j)" if "j < length prev" for j
    using p(3) that by (cases "j = Suc i") auto
  with p(1,2) search_down [OF assms(1-4) Suc.prems, of prev] show ?case by auto
qed

section \<open>Insertion\<close>

lemma SetNext_nodes:
  "nodes (SetNext i x p L) ! y = (if y = x \<and> x < length (nodes L) then (nodes L ! y)\<lparr> nnext := (nnext (nodes L ! y))[i := p] \<rparr> else nodes L ! y)"
proof (cases "x < length (nodes L)")
  case False
  then show ?thesis by (simp add: SetNext_def list_update_beyond)
next
  case True
  then show ?thesis by (cases "y = x") (simp_all add: SetNext_def)
qed

lemma SetNext_sel:
  "length (nodes (SetNext i x p L)) = length (nodes L)" "key_at (SetNext i x p L) y = key_at L y"
  "height_at (SetNext i x p L) y = height_at L y" "max_height (SetNext i x p L) = max_height L" "rnd (SetNext i x p L) = rnd L"
  unfolding key_at_def height_at_def SetNext_nodes by (simp_all add: SetNext_def)

lemma Next_SetNext:
  assumes "x < length (nodes L)" and "i < height_at L x"
  shows "Next (SetNext i x p L) j y = (if j = i \<and> y = x then p else Next L j y)"
  using assms unfolding Next_def SetNext_nodes height_at_def by (cases "y = x"; cases "j = i") simp_all

text \<open>The new node \<open>n\<close> is put after \<open>prev ! i\<close> on the levels below \<open>h\<close>.\<close>

lemma link_levels:
  assumes "n < length (nodes L)" and "h \<le> height_at L n"
    and "\<And>i. i < h \<Longrightarrow> prev ! i < length (nodes L) \<and> i < height_at L (prev ! i) \<and> prev ! i \<noteq> n"
  defines "L' \<equiv> fold (link_level n prev) [0..<h] L"
  shows "length (nodes L') = length (nodes L) \<and> key_at L' = key_at L \<and> height_at L' = height_at L \<and> max_height L' = max_height L \<and>
     rnd L' = rnd L \<and>
     (\<forall>i y. Next L' i y = (if i < h \<and> y = n then Next L i (prev ! i) else if i < h \<and> y = prev ! i then Some n else Next L i y))"
  unfolding L'_def using assms(2,3)
proof (induction h)
  case (Suc h)
  define M where "M = fold (link_level n prev) [0..<h] L"
  have I: "length (nodes M) = length (nodes L)" "key_at M = key_at L" "height_at M = height_at L" "max_height M = max_height L" "rnd M = rnd L"
    "\<And>i y. Next M i y = (if i < h \<and> y = n then Next L i (prev ! i) else if i < h \<and> y = prev ! i then Some n else Next L i y)"
    using Suc unfolding M_def by simp_all
  have p: "prev ! h < length (nodes L)" "h < height_at L (prev ! h)" "prev ! h \<noteq> n" using Suc.prems(2) [of h] by simp_all
  have M': "fold (link_level n prev) [0..<Suc h] L = SetNext h (prev ! h) (Some n) (SetNext h n (Next M h (prev ! h)) M)"
    by (simp add: M_def link_level_def Let_def)
  have "Next (SetNext h (prev ! h) (Some n) (SetNext h n (Next M h (prev ! h)) M)) i y =
      (if i < Suc h \<and> y = n then Next L i (prev ! i) else if i < Suc h \<and> y = prev ! i then Some n else Next L i y)" for i y
    using p assms(1) Suc.prems(1) I by (simp add: Next_SetNext SetNext_sel less_Suc_eq)
  then show ?case unfolding M' by (simp add: SetNext_sel I fun_eq_iff)
qed simp

lemma height_loop_range:
  "seed_ok r \<Longrightarrow> 0 < h \<Longrightarrow> h \<le> kMaxHeight \<Longrightarrow> height_loop h r = (h', r') \<Longrightarrow> 0 < h' \<and> h' \<le> kMaxHeight \<and> seed_ok r'"
proof (induction h r rule: height_loop.induct)
  case (1 h r)
  have s: "seed_ok (Random_Next r)" by (rule Random_Next_spec(2) [OF 1(2)])
  show ?case
  proof (cases "h < kMaxHeight \<and> fst (OneIn kBranching r)")
    case True
    then have "height_loop (h + 1) (Random_Next r) = (h', r')"
      using 1(5) by (simp add: height_loop.simps [of h r] OneIn_def Let_def)
    from 1(1) [OF _ _ _ _ s _ _ this] True show ?thesis by (simp add: OneIn_def Let_def)
  next
    case False
    with 1(2-5) s show ?thesis by (auto simp: height_loop.simps [of h r] OneIn_def Let_def split: if_splits)
  qed
qed

lemma fold_clear: "(\<And>i. i \<in> set is \<Longrightarrow> i < length p) \<Longrightarrow> j < length p \<Longrightarrow>
  fold (\<lambda>i p. p[i := (0::nat)]) is p ! j = (if j \<in> set is then 0 else p ! j) \<and> length (fold (\<lambda>i p. p[i := 0]) is p) = length p"
  by (induction "is" arbitrary: p) (auto simp: nth_list_update)

text \<open>The predecessors of the new node on its levels.\<close>

lemma raise_prev:
  assumes "list_ok L (B @ A)" and "length prev = kMaxHeight" and "h \<le> kMaxHeight" and "raise_height h prev L = (prev', M)"
    and "\<forall>j < kMaxHeight. prev ! j = (if j \<le> max_height L - 1 then last_at L j B else 0)" and "j < h"
  shows "prev' ! j = last_at L j B"
proof -
  have ok: "\<forall>a\<in>set (B @ A). height_at L a \<le> max_height L" "0 < max_height L" using assms(1) by (auto simp: list_ok_def)
  have z: "last_at L j B = 0" if "max_height L \<le> j"
  proof -
    have "\<not> j < height_at L a" if "a \<in> set B" for a using bspec [OF ok(1), of a] that \<open>max_height L \<le> j\<close> by simp
    then have "level L j B = []" by (simp add: level_def filter_empty_conv)
    then show ?thesis by (simp add: last_at_def)
  qed
  have j: "j < kMaxHeight" "prev ! j = (if j \<le> max_height L - 1 then last_at L j B else 0)" using assms(3,5,6) by simp_all
  show ?thesis
  proof (cases "max_height L < h")
    case True
    then have e: "prev' = fold (\<lambda>i prev. prev[i := 0]) [max_height L ..< h] prev" using assms(4) by (simp add: raise_height_def)
    have "prev' ! j = (if j \<in> set [max_height L ..< h] then 0 else prev ! j)"
      unfolding e using fold_clear [of "[max_height L ..< h]" prev j] assms(2,3) j(1) by auto
    with z j(2) assms(6) show ?thesis by auto
  next
    case False
    then have "prev' = prev" using assms(4) by (simp add: raise_height_def)
    with j(2) False assms(6) show ?thesis by auto
  qed
qed

lemma node_lt: "list_ok L as \<Longrightarrow> a \<in> set as \<Longrightarrow> a < length (nodes L)"
  by (simp add: list_ok_def)

lemma last_at_range:
  assumes "list_ok L (B @ A)" and "i < kMaxHeight"
  shows "last_at L i B < length (nodes L) \<and> i < height_at L (last_at L i B)"
proof -
  have "last_at L i B \<in> set (0 # level L i B)" unfolding last_at_def by (rule last_in_set) simp
  with assms show ?thesis by (auto simp: list_ok_def set_level)
qed

text \<open>\<open>L'\<close> is \<open>L\<close> with a node \<open>n\<close> of height \<open>h\<close> put after the nodes \<open>p i\<close>.\<close>

definition grown :: "'k SkipList \<Rightarrow> 'k \<Rightarrow> nat \<Rightarrow> (nat \<Rightarrow> nat) \<Rightarrow> 'k SkipList \<Rightarrow> bool" where
  "grown L key h p L' \<longleftrightarrow> (let n = length (nodes L) in
     length (nodes L') = Suc n \<and> key_at L' n = key \<and> height_at L' n = h \<and> max_height L' = max (max_height L) h \<and> seed_ok (rnd L') \<and>
     (\<forall>a<n. key_at L' a = key_at L a \<and> height_at L' a = height_at L a) \<and>
     (\<forall>i<h. Next L' i n = Next L i (p i)) \<and> (\<forall>i. \<forall>a<n. Next L' i a = (if i < h \<and> a = p i then Some n else Next L i a)))"

lemma Insert_grown:
  assumes ok: "list_ok L (B @ A)" and h: "h \<le> kMaxHeight" and r: "seed_ok r"
    and prev: "\<And>j. j < h \<Longrightarrow> prev ! j = last_at L j B"
    and M: "M = L\<lparr> rnd := r, max_height := max (max_height L) h, nodes := nodes L @ [NewNode key h] \<rparr>"
  shows "grown L key h (\<lambda>i. last_at L i B) (fold (link_level (length (nodes L)) prev) [0..<h] M)"
proof -
  let ?n = "length (nodes L)"
  have M': "length (nodes M) = Suc ?n" "max_height M = max (max_height L) h" "rnd M = r" "key_at M ?n = key" "height_at M ?n = h"
    "\<And>a. a < ?n \<Longrightarrow> key_at M a = key_at L a \<and> height_at M a = height_at L a" "\<And>i a. a < ?n \<Longrightarrow> Next M i a = Next L i a"
    by (auto simp: M key_at_def height_at_def Next_def NewNode_def nth_append)
  have p: "prev ! i < ?n \<and> i < height_at L (prev ! i)" if "i < h" for i
    using last_at_range [OF ok, of i] prev [OF that] h that by simp
  have "prev ! i < length (nodes M) \<and> i < height_at M (prev ! i) \<and> prev ! i \<noteq> ?n" if "i < h" for i
    using p [OF that] M'(1,6) by auto
  from link_levels [of ?n M h prev, OF _ _ this] M' p prev r show ?thesis unfolding grown_def Let_def by simp
qed

lemma grown_level:
  assumes ok: "list_ok L (B @ A)" and g: "grown L key h (\<lambda>i. last_at L i B) L'"
  shows "level L' i (B @ length (nodes L) # A) = level L i B @ (if i < h then [length (nodes L)] else []) @ level L i A"
proof -
  have "height_at L' a = height_at L a" if "a \<in> set (B @ A)" for a
    using node_lt [OF ok that] g by (auto simp: grown_def Let_def)
  then have "level L' i xs = level L i xs" if "set xs \<subseteq> set (B @ A)" for xs
    unfolding level_def using that by (intro filter_cong) auto
  moreover have "height_at L' (length (nodes L)) = h" using g by (simp add: grown_def Let_def)
  ultimately show ?thesis using level_append [of L' i B "length (nodes L) # A"] level_append [of L' i "[length (nodes L)]" A]
    by (simp add: level_def [of L' i "[length (nodes L)]"])
qed

lemma grown_linked:
  assumes ok: "list_ok L (B @ A)" and g: "grown L key h (\<lambda>i. last_at L i B) L'" and i: "i < kMaxHeight"
  shows "linked (Next L' i) 0 (level L' i (B @ length (nodes L) # A))"
proof -
  let ?n = "length (nodes L)" and ?B = "level L i B" and ?A = "level L i A"
  have l: "linked (Next L i) 0 (?B @ ?A)" using ok i by (simp add: list_ok_def)
  have d: "distinct (B @ A)" "set (B @ A) = {1..<?n}" "nodes L \<noteq> []" using ok unfolding list_ok_def by blast+
  have lt: "a < ?n" if "a \<in> set (0 # ?B @ ?A)" for a
    using that node_lt [OF ok, of a] d(3) by (auto simp: set_level)
  have N: "Next L' i a = (if i < h \<and> a = last_at L i B then Some ?n else Next L i a)" if "a < ?n" for a
    using g that unfolding grown_def Let_def by blast
  show ?thesis
  proof (cases "i < h")
    case True
    have "0 \<notin> set (B @ A)" using d(2) by simp
    then have "distinct (0 # ?B @ ?A)" using d(1) by (auto simp: level_def)
    moreover have "?n \<notin> set (0 # ?B @ ?A)" using lt by blast
    moreover have "Next L' i ?n = Next L i (last (0 # ?B))" using g True by (simp add: grown_def Let_def last_at_def)
    moreover have "last (0 # ?B) \<in> set (0 # ?B)" by (rule last_in_set) simp
    then have "Next L' i (last (0 # ?B)) = Some ?n" using N [of "last (0 # ?B)"] lt True by (auto simp: last_at_def)
    moreover have "Next L' i a = Next L i a" if "a \<in> set (0 # ?B @ ?A)" "a \<noteq> last (0 # ?B)" for a
      using N [OF lt [OF that(1)]] that(2) by (simp add: last_at_def)
    ultimately have "linked (Next L' i) 0 (?B @ ?n # ?A)" by (rule linked_insert [OF l])
    then show ?thesis using grown_level [OF ok g, of i] True by simp
  next
    case False
    have "Next L' i a = Next L i a" if "a \<in> set (0 # ?B @ ?A)" for a using N [OF lt [OF that]] False by simp
    then have "linked (Next L' i) 0 (?B @ ?A) = linked (Next L i) 0 (?B @ ?A)" by (rule linked_cong)
    then show ?thesis using grown_level [OF ok g, of i] l False by simp
  qed
qed

lemma grown_ok:
  assumes ok: "list_ok L (B @ A)" and g: "grown L key h (\<lambda>i. last_at L i B) L'" and h: "0 < h" "h \<le> kMaxHeight"
  shows "list_ok L' (B @ length (nodes L) # A)"
proof -
  let ?n = "length (nodes L)"
  have d: "distinct (B @ A)" "set (B @ A) = {1..<?n}" "0 < ?n" "height_at L 0 = kMaxHeight" "0 < max_height L" "max_height L \<le> kMaxHeight"
    "\<forall>a\<in>set (B @ A). 0 < height_at L a \<and> height_at L a \<le> max_height L" using ok unfolding list_ok_def by blast+
  have f: "length (nodes L') = Suc ?n" "height_at L' ?n = h" "max_height L' = max (max_height L) h" "seed_ok (rnd L')"
    "\<And>a. a < ?n \<Longrightarrow> height_at L' a = height_at L a" using g by (auto simp: grown_def Let_def)
  have "distinct (B @ ?n # A)" using d(1,2) by auto
  moreover have "set (B @ ?n # A) = insert ?n {1..<?n}" using d(2) by auto
  then have "set (B @ ?n # A) = {1..<Suc ?n}" using d(3) by (simp add: atLeastLessThanSuc Suc_le_eq)
  moreover have "0 < height_at L' a \<and> height_at L' a \<le> max_height L'" if "a \<in> set (B @ ?n # A)" for a
  proof (cases "a = ?n")
    case False
    with that have "a \<in> set (B @ A)" by simp
    then have "a < ?n" "0 < height_at L a \<and> height_at L a \<le> max_height L" using d(2,7) by auto
    with f(3,5) show ?thesis by auto
  qed (use f(2,3) h in simp)
  moreover have "nodes L' \<noteq> []" using f(1) by auto
  ultimately show ?thesis
    unfolding list_ok_def using f d(3-6) h(2) grown_linked [OF ok g] by auto
qed

lemma Insert_spec:
  assumes ok: "list_ok L (B @ A)" and "\<forall>a\<in>set B. cmp (key_at L a) key < 0" and "\<forall>a\<in>set A. \<not> cmp (key_at L a) key < 0"
  shows "\<exists>L'. Insert cmp key L = Some L' \<and> list_ok L' (B @ length (nodes L) # A) \<and>
     map (key_at L') (B @ length (nodes L) # A) = map (key_at L) B @ key # map (key_at L) A"
proof -
  let ?go = "KeyIsAfterNode cmp L key" and ?n = "length (nodes L)"
  have mh: "0 < max_height L" "max_height L - 1 < kMaxHeight" "seed_ok (rnd L)" using ok by (auto simp: list_ok_def)
  from search_spec [OF ok, of ?go "max_height L - 1" 0 "replicate kMaxHeight 0"] assms(2,3) mh(2) obtain prev where
    p: "FindGreaterOrEqual cmp L key (replicate kMaxHeight 0) = Some (hd_opt A, prev)" "length prev = kMaxHeight"
      "\<forall>j < kMaxHeight. prev ! j = (if j \<le> max_height L - 1 then last_at L j B else 0)"
    by (auto simp: KeyIsAfterNode_def FindGreaterOrEqual_def)
  obtain h r where hr: "RandomHeight (rnd L) = (h, r)" by fastforce
  from height_loop_range [OF mh(3) _ _ hr [unfolded RandomHeight_def]] have h: "0 < h" "h \<le> kMaxHeight" "seed_ok r"
    by (simp_all add: kMaxHeight_def)
  obtain prev' M where M: "raise_height h prev (L\<lparr> rnd := r \<rparr>) = (prev', M)" by fastforce
  then have "raise_height h prev L = (prev', if max_height L < h then L\<lparr> max_height := h \<rparr> else L)"
    by (auto simp: raise_height_def split: if_splits)
  note prev' = raise_prev [OF ok p(2) h(2) this p(3)]
  have M': "M\<lparr> nodes := nodes M @ [NewNode key h] \<rparr> = L\<lparr> rnd := r, max_height := max (max_height L) h, nodes := nodes L @ [NewNode key h] \<rparr>"
    "nodes M = nodes L" using M by (auto simp: raise_height_def max_def split: if_splits)
  define L' where "L' = fold (link_level ?n prev') [0..<h] (M\<lparr> nodes := nodes M @ [NewNode key h] \<rparr>)"
  have g: "grown L key h (\<lambda>i. last_at L i B) L'" unfolding L'_def by (rule Insert_grown [OF ok h(2,3) prev' M'(1)])
  have "Insert cmp key L = Some L'" unfolding Insert_def p(1) L'_def by (simp add: hr M M'(2))
  moreover have "key_at L' a = key_at L a" if "a \<in> set (B @ A)" for a
    using node_lt [OF ok that] g unfolding grown_def Let_def by blast
  moreover have "key_at L' ?n = key" using g unfolding grown_def Let_def by blast
  ultimately show ?thesis using grown_ok [OF ok g h(1,2)] by (intro exI [of _ L']) simp
qed

section \<open>The sorted list a skip list stands for\<close>

text \<open>What a list of keys is to the operations; positions after the last key are the null pointer.\<close>

definition sorted_insert :: "('k \<Rightarrow> 'k \<Rightarrow> int) \<Rightarrow> 'k \<Rightarrow> 'k list \<Rightarrow> 'k list" where
  "sorted_insert cmp key ks = takeWhile (\<lambda>k. cmp k key < 0) ks @ key # dropWhile (\<lambda>k. cmp k key < 0) ks"

definition seek_pos :: "('k \<Rightarrow> 'k \<Rightarrow> int) \<Rightarrow> 'k \<Rightarrow> 'k list \<Rightarrow> nat" where
  "seek_pos cmp key ks = length (takeWhile (\<lambda>k. cmp k key < 0) ks)"

definition represents :: "('k \<Rightarrow> 'k \<Rightarrow> int) \<Rightarrow> ('k \<Rightarrow> bool) \<Rightarrow> 'k SkipList \<Rightarrow> 'k list \<Rightarrow> bool" where
  "represents cmp valid L ks \<longleftrightarrow> (\<exists>as. list_ok L as \<and> map (key_at L) as = ks) \<and> sorted_wrt (\<lambda>a b. cmp a b < 0) ks \<and> list_all valid ks"

definition positioned :: "'k SkipList \<Rightarrow> 'k list \<Rightarrow> nat \<Rightarrow> nat option \<Rightarrow> bool" where
  "positioned L ks i node \<longleftrightarrow> (\<exists>as. list_ok L as \<and> map (key_at L) as = ks \<and> node = (if i < length as then Some (as ! i) else None))"

lemma new_represents: "represents cmp valid (new_SkipList k) []"
proof -
  have "list_ok (new_SkipList k) []"
    by (simp add: list_ok_def new_SkipList_def height_at_def NewNode_def level_def Next_def new_Random_ok kMaxHeight_def)
  then show ?thesis by (auto simp: represents_def)
qed

lemma list_ok_unique:
  assumes "list_ok L as" and "list_ok L bs" shows "as = bs"
proof -
  have "linked nx x xs \<Longrightarrow> linked nx x ys \<Longrightarrow> xs = ys" for nx x xs and ys :: "nat list"
  proof (induction xs arbitrary: x ys)
    case Nil
    then show ?case by (cases ys) auto
  next
    case (Cons a xs)
    then show ?case by (cases ys) auto
  qed
  moreover have "linked (Next L 0) 0 as" "linked (Next L 0) 0 bs"
    using assms level_0 [OF assms(1), of as] level_0 [OF assms(2), of bs] by (auto simp: list_ok_def kMaxHeight_def dest: spec [of _ 0])
  ultimately show ?thesis by blast
qed

lemma positioned_key: "positioned L ks i node \<Longrightarrow> i < length ks \<Longrightarrow> iter_Valid node \<and> iter_key L node = ks ! i"
  by (auto simp: positioned_def iter_Valid_def iter_key_def)

lemma positioned_end: "positioned L ks i node \<Longrightarrow> length ks \<le> i \<Longrightarrow> \<not> iter_Valid node"
  by (auto simp: positioned_def iter_Valid_def)

lemma linked_nth: "linked nx x ys \<Longrightarrow> i < length ys \<Longrightarrow> nx (ys ! i) = (if Suc i < length ys then Some (ys ! Suc i) else None)"
proof (induction ys arbitrary: x i)
  case (Cons y ys)
  show ?case
  proof (cases i)
    case 0
    with Cons.prems show ?thesis by (cases ys) simp_all
  next
    case (Suc j)
    with Cons.IH [of y j] Cons.prems show ?thesis by simp
  qed
qed simp

lemma linked_level_0: "list_ok L as \<Longrightarrow> linked (Next L 0) 0 as"
  using level_0 [of L as as] by (auto simp: list_ok_def kMaxHeight_def dest: spec [of _ 0])

lemma positioned_Next:
  assumes "positioned L ks i node" and "i < length ks"
  shows "positioned L ks (Suc i) (iter_Next L node)"
proof -
  from assms obtain as where a: "list_ok L as" "map (key_at L) as = ks" "node = Some (as ! i)" "i < length as"
    by (auto simp: positioned_def)
  from linked_nth [OF linked_level_0 [OF a(1)] a(4)] a show ?thesis by (auto simp: positioned_def iter_Next_def)
qed

lemma positioned_first:
  assumes "represents cmp valid L ks"
  shows "positioned L ks 0 (iter_SeekToFirst L)"
proof -
  from assms obtain as where a: "list_ok L as" "map (key_at L) as = ks" by (auto simp: represents_def)
  have "Next L 0 0 = (if 0 < length as then Some (as ! 0) else None)"
    using linked_hd [OF linked_level_0 [OF a(1)]] by (cases as) simp_all
  with a show ?thesis unfolding positioned_def iter_SeekToFirst_def by blast
qed

lemma positioned_last:
  assumes "represents cmp valid L ks"
  shows "\<exists>node. iter_SeekToLast L = Some node \<and> (if ks = [] then node = None else positioned L ks (length ks - 1) node)"
proof -
  from assms obtain as where a: "list_ok L as" "map (key_at L) as = ks" by (auto simp: represents_def)
  have m: "max_height L - 1 < kMaxHeight" "0 \<notin> set as" using a(1) by (auto simp: list_ok_def)
  from search_spec [of L as "[]" "\<lambda>next. next \<noteq> None" "max_height L - 1" 0 "[]"] a(1) m(1)
  have "FindLast L = Some (last (0 # as))" by (auto simp: FindLast_def)
  moreover have "as ! (length as - 1) \<noteq> 0" if "as \<noteq> []" using m(2) that by (metis last_conv_nth last_in_set)
  ultimately show ?thesis using a by (cases "as = []") (auto simp: iter_SeekToLast_def positioned_def last_conv_nth)
qed

lemma seek_nth: "dropWhile (\<lambda>k. cmp k key < 0) ks = k0 # D \<Longrightarrow> seek_pos cmp key ks < length ks \<and> ks ! seek_pos cmp key ks = k0"
  using takeWhile_dropWhile_id [of "\<lambda>k. cmp k key < 0" ks] unfolding seek_pos_def
  by (metis append_is_Nil_conv length_append less_add_same_cancel1 length_greater_0_conv list.distinct(1) nth_append_length)

locale key_order =
  fixes cmp :: "'k \<Rightarrow> 'k \<Rightarrow> int" and valid :: "'k \<Rightarrow> bool"
  assumes flip: "valid a \<Longrightarrow> valid b \<Longrightarrow> cmp a b < 0 \<longleftrightarrow> 0 < cmp b a"
    and trans: "valid a \<Longrightarrow> valid b \<Longrightarrow> valid c \<Longrightarrow> cmp a b < 0 \<Longrightarrow> cmp b c < 0 \<Longrightarrow> cmp a c < 0"
begin

lemma after_key:
  assumes "sorted_wrt (\<lambda>a b. cmp a b < 0) ks" and "list_all valid ks" and "valid key"
    and "k \<in> set (dropWhile (\<lambda>k. cmp k key < 0) ks)"
  shows "\<not> cmp k key < 0"
  using assms
proof (induction ks)
  case (Cons x ks)
  show ?case
  proof (cases "cmp x key < 0")
    case True
    with Cons show ?thesis by simp
  next
    case False
    show ?thesis
    proof
      assume "cmp k key < 0"
      with False Cons.prems have "k \<in> set ks" by auto
      with Cons.prems have "cmp x k < 0" "valid x" "valid k" by (auto simp: list_all_iff)
      with trans [of x k key] Cons.prems(3) \<open>cmp k key < 0\<close> False show False by blast
    qed
  qed
qed simp

lemma split_nodes:
  assumes "represents cmp valid L ks" and "valid key"
  obtains B A where "list_ok L (B @ A)" "map (key_at L) B = takeWhile (\<lambda>k. cmp k key < 0) ks" "map (key_at L) A = dropWhile (\<lambda>k. cmp k key < 0) ks"
    "map (key_at L) (B @ A) = ks" "\<forall>a\<in>set B. cmp (key_at L a) key < 0" "\<forall>a\<in>set A. \<not> cmp (key_at L a) key < 0"
proof -
  from assms(1) obtain as where a: "list_ok L as" "map (key_at L) as = ks" "sorted_wrt (\<lambda>a b. cmp a b < 0) ks" "list_all valid ks"
    by (auto simp: represents_def)
  let ?P = "\<lambda>a. cmp (key_at L a) key < 0"
  have m: "map (key_at L) (takeWhile ?P as) = takeWhile (\<lambda>k. cmp k key < 0) ks" "map (key_at L) (dropWhile ?P as) = dropWhile (\<lambda>k. cmp k key < 0) ks"
    unfolding a(2) [symmetric] takeWhile_map dropWhile_map by (simp_all add: comp_def)
  have D: "\<forall>b\<in>set (dropWhile ?P as). \<not> ?P b"
  proof
    fix b assume "b \<in> set (dropWhile ?P as)"
    then have "key_at L b \<in> set (dropWhile (\<lambda>k. cmp k key < 0) ks)" unfolding m(2) [symmetric] by simp
    then show "\<not> ?P b" by (rule after_key [OF a(3,4) assms(2)])
  qed
  have T: "\<forall>b\<in>set (takeWhile ?P as). ?P b" by (auto dest: set_takeWhileD)
  show ?thesis by (rule that [OF _ m _ T D]) (simp_all add: a(1,2))
qed

lemma Insert_represents:
  assumes "represents cmp valid L ks" and "valid key" and "\<forall>k\<in>set ks. cmp k key \<noteq> 0"
  shows "\<exists>L'. Insert cmp key L = Some L' \<and> represents cmp valid L' (sorted_insert cmp key ks)"
proof -
  obtain B A where s: "list_ok L (B @ A)" "map (key_at L) B = takeWhile (\<lambda>k. cmp k key < 0) ks" "map (key_at L) A = dropWhile (\<lambda>k. cmp k key < 0) ks"
    "\<forall>a\<in>set B. cmp (key_at L a) key < 0" "\<forall>a\<in>set A. \<not> cmp (key_at L a) key < 0" by (rule split_nodes [OF assms(1,2)]) blast
  have r: "sorted_wrt (\<lambda>a b. cmp a b < 0) ks" "list_all valid ks" using assms(1) by (auto simp: represents_def)
  from Insert_spec [OF s(1), of cmp key] s(2-5) obtain L' as where
    L': "Insert cmp key L = Some L'" "list_ok L' as" "map (key_at L') as = sorted_insert cmp key ks"
    by (auto simp: sorted_insert_def)
  define T where "T = takeWhile (\<lambda>k. cmp k key < 0) ks"
  define D where "D = dropWhile (\<lambda>k. cmp k key < 0) ks"
  have TD: "ks = T @ D" by (simp add: T_def D_def)
  have "cmp key k < 0" if "k \<in> set D" for k
  proof -
    have "valid k" "cmp k key \<noteq> 0" using that r(2) assms(3) by (simp_all add: TD list_all_iff)
    with after_key [OF r assms(2) that [unfolded D_def]] flip [of key k] assms(2) show ?thesis by simp
  qed
  moreover have "cmp k key < 0" if "k \<in> set T" for k using that unfolding T_def by (rule set_takeWhileD [THEN conjunct2])
  ultimately have "sorted_wrt (\<lambda>a b. cmp a b < 0) (sorted_insert cmp key ks)"
    using r(1) [unfolded TD] unfolding sorted_insert_def T_def [symmetric] D_def [symmetric] sorted_wrt_append by simp
  moreover have "list_all valid (sorted_insert cmp key ks)"
    using r(2) [unfolded TD] assms(2) unfolding sorted_insert_def T_def [symmetric] D_def [symmetric] by simp
  ultimately show ?thesis using L' unfolding represents_def by blast
qed

lemma Seek_positioned:
  assumes "represents cmp valid L ks" and "valid key"
  shows "\<exists>node prev. FindGreaterOrEqual cmp L key [] = Some (node, prev) \<and> positioned L ks (seek_pos cmp key ks) node"
proof -
  obtain B A where s: "list_ok L (B @ A)" "map (key_at L) B = takeWhile (\<lambda>k. cmp k key < 0) ks" "map (key_at L) (B @ A) = ks"
    "\<forall>a\<in>set B. cmp (key_at L a) key < 0" "\<forall>a\<in>set A. \<not> cmp (key_at L a) key < 0" by (rule split_nodes [OF assms]) blast
  have m: "max_height L - 1 < kMaxHeight" using s(1) by (auto simp: list_ok_def)
  from search_spec [OF s(1), of "KeyIsAfterNode cmp L key" "max_height L - 1" 0 "[]"] s(4,5) m
  have "\<exists>prev. FindGreaterOrEqual cmp L key [] = Some (hd_opt A, prev)" by (auto simp: FindGreaterOrEqual_def KeyIsAfterNode_def)
  moreover have "seek_pos cmp key ks = length B" unfolding seek_pos_def s(2) [symmetric] by simp
  moreover have "hd_opt A = (if length B < length (B @ A) then Some ((B @ A) ! length B) else None)" by (cases A) simp_all
  ultimately show ?thesis using s(1,3) unfolding positioned_def by metis
qed

lemma Contains_represents:
  assumes "represents cmp valid L ks" and "valid key"
  shows "Contains cmp key L = Some (\<exists>k\<in>set ks. cmp key k = 0)"
proof -
  let ?i = "seek_pos cmp key ks" and ?D = "dropWhile (\<lambda>k. cmp k key < 0) ks"
  from Seek_positioned [OF assms] obtain node prev where
    n: "FindGreaterOrEqual cmp L key [] = Some (node, prev)" "positioned L ks ?i node" by blast
  have r: "sorted_wrt (\<lambda>a b. cmp a b < 0) ks" "list_all valid ks" using assms(1) by (auto simp: represents_def)
  have sp: "ks = takeWhile (\<lambda>k. cmp k key < 0) ks @ ?D" by simp
  have in_D: "k \<in> set ?D" if "k \<in> set ks" "cmp key k = 0" for k
  proof -
    have "\<not> cmp k key < 0" using that flip [of k key] assms(2) r(2) by (auto simp: list_all_iff)
    then show ?thesis using that(1) sp by (metis Un_iff set_append set_takeWhileD)
  qed
  show ?thesis
  proof (cases ?D)
    case Nil
    then have "length ks \<le> ?i" unfolding seek_pos_def using sp by (metis append_Nil2 order_refl)
    from positioned_end [OF n(2) this] have "node = None" by (simp add: iter_Valid_def)
    then show ?thesis using n(1) in_D Nil by (auto simp: Contains_def)
  next
    case (Cons k0 D)
    from positioned_key [OF n(2)] seek_nth [where cmp = cmp, OF Cons] obtain a where a: "node = Some a" "key_at L a = k0"
      by (auto simp: iter_Valid_def iter_key_def)
    have k0: "k0 \<in> set ks" using sp Cons by (metis in_set_conv_decomp)
    have v: "valid k0" using k0 r(2) by (auto simp: list_all_iff)
    have "\<not> cmp k0 key < 0" using after_key [OF r assms(2), of k0] Cons by simp
    then have le: "\<not> 0 < cmp key k0" using flip [OF v assms(2)] by simp
    have "cmp key k0 = 0" if k: "k \<in> set ks" "cmp key k = 0" for k
    proof (rule ccontr)
      assume "cmp key k0 \<noteq> 0"
      with le have lt: "cmp key k0 < 0" by simp
      then have "k \<noteq> k0" using k(2) by auto
      moreover have "sorted_wrt (\<lambda>a b. cmp a b < 0) (k0 # D)" using r(1) sp Cons sorted_wrt_append by metis
      ultimately have "cmp k0 k < 0" using in_D [OF k] Cons by auto
      with trans [OF assms(2) v _ lt, of k] k r(2) show False by (auto simp: list_all_iff)
    qed
    with a n(1) k0 show ?thesis by (auto simp: Contains_def)
  qed
qed

lemma Prev_positioned:
  assumes "represents cmp valid L ks" and "positioned L ks i node" and "i < length ks"
  shows "\<exists>node'. iter_Prev cmp L node = Some node' \<and> (if i = 0 then node' = None else positioned L ks (i - 1) node')"
proof -
  from assms(2,3) obtain as where a: "list_ok L as" "map (key_at L) as = ks" "node = Some (as ! i)" "i < length as" by (auto simp: positioned_def)
  let ?key = "key_at L (as ! i)" and ?go = "\<lambda>next. \<not> (case next of None \<Rightarrow> True | Some b \<Rightarrow> 0 \<le> cmp (key_at L b) (key_at L (as ! i)))"
  have r: "sorted_wrt (\<lambda>a b. cmp a b < 0) ks" "list_all valid ks" using assms(1) by (auto simp: represents_def)
  have key: "?key = ks ! i" "valid ?key" using a r(2) by (auto simp: list_all_iff)
  have lt: "cmp (key_at L b) ?key < 0" if "b \<in> set (take i as)" for b
  proof -
    from that obtain j where "j < i" "b = as ! j" using a(4) by (auto simp: in_set_conv_nth)
    with sorted_wrt_nth_less [OF r(1), of j i] a(2,4) show ?thesis by auto
  qed
  have ge: "\<not> cmp (key_at L b) ?key < 0" if "b \<in> set (drop i as)" for b
  proof -
    from that obtain j where j: "i \<le> j" "j < length as" "b = as ! j" by (auto simp: in_set_conv_nth) (metis add.commute le_add1 less_diff_conv)
    have vb: "valid (key_at L b)" using a(2) j r(2) by (auto simp: list_all_iff)
    show ?thesis
    proof (cases "j = i")
      case True
      with j(3) flip [OF key(2) key(2)] show ?thesis by auto
    next
      case False
      with sorted_wrt_nth_less [OF r(1), of i j] a(2) j have "cmp ?key (key_at L b) < 0" by auto
      with flip [OF key(2) vb] show ?thesis by simp
    qed
  qed
  have m: "max_height L - 1 < kMaxHeight" "0 \<notin> set as" using a(1) by (auto simp: list_ok_def)
  from search_spec [of L "take i as" "drop i as" ?go "max_height L - 1" 0 "[]"] a(1) lt ge m(1)
  have "FindLessThan cmp L ?key = Some (last (0 # take i as))" by (fastforce simp: FindLessThan_def not_le)
  moreover have "last (0 # take i as) = (if i = 0 then 0 else as ! (i - 1))" using a(4) by (cases i) (auto simp: last_conv_nth take_Suc_conv_app_nth)
  moreover have "as ! (i - 1) \<noteq> 0" using m(2) a(4) by (metis less_imp_diff_less nth_mem)
  ultimately show ?thesis using a by (auto simp: iter_Prev_def positioned_def)
qed

end

end
