(* ===== verification/Status.thy ===== *)
theory Status
  imports Coding
begin

text \<open>
  LevelDB's result type \<^verbatim>\<open>Status\<close> (\<^verbatim>\<open>leveldb/include/leveldb/status.h\<close>, \<^verbatim>\<open>util/status.cc\<close>): success is
  the null state; an error is an array that holds the length of the message, a code and the message.
\<close>

section \<open>Definitions\<close>

type_synonym status = "byte list option"

datatype Code = kOk | kNotFound | kCorruption | kNotSupported | kInvalidArgument | kIOError

definition code_num :: "Code \<Rightarrow> byte" where
  "code_num c = (case c of kOk \<Rightarrow> 0 | kNotFound \<Rightarrow> 1 | kCorruption \<Rightarrow> 2 | kNotSupported \<Rightarrow> 3 | kInvalidArgument \<Rightarrow> 4 | kIOError \<Rightarrow> 5)"

definition bytes_of :: "string \<Rightarrow> byte list" where
  "bytes_of = map of_char"

text \<open>The lengths are cut to 32 bits; \<^verbatim>\<open>memcpy\<close> lays the size out in little-endian order.\<close>

definition Status_state :: "Code \<Rightarrow> byte list \<Rightarrow> byte list \<Rightarrow> byte list" where
  "Status_state c msg msg2 =
     (let len1 = (of_nat (length msg) :: u32); len2 = (of_nat (length msg2) :: u32);
          size = len1 + (if len2 \<noteq> 0 then 2 + len2 else 0)
      in EncodeFixed32 size @ [code_num c] @ take (unat len1) msg @
         (if len2 \<noteq> 0 then bytes_of '': '' @ take (unat len2) msg2 else []))"

definition OK :: status where
  "OK = None"

definition NotFound :: "byte list \<Rightarrow> byte list \<Rightarrow> status" where
  "NotFound msg msg2 = Some (Status_state kNotFound msg msg2)"

definition Corruption :: "byte list \<Rightarrow> byte list \<Rightarrow> status" where
  "Corruption msg msg2 = Some (Status_state kCorruption msg msg2)"

definition NotSupported :: "byte list \<Rightarrow> byte list \<Rightarrow> status" where
  "NotSupported msg msg2 = Some (Status_state kNotSupported msg msg2)"

definition InvalidArgument :: "byte list \<Rightarrow> byte list \<Rightarrow> status" where
  "InvalidArgument msg msg2 = Some (Status_state kInvalidArgument msg msg2)"

definition IOError :: "byte list \<Rightarrow> byte list \<Rightarrow> status" where
  "IOError msg msg2 = Some (Status_state kIOError msg msg2)"

definition ok :: "status \<Rightarrow> bool" where
  "ok s \<longleftrightarrow> s = None"

definition code :: "status \<Rightarrow> byte" where
  "code s = (case s of None \<Rightarrow> code_num kOk | Some state \<Rightarrow> state ! 4)"

definition IsNotFound :: "status \<Rightarrow> bool" where
  "IsNotFound s \<longleftrightarrow> code s = code_num kNotFound"

definition IsCorruption :: "status \<Rightarrow> bool" where
  "IsCorruption s \<longleftrightarrow> code s = code_num kCorruption"

definition IsIOError :: "status \<Rightarrow> bool" where
  "IsIOError s \<longleftrightarrow> code s = code_num kIOError"

definition IsNotSupportedError :: "status \<Rightarrow> bool" where
  "IsNotSupportedError s \<longleftrightarrow> code s = code_num kNotSupported"

definition IsInvalidArgument :: "status \<Rightarrow> bool" where
  "IsInvalidArgument s \<longleftrightarrow> code s = code_num kInvalidArgument"

definition CopyState :: "byte list \<Rightarrow> byte list" where
  "CopyState state = take (unat (DecodeFixed32 state + 5)) state"

definition copy_status :: "status \<Rightarrow> status" where
  "copy_status rhs = (case rhs of None \<Rightarrow> None | Some state \<Rightarrow> Some (CopyState state))"

text \<open>What \<^verbatim>\<open>printf\<close> makes of a signed number.\<close>

definition dec_int :: "int \<Rightarrow> string" where
  "dec_int i = (if i < 0 then ''-'' @ dec (nat (- i)) else dec (nat i))"

definition code_text :: "byte \<Rightarrow> string" where
  "code_text c =
     (if c = code_num kOk then ''OK''
      else if c = code_num kNotFound then ''NotFound: ''
      else if c = code_num kCorruption then ''Corruption: ''
      else if c = code_num kNotSupported then ''Not implemented: ''
      else if c = code_num kInvalidArgument then ''Invalid argument: ''
      else if c = code_num kIOError then ''IO error: ''
      else ''Unknown code('' @ dec_int (sint c) @ ''): '')"

definition ToString :: "status \<Rightarrow> byte list" where
  "ToString s = (case s of None \<Rightarrow> bytes_of ''OK''
     | Some state \<Rightarrow> bytes_of (code_text (code s)) @ take (unat (DecodeFixed32 state)) (drop 5 state))"

section \<open>Lemmas\<close>

lemma ok_simps [simp]:
  "ok OK" "\<not> ok (NotFound a b)" "\<not> ok (Corruption a b)" "\<not> ok (NotSupported a b)" "\<not> ok (InvalidArgument a b)" "\<not> ok (IOError a b)"
  by (simp_all add: ok_def OK_def NotFound_def Corruption_def NotSupported_def InvalidArgument_def IOError_def)

lemma code_num_inject [simp]: "code_num c = code_num d \<longleftrightarrow> c = d"
  by (cases c; cases d) (simp_all add: code_num_def)

lemma code_state: "Status_state c a b ! 4 = code_num c"
  by (simp add: Status_state_def Let_def nth_append)

text \<open>A message that fits is stored whole, with its length.\<close>

definition status_text :: "byte list \<Rightarrow> byte list \<Rightarrow> byte list" where
  "status_text a b = a @ (if b = [] then [] else bytes_of '': '' @ b)"

lemma Status_state_fits:
  assumes "length a + length b + 7 < 2 ^ 32"
  shows "Status_state c a b = EncodeFixed32 (of_nat (length (status_text a b))) @ [code_num c] @ status_text a b"
proof -
  have ab: "unat (of_nat (length a) :: u32) = length a" "unat (of_nat (length b) :: u32) = length b"
    using assms by (simp_all add: unat_of_nat_small del: unsigned_of_nat)
  have z: "(of_nat (length b) :: u32) = 0 \<longleftrightarrow> b = []"
  proof
    assume "(of_nat (length b) :: u32) = 0"
    with ab(2) show "b = []" by (simp del: unsigned_of_nat)
  qed simp
  show ?thesis
    by (cases "b = []") (simp_all add: Status_state_def Let_def z ab status_text_def bytes_of_def ac_simps del: unsigned_of_nat)
qed

lemma status_text_length: "length a + length b + 7 < 2 ^ 32 \<Longrightarrow> unat (of_nat (length (status_text a b)) :: u32) = length (status_text a b)"
  by (rule unat_of_nat_small) (simp add: status_text_def bytes_of_def)

text \<open>Copying an error keeps it, and its text shows the code and both messages.\<close>

lemma copy_state:
  assumes "length a + length b + 7 < 2 ^ 32"
  shows "copy_status (Some (Status_state c a b)) = Some (Status_state c a b)"
proof -
  let ?n = "length (status_text a b)"
  have "?n + 5 < 2 ^ 32" using assms by (simp add: status_text_def bytes_of_def)
  then have "unat ((of_nat (?n + 5)) :: u32) = ?n + 5" by (intro unat_of_nat_small) simp
  then have "unat ((of_nat ?n :: u32) + 5) = ?n + 5" by (simp del: unsigned_of_nat)
  then show ?thesis by (simp add: copy_status_def CopyState_def Status_state_fits [OF assms] del: unsigned_of_nat)
qed

lemma ToString_state:
  assumes "length a + length b + 7 < 2 ^ 32"
  shows "ToString (Some (Status_state c a b)) = bytes_of (code_text (code_num c)) @ status_text a b"
  by (simp add: ToString_def code_def code_state) (simp add: Status_state_fits [OF assms] status_text_length [OF assms] del: unsigned_of_nat)

end
