(* ===== verification/MemTable.thy ===== *)
theory MemTable
  imports SkipList Status
begin

text \<open>
  The table of recent writes, \<^verbatim>\<open>leveldb/db/memtable.cc\<close>: a skip list of encoded entries ordered by their
  internal keys. The theory shows that a lookup returns the newest write of a key that the snapshot
  sees, and that iterating gives the entries in the order of the internal keys.
\<close>

section \<open>Entries\<close>

text \<open>The length and the place of a length-prefixed string; the code assumes that the varint is not corrupted.\<close>

definition entry_head :: "byte list \<Rightarrow> nat \<times> byte list" where
  "entry_head data = (case GetVarint32Ptr (take 5 data) of
     Some (len, rest) \<Rightarrow> (unat len, drop (length (take 5 data) - length rest) data)
   | None \<Rightarrow> (0, []))"

definition mem_slice :: "byte list \<Rightarrow> slice" where
  "mem_slice data = (let (len, p) = entry_head data in take len p)"

definition KeyComparator :: "(slice \<Rightarrow> slice \<Rightarrow> int) \<Rightarrow> byte list \<Rightarrow> byte list \<Rightarrow> int" where
  "KeyComparator ucmp aptr bptr = InternalKeyCompare ucmp (mem_slice aptr) (mem_slice bptr)"

definition EncodeKey :: "slice \<Rightarrow> byte list" where
  "EncodeKey target = PutVarint32 [] (of_nat (length target)) @ target"

definition encode_entry :: "u64 \<Rightarrow> ValueType \<Rightarrow> slice \<Rightarrow> slice \<Rightarrow> byte list" where
  "encode_entry s t key value =
     EncodeVarint32 (of_nat (length key + 8)) @ key @ EncodeFixed64 (push_bit 8 s OR type_code t) @
     EncodeVarint32 (of_nat (length value)) @ value"

section \<open>The table\<close>

record MemTable =
  mrefs :: int
  table :: "byte list SkipList"

definition new_MemTable :: MemTable where
  "new_MemTable = \<lparr> mrefs = 0, table = new_SkipList [] \<rparr>"

definition mem_Ref :: "MemTable \<Rightarrow> MemTable" where
  "mem_Ref m = m\<lparr> mrefs := mrefs m + 1 \<rparr>"

text \<open>The result is \<^term>\<open>None\<close> when the table is deleted.\<close>

definition mem_Unref :: "MemTable \<Rightarrow> MemTable option" where
  "mem_Unref m = (let m = m\<lparr> mrefs := mrefs m - 1 \<rparr> in if mrefs m \<le> 0 then None else Some m)"

definition mem_Add :: "(slice \<Rightarrow> slice \<Rightarrow> int) \<Rightarrow> u64 \<Rightarrow> ValueType \<Rightarrow> slice \<Rightarrow> slice \<Rightarrow> MemTable \<Rightarrow> MemTable option" where
  "mem_Add ucmp s t key value m =
     map_option (\<lambda>L. m\<lparr> table := L \<rparr>) (Insert (KeyComparator ucmp) (encode_entry s t key value) (table m))"

text \<open>
  The result of \<^verbatim>\<open>Get\<close>: \<^term>\<open>None\<close> if it returns false, otherwise the status it sets or the value. The
  outer option is that of the search.
\<close>

definition mem_Get :: "(slice \<Rightarrow> slice \<Rightarrow> int) \<Rightarrow> slice \<Rightarrow> u64 \<Rightarrow> MemTable \<Rightarrow> (status + slice) option option" where
  "mem_Get ucmp ukey snapshot m =
     map_option (\<lambda>node.
       if iter_Valid node
       then (let entry = iter_key (table m) node; (key_length, key_ptr) = entry_head entry in
             if ucmp (take (key_length - 8) key_ptr) ukey = 0
             then (let tag = DecodeFixed64 (drop (key_length - 8) key_ptr) in
                   if tag AND 255 = type_code kTypeValue then Some (Inr (mem_slice (drop key_length key_ptr)))
                   else if tag AND 255 = type_code kTypeDeletion then Some (Inl (NotFound [] []))
                   else None)
             else None)
       else None)
     (iter_Seek (KeyComparator ucmp) (table m) (LookupKey_memtable_key ukey snapshot))"

text \<open>The iterator over the table; like the iterator of the skip list it is a node pointer.\<close>

definition memiter_Seek :: "(slice \<Rightarrow> slice \<Rightarrow> int) \<Rightarrow> MemTable \<Rightarrow> slice \<Rightarrow> nat option option" where
  "memiter_Seek ucmp m k = iter_Seek (KeyComparator ucmp) (table m) (EncodeKey k)"

definition memiter_key :: "MemTable \<Rightarrow> nat option \<Rightarrow> slice" where
  "memiter_key m node = mem_slice (iter_key (table m) node)"

definition memiter_value :: "MemTable \<Rightarrow> nat option \<Rightarrow> slice" where
  "memiter_value m node = (let (len, p) = entry_head (iter_key (table m) node) in mem_slice (drop len p))"

section \<open>Entries are read back\<close>

lemma entry_head_Encode: "entry_head (EncodeVarint32 v @ rest) = (unat v, rest)"
proof -
  let ?n = "length (EncodeVarint32 v)"
  have t: "take 5 (EncodeVarint32 v @ rest) = EncodeVarint32 v @ take (5 - ?n) rest" using varint32_length [of v] by simp
  have "GetVarint32Ptr (take 5 (EncodeVarint32 v @ rest)) = Some (v, take (5 - ?n) rest)"
    unfolding t using GetVarint32_EncodeVarint32 [of v "take (5 - ?n) rest"] by (simp only: GetVarint32_def)
  moreover have "length (take 5 (EncodeVarint32 v @ rest)) - length (take (5 - ?n) rest) = ?n" unfolding t by simp
  ultimately show ?thesis by (simp add: entry_head_def del: take_append)
qed

record mem_entry =
  eseq :: u64
  etype :: ValueType
  ekey :: slice
  evalue :: slice

definition entry_bytes :: "mem_entry \<Rightarrow> byte list" where
  "entry_bytes e = encode_entry (eseq e) (etype e) (ekey e) (evalue e)"

definition entry_fits :: "mem_entry \<Rightarrow> bool" where
  "entry_fits e \<longleftrightarrow> eseq e \<le> kMaxSequenceNumber \<and> length (ekey e) + 8 < 2 ^ 32 \<and> length (evalue e) < 2 ^ 32"

definition internal_key :: "mem_entry \<Rightarrow> slice" where
  "internal_key e = AppendInternalKey [] \<lparr> user_key = ekey e, sequence = eseq e, vtype = etype e \<rparr>"

lemma unat_length: "n < 2 ^ 32 \<Longrightarrow> unat (of_nat n :: u32) = n"
  by (rule unat_of_nat_small) simp

lemma entry_bytes_parts:
  assumes "entry_fits e"
  shows "entry_head (entry_bytes e) = (length (ekey e) + 8, internal_key e @ EncodeVarint32 (of_nat (length (evalue e))) @ evalue e)"
    and "mem_slice (entry_bytes e) = internal_key e"
    and "mem_slice (EncodeVarint32 (of_nat (length (evalue e))) @ evalue e) = evalue e"
proof -
  have u: "unat (of_nat (length (ekey e) + 8) :: u32) = length (ekey e) + 8" "unat (of_nat (length (evalue e)) :: u32) = length (evalue e)"
    using assms unat_length by (simp_all add: entry_fits_def del: unsigned_of_nat of_nat_add)
  show 1: "entry_head (entry_bytes e) = (length (ekey e) + 8, internal_key e @ EncodeVarint32 (of_nat (length (evalue e))) @ evalue e)"
    unfolding entry_bytes_def encode_entry_def entry_head_Encode u
    by (simp add: internal_key_def AppendInternalKey_def PutFixed64_def PackSequenceAndType_def)
  show "mem_slice (entry_bytes e) = internal_key e"
    by (simp add: mem_slice_def 1 internal_key_def InternalKeyEncodingLength_def)
  show "mem_slice (EncodeVarint32 (of_nat (length (evalue e))) @ evalue e) = evalue e"
    unfolding mem_slice_def entry_head_Encode u by simp
qed

lemma lookup_key_parts:
  assumes "length k + 8 < 2 ^ 32"
  shows "mem_slice (LookupKey_memtable_key k s) = AppendInternalKey [] \<lparr> user_key = k, sequence = s, vtype = kValueTypeForSeek \<rparr>"
  unfolding LookupKey_memtable_key_def mem_slice_def entry_head_Encode unat_length [OF assms]
  by (simp add: AppendInternalKey_def PutFixed64_def)

section \<open>The order of entries\<close>

definition entry_valid :: "byte list \<Rightarrow> bool" where
  "entry_valid bs \<longleftrightarrow> 8 \<le> length (mem_slice bs)"

interpretation memkeys: key_order "KeyComparator BytewiseCompare" entry_valid
proof unfold_locales
  fix a b c
  assume v: "entry_valid a" "entry_valid b"
  then show "KeyComparator BytewiseCompare a b < 0 \<longleftrightarrow> 0 < KeyComparator BytewiseCompare b a"
    unfolding KeyComparator_def entry_valid_def by (rule dbkeys.internal.compare_flip)
  assume "entry_valid c" "KeyComparator BytewiseCompare a b < 0" "KeyComparator BytewiseCompare b c < 0"
  with v show "KeyComparator BytewiseCompare a c < 0"
    unfolding KeyComparator_def entry_valid_def by (rule dbkeys.internal.compare_trans)
qed

lemma entry_bytes_valid: "entry_fits e \<Longrightarrow> entry_valid (entry_bytes e)"
  by (simp add: entry_valid_def entry_bytes_parts internal_key_def InternalKeyEncodingLength_def)

lemma lookup_valid: "length k + 8 < 2 ^ 32 \<Longrightarrow> entry_valid (LookupKey_memtable_key k s)"
  by (simp add: entry_valid_def lookup_key_parts InternalKeyEncodingLength_def)

lemma internal_less_iff:
  assumes "sequence x \<le> kMaxSequenceNumber" "sequence y \<le> kMaxSequenceNumber"
  shows "InternalKeyCompare BytewiseCompare (AppendInternalKey [] x) (AppendInternalKey [] y) < 0 \<longleftrightarrow>
     user_key x < user_key y \<or> user_key x = user_key y \<and>
     (sequence y < sequence x \<or> sequence x = sequence y \<and> type_code (vtype y) < type_code (vtype x))"
  using assms by (auto simp: dbkeys.internal_less BytewiseCompare_less Pack_less)

lemma entry_less:
  assumes "entry_fits a" "entry_fits b"
  shows "KeyComparator BytewiseCompare (entry_bytes a) (entry_bytes b) < 0 \<longleftrightarrow>
     ekey a < ekey b \<or> ekey a = ekey b \<and> (eseq b < eseq a \<or> eseq a = eseq b \<and> type_code (etype b) < type_code (etype a))"
  using assms internal_less_iff [of "\<lparr> user_key = ekey a, sequence = eseq a, vtype = etype a \<rparr>" "\<lparr> user_key = ekey b, sequence = eseq b, vtype = etype b \<rparr>"]
  by (simp add: KeyComparator_def entry_bytes_parts(2) internal_key_def entry_fits_def)

lemma entry_before_lookup:
  assumes "entry_fits e" and "length k + 8 < 2 ^ 32" and "snapshot \<le> kMaxSequenceNumber"
  shows "KeyComparator BytewiseCompare (entry_bytes e) (LookupKey_memtable_key k snapshot) < 0 \<longleftrightarrow>
     ekey e < k \<or> ekey e = k \<and> snapshot < eseq e"
proof -
  have "\<not> type_code kTypeValue < type_code (etype e)" by (cases "etype e") (simp_all add: type_code_def)
  then show ?thesis
    using assms internal_less_iff [of "\<lparr> user_key = ekey e, sequence = eseq e, vtype = etype e \<rparr>" "\<lparr> user_key = k, sequence = snapshot, vtype = kTypeValue \<rparr>"]
    by (simp add: KeyComparator_def entry_bytes_parts(2) lookup_key_parts internal_key_def entry_fits_def kValueTypeForSeek_def)
qed

lemma entry_equal:
  assumes "entry_fits a" "entry_fits b" and "KeyComparator BytewiseCompare (entry_bytes a) (entry_bytes b) = 0"
  shows "ekey a = ekey b \<and> eseq a = eseq b"
proof -
  have "\<not> KeyComparator BytewiseCompare (entry_bytes a) (entry_bytes b) < 0" "\<not> KeyComparator BytewiseCompare (entry_bytes b) (entry_bytes a) < 0"
    using assms(3) memkeys.flip [OF entry_bytes_valid [OF assms(1)] entry_bytes_valid [OF assms(2)]]
      memkeys.flip [OF entry_bytes_valid [OF assms(2)] entry_bytes_valid [OF assms(1)]] by linarith+
  then show ?thesis unfolding entry_less [OF assms(1,2)] entry_less [OF assms(2,1)] by (metis linorder_neqE)
qed

section \<open>The contents of a table\<close>

definition holds :: "MemTable \<Rightarrow> mem_entry list \<Rightarrow> bool" where
  "holds m es \<longleftrightarrow> represents (KeyComparator BytewiseCompare) entry_valid (table m) (map entry_bytes es)"

fun mem_add_all :: "mem_entry list \<Rightarrow> MemTable \<Rightarrow> MemTable option" where
  "mem_add_all [] m = Some m"
| "mem_add_all (e # es) m = (case mem_Add BytewiseCompare (eseq e) (etype e) (ekey e) (evalue e) m of
     Some m \<Rightarrow> mem_add_all es m | None \<Rightarrow> None)"

definition insert_entry :: "mem_entry \<Rightarrow> mem_entry list \<Rightarrow> mem_entry list" where
  "insert_entry e es = (let before = (\<lambda>x. KeyComparator BytewiseCompare (entry_bytes x) (entry_bytes e) < 0)
     in takeWhile before es @ e # dropWhile before es)"

lemma mset_insert_entry: "mset (insert_entry e es) = add_mset e (mset es)"
proof -
  have "mset (takeWhile P es) + mset (dropWhile P es) = mset es" for P
    unfolding mset_append [symmetric] by simp
  then show ?thesis by (simp add: insert_entry_def Let_def)
qed

lemma set_insert_entry [simp]: "set (insert_entry e es) = insert e (set es)"
  using mset_insert_entry [of e es] by (metis set_mset_add_mset_insert set_mset_mset)

lemma sorted_insert_entry: "sorted_insert (KeyComparator BytewiseCompare) (entry_bytes e) (map entry_bytes es) = map entry_bytes (insert_entry e es)"
  by (simp add: sorted_insert_def insert_entry_def Let_def takeWhile_map dropWhile_map comp_def)

lemma mem_Add_holds:
  assumes "holds m es" and "entry_fits e" and "\<forall>x\<in>set es. entry_fits x \<and> (ekey x, eseq x) \<noteq> (ekey e, eseq e)"
  shows "\<exists>m'. mem_Add BytewiseCompare (eseq e) (etype e) (ekey e) (evalue e) m = Some m' \<and> holds m' (insert_entry e es)"
proof -
  have "\<forall>k\<in>set (map entry_bytes es). KeyComparator BytewiseCompare k (entry_bytes e) \<noteq> 0"
    using assms(2,3) entry_equal by fastforce
  from memkeys.Insert_represents [OF assms(1) [unfolded holds_def] entry_bytes_valid [OF assms(2)] this] show ?thesis
    by (auto simp: mem_Add_def entry_bytes_def [symmetric] holds_def sorted_insert_entry)
qed

lemma mem_add_all_holds:
  assumes "holds m hs" and "\<forall>e\<in>set hs. entry_fits e" and "\<forall>e\<in>set es. entry_fits e"
    and "distinct (map (\<lambda>e. (ekey e, eseq e)) (hs @ es))"
  shows "\<exists>m' all. mem_add_all es m = Some m' \<and> holds m' all \<and> set all = set hs \<union> set es \<and>
     distinct (map (\<lambda>e. (ekey e, eseq e)) all)"
  using assms
proof (induction es arbitrary: m hs)
  case Nil
  then show ?case by auto
next
  case (Cons e es)
  have "\<forall>x\<in>set hs. entry_fits x \<and> (ekey x, eseq x) \<noteq> (ekey e, eseq e)"
    using Cons.prems(2,4) by (force simp: image_iff)
  from mem_Add_holds [OF Cons.prems(1) _ this] Cons.prems(3) obtain m1 where
    m1: "mem_Add BytewiseCompare (eseq e) (etype e) (ekey e) (evalue e) m = Some m1" "holds m1 (insert_entry e hs)" by auto
  have "mset (map (\<lambda>e. (ekey e, eseq e)) (insert_entry e hs @ es)) = mset (map (\<lambda>e. (ekey e, eseq e)) (hs @ e # es))"
    by (simp add: mset_insert_entry)
  then have "distinct (map (\<lambda>e. (ekey e, eseq e)) (insert_entry e hs @ es))" using Cons.prems(4) mset_eq_imp_distinct_iff by blast
  from Cons.IH [OF m1(2) _ _ this] Cons.prems(2,3) m1(1) show ?case by auto
qed

text \<open>The sorted order, and what a search finds.\<close>

lemma holds_sorted:
  assumes "holds m es" and "i < j" and "j < length es"
  shows "KeyComparator BytewiseCompare (entry_bytes (es ! i)) (entry_bytes (es ! j)) < 0"
  using assms sorted_wrt_nth_less [of "\<lambda>a b. KeyComparator BytewiseCompare a b < 0" "map entry_bytes es" i j]
  by (simp add: holds_def represents_def)

definition answer :: "mem_entry \<Rightarrow> status + slice" where
  "answer e = (case etype e of kTypeValue \<Rightarrow> Inr (evalue e) | kTypeDeletion \<Rightarrow> Inl (NotFound [] []))"

definition seen :: "slice \<Rightarrow> u64 \<Rightarrow> mem_entry \<Rightarrow> bool" where
  "seen k snapshot e \<longleftrightarrow> ekey e = k \<and> eseq e \<le> snapshot"

lemma Get_at:
  assumes "holds m es" and "\<forall>e\<in>set es. entry_fits e" and "length k + 8 < 2 ^ 32"
    and i: "i = seek_pos (KeyComparator BytewiseCompare) (LookupKey_memtable_key k snapshot) (map entry_bytes es)"
  shows "mem_Get BytewiseCompare k snapshot m = Some (if i < length es \<and> ekey (es ! i) = k then Some (answer (es ! i)) else None)"
proof -
  from memkeys.Seek_positioned [OF assms(1) [unfolded holds_def] lookup_valid [OF assms(3), of snapshot]] obtain node where
    n: "iter_Seek (KeyComparator BytewiseCompare) (table m) (LookupKey_memtable_key k snapshot) = Some node" "positioned (table m) (map entry_bytes es) i node"
    by (auto simp: iter_Seek_def i)
  show ?thesis
  proof (cases "i < length es")
    case False
    then have "\<not> iter_Valid node" using positioned_end [OF n(2)] by simp
    with n(1) False show ?thesis by (simp add: mem_Get_def)
  next
    case True
    define e where "e = es ! i"
    have v: "iter_Valid node" "iter_key (table m) node = entry_bytes e" using positioned_key [OF n(2)] True by (simp_all add: e_def)
    have f: "entry_fits e" using True assms(2) by (simp add: e_def)
    have ik: "internal_key e = ekey e @ EncodeFixed64 (PackSequenceAndType (eseq e) (etype e))"
      by (simp add: internal_key_def AppendInternalKey_def PutFixed64_def)
    have c: "BytewiseCompare (ekey e) k = 0 \<longleftrightarrow> ekey e = k" by (simp add: BytewiseCompare_def slice_compare_spec)
    have t: "PackSequenceAndType (eseq e) ty AND 255 = type_code ty" for ty using f by (simp add: Pack_type entry_fits_def)
    have d: "drop (length (ekey e) + 8) (ekey e @ EncodeFixed64 x @ r) = r" for x r by (simp add: drop_append [of "length (ekey e) + 8" "ekey e"])
    have "mem_Get BytewiseCompare k snapshot m = Some (if ekey e = k then Some (answer e) else None)"
      using v f n(1) by (cases "etype e") (simp_all add: mem_Get_def entry_bytes_parts ik c t d Let_def type_code_def answer_def)
    with True show ?thesis by (simp add: e_def)
  qed
qed

lemma seek_pos_before:
  "j < seek_pos cmp key ks \<Longrightarrow> cmp (ks ! j) key < 0" "seek_pos cmp key ks < length ks \<Longrightarrow> \<not> cmp (ks ! seek_pos cmp key ks) key < 0"
  unfolding seek_pos_def using nth_length_takeWhile [of "\<lambda>k. cmp k key < 0" ks]
    nth_mem [of j "takeWhile (\<lambda>k. cmp k key < 0) ks"] takeWhile_nth [of j "\<lambda>k. cmp k key < 0" ks]
  by (auto dest: set_takeWhileD)

text \<open>The entry a search stops at is the newest one the snapshot sees, if it sees any.\<close>

lemma newest_found:
  assumes h: "holds m es" and f: "\<forall>e\<in>set es. entry_fits e" and k: "length k + 8 < 2 ^ 32" and s: "snapshot \<le> kMaxSequenceNumber"
    and i: "i = seek_pos (KeyComparator BytewiseCompare) (LookupKey_memtable_key k snapshot) (map entry_bytes es)"
  shows "i < length es \<Longrightarrow> ekey (es ! i) = k \<Longrightarrow> seen k snapshot (es ! i)"
    and "x \<in> set es \<Longrightarrow> seen k snapshot x \<Longrightarrow> i < length es \<and> ekey (es ! i) = k \<and> eseq x \<le> eseq (es ! i)"
proof -
  have at: "\<not> (ekey (es ! i) < k \<or> ekey (es ! i) = k \<and> snapshot < eseq (es ! i))" if "i < length es"
    using seek_pos_before(2) [of "KeyComparator BytewiseCompare" "LookupKey_memtable_key k snapshot" "map entry_bytes es"]
      entry_before_lookup [OF _ k s, of "es ! i"] f that by (simp flip: i)
  then show "i < length es \<Longrightarrow> ekey (es ! i) = k \<Longrightarrow> seen k snapshot (es ! i)" by (auto simp: seen_def)
  assume x: "x \<in> set es" "seen k snapshot x"
  then obtain j where j: "j < length es" "x = es ! j" by (metis in_set_conv_nth)
  have "\<not> j < i"
    using seek_pos_before(1) [of j "KeyComparator BytewiseCompare" "LookupKey_memtable_key k snapshot" "map entry_bytes es"]
      entry_before_lookup [OF _ k s, of x] f x j by (auto simp: seen_def simp flip: i)
  then have ij: "i \<le> j" "i < length es" using j by simp_all
  show "i < length es \<and> ekey (es ! i) = k \<and> eseq x \<le> eseq (es ! i)"
  proof (cases "i = j")
    case True
    with j x(2) show ?thesis by (simp add: seen_def)
  next
    case False
    with holds_sorted [OF h, of i j] ij j have "KeyComparator BytewiseCompare (entry_bytes (es ! i)) (entry_bytes x) < 0" by simp
    with entry_less [of "es ! i" x] f ij(2) x(1) have "ekey (es ! i) < ekey x \<or> ekey (es ! i) = ekey x \<and> eseq x \<le> eseq (es ! i)" by auto
    with at [OF ij(2)] x(2) ij(2) show ?thesis by (auto simp: seen_def)
  qed
qed

lemma new_holds: "holds new_MemTable []"
  by (simp add: holds_def new_MemTable_def new_represents)

lemma Get_newest:
  assumes "holds m hs" and "\<forall>e\<in>set hs. entry_fits e" and "length k + 8 < 2 ^ 32" and "snapshot \<le> kMaxSequenceNumber"
  shows "\<exists>r. mem_Get BytewiseCompare k snapshot m = Some r \<and>
     (if \<exists>e\<in>set hs. seen k snapshot e
      then \<exists>e\<in>set hs. seen k snapshot e \<and> (\<forall>x\<in>set hs. seen k snapshot x \<longrightarrow> eseq x \<le> eseq e) \<and> r = Some (answer e)
      else r = None)"
proof -
  let ?i = "seek_pos (KeyComparator BytewiseCompare) (LookupKey_memtable_key k snapshot) (map entry_bytes hs)"
  let ?found = "?i < length hs \<and> ekey (hs ! ?i) = k"
  have g: "mem_Get BytewiseCompare k snapshot m = Some (if ?found then Some (answer (hs ! ?i)) else None)"
    by (rule Get_at [OF assms(1-3) refl])
  show ?thesis
  proof (cases "\<exists>e\<in>set hs. seen k snapshot e")
    case True
    then have "?found" using newest_found(2) [OF assms refl] by blast
    moreover from this have "seen k snapshot (hs ! ?i)" "hs ! ?i \<in> set hs" using newest_found(1) [OF assms refl] by auto
    moreover have "\<forall>x\<in>set hs. seen k snapshot x \<longrightarrow> eseq x \<le> eseq (hs ! ?i)" using newest_found(2) [OF assms refl] by blast
    ultimately show ?thesis using g True by auto
  next
    case False
    then have "\<not> ?found" using newest_found(1) [OF assms refl] by (metis nth_mem)
    with g False show ?thesis by auto
  qed
qed

section \<open>Properties\<close>

text \<open>
  C33. The table of recent writes answers a lookup with the newest write the snapshot sees. After
  entries with distinct pairs of key and sequence number were added in any order, all insertions and
  searches of the skip list end, whatever heights the random generator chose; \<^verbatim>\<open>Get\<close> returns false
  exactly if no entry of the key is at most as new as the snapshot, and otherwise answers with the
  entry with the largest such sequence number: its value, or \<^verbatim>\<open>NotFound\<close> if it is a deletion.
\<close>

theorem memtable_get_newest:
  assumes "\<forall>e\<in>set es. entry_fits e" and "distinct (map (\<lambda>e. (ekey e, eseq e)) es)"
    and "length k + 8 < 2 ^ 32" and "snapshot \<le> kMaxSequenceNumber"
  shows "\<exists>m r. mem_add_all es new_MemTable = Some m \<and> mem_Get BytewiseCompare k snapshot m = Some r \<and>
     (if \<exists>e\<in>set es. seen k snapshot e
      then \<exists>e\<in>set es. seen k snapshot e \<and> (\<forall>x\<in>set es. seen k snapshot x \<longrightarrow> eseq x \<le> eseq e) \<and> r = Some (answer e)
      else r = None)"
proof -
  from mem_add_all_holds [OF new_holds _ assms(1)] assms(2) obtain m hs where
    m: "mem_add_all es new_MemTable = Some m" "holds m hs" "set hs = set es" by auto
  from Get_newest [OF m(2) _ assms(3,4), unfolded m(3), OF assms(1)] m(1) show ?thesis by blast
qed

theorem memtable_get_newest_witness:
  "let es = [\<lparr> eseq = 5, etype = kTypeValue, ekey = [97], evalue = [1] \<rparr>, \<lparr> eseq = 9, etype = kTypeDeletion, ekey = [97], evalue = [] \<rparr>,
             \<lparr> eseq = 7, etype = kTypeValue, ekey = [97], evalue = [2] \<rparr>]
   in \<exists>m. mem_add_all es new_MemTable = Some m \<and> mem_Get BytewiseCompare [97] 8 m = Some (Some (Inr [2]))"
proof -
  let ?es = "[\<lparr> eseq = 5, etype = kTypeValue, ekey = [97], evalue = [1] \<rparr>, \<lparr> eseq = 9, etype = kTypeDeletion, ekey = [97], evalue = [] \<rparr>,
      \<lparr> eseq = 7, etype = kTypeValue, ekey = [97], evalue = [2] \<rparr>]"
  have "\<forall>e\<in>set ?es. entry_fits e" "distinct (map (\<lambda>e. (ekey e, eseq e)) ?es)" "(8 :: u64) \<le> kMaxSequenceNumber"
    by (simp_all add: entry_fits_def kMaxSequenceNumber_def)
  from memtable_get_newest [OF this(1,2) _ this(3), of "[97]"] show ?thesis
    by (auto simp: seen_def answer_def)
qed

text \<open>
  C34. The skip list implements a sorted list. Ordered by the comparator of the table's entries, a
  list that represents the keys \<^term>\<open>ks\<close> (every level links a subsequence of one chain of nodes,
  with the keys in strictly increasing order) behaves as follows for every valid key, whatever the
  heights of its nodes are, and every loop ends: inserting a new key puts it at its place in the
  order, \<^verbatim>\<open>Contains\<close> tells whether an equal key is there, \<^verbatim>\<open>Seek\<close> stops at the first key that is not
  smaller, \<^verbatim>\<open>SeekToFirst\<close>, \<^verbatim>\<open>SeekToLast\<close>, \<^verbatim>\<open>Next\<close> and \<^verbatim>\<open>Prev\<close> move to the first, last, next and
  previous key, and the iterator is invalid exactly beyond either end.
\<close>

theorem skiplist_refines:
  assumes r: "represents (KeyComparator BytewiseCompare) entry_valid L ks" and key: "entry_valid key"
  shows "((\<forall>k\<in>set ks. KeyComparator BytewiseCompare k key \<noteq> 0) \<longrightarrow>
       (\<exists>L'. Insert (KeyComparator BytewiseCompare) key L = Some L' \<and>
          represents (KeyComparator BytewiseCompare) entry_valid L' (sorted_insert (KeyComparator BytewiseCompare) key ks))) \<and>
     Contains (KeyComparator BytewiseCompare) key L = Some (\<exists>k\<in>set ks. KeyComparator BytewiseCompare key k = 0) \<and>
     (\<exists>n. iter_Seek (KeyComparator BytewiseCompare) L key = Some n \<and> positioned L ks (seek_pos (KeyComparator BytewiseCompare) key ks) n) \<and>
     positioned L ks 0 (iter_SeekToFirst L) \<and>
     (\<exists>n. iter_SeekToLast L = Some n \<and> (if ks = [] then \<not> iter_Valid n else positioned L ks (length ks - 1) n)) \<and>
     (\<forall>i<length ks. \<forall>n. positioned L ks i n \<longrightarrow>
        iter_Valid n \<and> iter_key L n = ks ! i \<and> positioned L ks (i + 1) (iter_Next L n) \<and>
        (\<exists>n'. iter_Prev (KeyComparator BytewiseCompare) L n = Some n' \<and> (if i = 0 then \<not> iter_Valid n' else positioned L ks (i - 1) n'))) \<and>
     (\<forall>n. positioned L ks (length ks) n \<longrightarrow> \<not> iter_Valid n)"
proof -
  have "\<exists>n. iter_Seek (KeyComparator BytewiseCompare) L key = Some n \<and> positioned L ks (seek_pos (KeyComparator BytewiseCompare) key ks) n"
    using memkeys.Seek_positioned [OF r key] by (auto simp: iter_Seek_def)
  moreover have "\<exists>n. iter_SeekToLast L = Some n \<and> (if ks = [] then \<not> iter_Valid n else positioned L ks (length ks - 1) n)"
    using positioned_last [OF r] by (auto simp: iter_Valid_def)
  moreover have "\<exists>n'. iter_Prev (KeyComparator BytewiseCompare) L n = Some n' \<and> (if i = 0 then \<not> iter_Valid n' else positioned L ks (i - 1) n')"
    if "i < length ks" "positioned L ks i n" for i n
    using memkeys.Prev_positioned [OF r that(2,1)] by (cases "i = 0") (auto simp: iter_Valid_def)
  ultimately show ?thesis
    using memkeys.Insert_represents [OF r key] memkeys.Contains_represents [OF r key] positioned_first [OF r]
      positioned_key [of L ks] positioned_Next [of L ks] positioned_end [of L ks "length ks"] by simp
qed

theorem skiplist_refines_witness:
  "let e = encode_entry 3 kTypeValue [97] [1]
   in \<exists>L n. Insert (KeyComparator BytewiseCompare) e (new_SkipList []) = Some L \<and>
        iter_Seek (KeyComparator BytewiseCompare) L (LookupKey_memtable_key [97] 5) = Some n \<and> iter_Valid n \<and> iter_key L n = e"
proof -
  let ?c = "KeyComparator BytewiseCompare" and ?x = "\<lparr> eseq = 3, etype = kTypeValue, ekey = [97], evalue = [1] \<rparr>"
  let ?e = "encode_entry 3 kTypeValue [97] [1]" and ?l = "LookupKey_memtable_key [97] 5"
  have f: "entry_fits ?x" "entry_bytes ?x = ?e" by (simp_all add: entry_bytes_def entry_fits_def kMaxSequenceNumber_def)
  have v: "entry_valid ?e" "entry_valid ?l" using entry_bytes_valid [OF f(1)] f(2) by (simp_all add: lookup_valid)
  have s: "seek_pos ?c ?l [?e] = 0"
    using entry_before_lookup [OF f(1), of "[97]" 5] f(2) by (simp add: seek_pos_def kMaxSequenceNumber_def)
  from skiplist_refines [OF new_represents v(1), of "[]"] obtain L where
    L: "Insert ?c ?e (new_SkipList []) = Some L" "represents ?c entry_valid L [?e]" by (auto simp: sorted_insert_def)
  from skiplist_refines [OF L(2) v(2)] L(1) show ?thesis unfolding s Let_def by fastforce
qed

end
