(* ===== verification/WriteBatch.thy ===== *)
theory WriteBatch
  imports MemTable "HOL-Library.Monad_Syntax"
begin

text \<open>
  Batches of writes, \<^verbatim>\<open>leveldb/db/write_batch.cc\<close>: a batch is one string with a sequence number, a count and
  the encoded operations. The theory shows that iterating over a batch calls the handler with the
  operations that were put into it, and that a batch inserted into the table of recent writes is
  what a later lookup sees.
\<close>

section \<open>Definitions\<close>

definition kHeader :: nat where
  "kHeader = 12"

definition batch_Clear :: "byte list" where
  "batch_Clear = replicate kHeader 0"

definition Count :: "byte list \<Rightarrow> u32" where
  "Count rep = DecodeFixed32 (drop 8 rep)"

definition SetCount :: "u32 \<Rightarrow> byte list \<Rightarrow> byte list" where
  "SetCount n rep = take 8 rep @ EncodeFixed32 n @ drop 12 rep"

definition Sequence :: "byte list \<Rightarrow> u64" where
  "Sequence rep = DecodeFixed64 rep"

definition SetSequence :: "u64 \<Rightarrow> byte list \<Rightarrow> byte list" where
  "SetSequence seq rep = EncodeFixed64 seq @ drop 8 rep"

definition batch_Put :: "slice \<Rightarrow> slice \<Rightarrow> byte list \<Rightarrow> byte list" where
  "batch_Put key value rep =
     (let rep = SetCount (Count rep + 1) rep; rep = rep @ [ucast (type_code kTypeValue)];
          rep = PutLengthPrefixedSlice rep key
      in PutLengthPrefixedSlice rep value)"

definition batch_Delete :: "slice \<Rightarrow> byte list \<Rightarrow> byte list" where
  "batch_Delete key rep =
     (let rep = SetCount (Count rep + 1) rep; rep = rep @ [ucast (type_code kTypeDeletion)]
      in PutLengthPrefixedSlice rep key)"

definition batch_Append :: "byte list \<Rightarrow> byte list \<Rightarrow> byte list" where
  "batch_Append src dst = SetCount (Count dst + Count src) dst @ drop kHeader src"

definition SetContents :: "slice \<Rightarrow> byte list" where
  "SetContents contents = contents"

lemma GetLengthPrefixedSlice_shorter: "GetLengthPrefixedSlice p = Some (s, q) \<Longrightarrow> length q < length p"
proof -
  assume "GetLengthPrefixedSlice p = Some (s, q)"
  from GetLengthPrefixedSlice_suffix [OF this] obtain n where n: "1 \<le> n" "n \<le> length p" "s @ q = drop n p" by blast
  from n(3) have "length s + length q = length p - n" by (metis length_append length_drop)
  with n show ?thesis by simp
qed

text \<open>
  The loop of \<^verbatim>\<open>Iterate\<close>. The handler's two methods change a state and may fail to return. The result
  is the status the loop returns early, or \<^verbatim>\<open>OK\<close> with the number of operations found.
\<close>

function iterate_loop ::
  "(slice \<Rightarrow> slice \<Rightarrow> 's \<Rightarrow> 's option) \<Rightarrow> (slice \<Rightarrow> 's \<Rightarrow> 's option) \<Rightarrow> byte list \<Rightarrow> nat \<Rightarrow> 's \<Rightarrow> (status \<times> nat \<times> 's) option" where
  "iterate_loop hput hdelete input found s = (case input of
     [] \<Rightarrow> Some (OK, found, s)
   | tag # input \<Rightarrow>
       (if tag = ucast (type_code kTypeValue)
        then (case GetLengthPrefixedSlice input of
                None \<Rightarrow> Some (Corruption (bytes_of ''bad WriteBatch Put'') [], found + 1, s)
              | Some (key, input) \<Rightarrow> (case GetLengthPrefixedSlice input of
                  None \<Rightarrow> Some (Corruption (bytes_of ''bad WriteBatch Put'') [], found + 1, s)
                | Some (value, input) \<Rightarrow> do { s \<leftarrow> hput key value s; iterate_loop hput hdelete input (found + 1) s }))
        else if tag = ucast (type_code kTypeDeletion)
        then (case GetLengthPrefixedSlice input of
                None \<Rightarrow> Some (Corruption (bytes_of ''bad WriteBatch Delete'') [], found + 1, s)
              | Some (key, input) \<Rightarrow> do { s \<leftarrow> hdelete key s; iterate_loop hput hdelete input (found + 1) s })
        else Some (Corruption (bytes_of ''unknown WriteBatch tag'') [], found + 1, s)))"
  by pat_completeness auto
termination
  by (relation "measure (\<lambda>(hput, hdelete, input, found, s). length input)")
    (auto dest!: GetLengthPrefixedSlice_shorter)

declare iterate_loop.simps [simp del]

definition Iterate ::
  "(slice \<Rightarrow> slice \<Rightarrow> 's \<Rightarrow> 's option) \<Rightarrow> (slice \<Rightarrow> 's \<Rightarrow> 's option) \<Rightarrow> byte list \<Rightarrow> 's \<Rightarrow> (status \<times> 's) option" where
  "Iterate hput hdelete rep s =
     (if length rep < kHeader then Some (Corruption (bytes_of ''malformed WriteBatch (too small)'') [], s)
      else do { (st, found, s) \<leftarrow> iterate_loop hput hdelete (drop kHeader rep) 0 s;
                Some (if \<not> ok st then st
                      else if of_nat found \<noteq> Count rep then Corruption (bytes_of ''WriteBatch has wrong count'') []
                      else OK, s) })"

text \<open>The handler that inserts into a table.\<close>

definition inserter_Put :: "(slice \<Rightarrow> slice \<Rightarrow> int) \<Rightarrow> slice \<Rightarrow> slice \<Rightarrow> u64 \<times> MemTable \<Rightarrow> (u64 \<times> MemTable) option" where
  "inserter_Put ucmp key value = (\<lambda>(seq, m). map_option (\<lambda>m. (seq + 1, m)) (mem_Add ucmp seq kTypeValue key value m))"

definition inserter_Delete :: "(slice \<Rightarrow> slice \<Rightarrow> int) \<Rightarrow> slice \<Rightarrow> u64 \<times> MemTable \<Rightarrow> (u64 \<times> MemTable) option" where
  "inserter_Delete ucmp key = (\<lambda>(seq, m). map_option (\<lambda>m. (seq + 1, m)) (mem_Add ucmp seq kTypeDeletion key [] m))"

definition InsertInto :: "(slice \<Rightarrow> slice \<Rightarrow> int) \<Rightarrow> byte list \<Rightarrow> MemTable \<Rightarrow> (status \<times> MemTable) option" where
  "InsertInto ucmp rep m =
     map_option (\<lambda>(st, seq, m). (st, m)) (Iterate (inserter_Put ucmp) (inserter_Delete ucmp) rep (Sequence rep, m))"

section \<open>What a batch holds\<close>

datatype batch_op = BPut slice slice | BDelete slice

fun op_fits :: "batch_op \<Rightarrow> bool" where
  "op_fits (BPut k v) \<longleftrightarrow> length k < 2 ^ 32 \<and> length v < 2 ^ 32"
| "op_fits (BDelete k) \<longleftrightarrow> length k < 2 ^ 32"

fun add_op :: "batch_op \<Rightarrow> byte list \<Rightarrow> byte list" where
  "add_op (BPut k v) rep = batch_Put k v rep"
| "add_op (BDelete k) rep = batch_Delete k rep"

definition build :: "batch_op list \<Rightarrow> byte list" where
  "build ops = fold add_op ops batch_Clear"

fun run_handler :: "(slice \<Rightarrow> slice \<Rightarrow> 's \<Rightarrow> 's option) \<Rightarrow> (slice \<Rightarrow> 's \<Rightarrow> 's option) \<Rightarrow> batch_op list \<Rightarrow> 's \<Rightarrow> 's option" where
  "run_handler hput hdelete [] s = Some s"
| "run_handler hput hdelete (BPut k v # ops) s = do { s \<leftarrow> hput k v s; run_handler hput hdelete ops s }"
| "run_handler hput hdelete (BDelete k # ops) s = do { s \<leftarrow> hdelete k s; run_handler hput hdelete ops s }"

fun op_bytes :: "batch_op \<Rightarrow> byte list" where
  "op_bytes (BPut k v) = 1 # PutLengthPrefixedSlice [] k @ PutLengthPrefixedSlice [] v"
| "op_bytes (BDelete k) = 0 # PutLengthPrefixedSlice [] k"

definition batch_bytes :: "u64 \<Rightarrow> batch_op list \<Rightarrow> byte list" where
  "batch_bytes seq ops = EncodeFixed64 seq @ EncodeFixed32 (of_nat (length ops)) @ concat (map op_bytes ops)"

lemma batch_fields:
  "Sequence (batch_bytes seq ops) = seq" "Count (batch_bytes seq ops) = of_nat (length ops)"
  "drop kHeader (batch_bytes seq ops) = concat (map op_bytes ops)" "kHeader \<le> length (batch_bytes seq ops)"
  "SetSequence seq' (batch_bytes seq ops) = batch_bytes seq' ops"
  by (simp_all add: batch_bytes_def Sequence_def Count_def SetSequence_def kHeader_def)

lemma SetCount_bytes: "SetCount n (batch_bytes seq ops) = EncodeFixed64 seq @ EncodeFixed32 n @ concat (map op_bytes ops)"
  by (simp add: batch_bytes_def SetCount_def)

lemma add_op_bytes: "add_op p (batch_bytes seq ops) = batch_bytes seq (ops @ [p])"
proof -
  have "(of_nat (length ops) :: u32) + 1 = of_nat (length (ops @ [p]))" by simp
  then show ?thesis
    unfolding batch_bytes_def [of seq "ops @ [p]"]
    by (cases p) (simp_all add: batch_Put_def batch_Delete_def batch_fields SetCount_bytes Let_def type_code_def
        PutLengthPrefixedSlice_append [of "_ @ _"] add.commute)
qed

lemma clear_bytes: "batch_Clear = batch_bytes 0 []"
  by (simp add: batch_Clear_def batch_bytes_def kHeader_def EncodeFixed64_def EncodeFixed32_def numeral_eq_Suc)

lemma build_bytes: "build ops = batch_bytes 0 ops"
proof -
  have "fold add_op ops (batch_bytes 0 xs) = batch_bytes 0 (xs @ ops)" for xs
    by (induction ops arbitrary: xs) (simp_all add: add_op_bytes)
  then show ?thesis by (simp add: build_def clear_bytes)
qed

lemma append_bytes: "batch_Append (batch_bytes s2 ops2) (batch_bytes s1 ops1) = batch_bytes s1 (ops1 @ ops2)"
  by (simp add: batch_Append_def batch_fields SetCount_bytes) (simp add: batch_bytes_def)

lemma iterate_ops:
  "list_all op_fits ops \<Longrightarrow> iterate_loop hput hdelete (concat (map op_bytes ops)) n s =
     map_option (\<lambda>s. (OK, n + length ops, s)) (run_handler hput hdelete ops s)"
proof (induction ops arbitrary: n s)
  case Nil
  then show ?case by (simp add: iterate_loop.simps)
next
  case (Cons p ops)
  show ?case
  proof (cases p)
    case (BPut k v)
    with Cons show ?thesis
      by (cases "hput k v s") (simp_all add: iterate_loop.simps [of _ _ "1 # _"] type_code_def)
  next
    case (BDelete k)
    with Cons show ?thesis
      by (cases "hdelete k s") (simp_all add: iterate_loop.simps [of _ _ "0 # _"] type_code_def)
  qed
qed

lemma Iterate_bytes:
  assumes "list_all op_fits ops"
  shows "Iterate hput hdelete (batch_bytes seq ops) s = map_option (\<lambda>s. (OK, s)) (run_handler hput hdelete ops s)"
  using iterate_ops [OF assms, of hput hdelete 0 s] batch_fields(2-4) [of seq ops]
  by (cases "run_handler hput hdelete ops s") (simp_all add: Iterate_def)

section \<open>A batch in the table\<close>

primrec batch_entries :: "u64 \<Rightarrow> batch_op list \<Rightarrow> mem_entry list" where
  "batch_entries seq [] = []"
| "batch_entries seq (p # ops) =
     (case p of BPut k v \<Rightarrow> \<lparr> eseq = seq, etype = kTypeValue, ekey = k, evalue = v \<rparr>
      | BDelete k \<Rightarrow> \<lparr> eseq = seq, etype = kTypeDeletion, ekey = k, evalue = [] \<rparr>) # batch_entries (seq + 1) ops"

lemma inserter_run:
  "run_handler (inserter_Put BytewiseCompare) (inserter_Delete BytewiseCompare) ops (seq, m) =
     map_option (\<lambda>m. (seq + of_nat (length ops), m)) (mem_add_all (batch_entries seq ops) m)"
proof (induction ops arbitrary: seq m)
  case (Cons p ops)
  show ?case
  proof (cases p)
    case (BPut k v)
    with Cons show ?thesis
      by (cases "mem_Add BytewiseCompare seq kTypeValue k v m") (simp_all add: inserter_Put_def ac_simps)
  next
    case (BDelete k)
    with Cons show ?thesis
      by (cases "mem_Add BytewiseCompare seq kTypeDeletion k [] m") (simp_all add: inserter_Delete_def ac_simps)
  qed
qed simp

lemma length_batch_entries [simp]: "length (batch_entries seq ops) = length ops"
  by (induction ops arbitrary: seq) simp_all

fun op_key :: "batch_op \<Rightarrow> slice" where
  "op_key (BPut k v) = k"
| "op_key (BDelete k) = k"

lemma batch_entries_nth:
  "i < length ops \<Longrightarrow> batch_entries seq ops ! i = (case ops ! i of
     BPut k v \<Rightarrow> \<lparr> eseq = seq + of_nat i, etype = kTypeValue, ekey = k, evalue = v \<rparr>
   | BDelete k \<Rightarrow> \<lparr> eseq = seq + of_nat i, etype = kTypeDeletion, ekey = k, evalue = [] \<rparr>)"
proof (induction ops arbitrary: seq i)
  case (Cons p ops)
  show ?case
  proof (cases i)
    case 0
    then show ?thesis by (simp split: batch_op.split)
  next
    case (Suc j)
    with Cons.IH [of j "seq + 1"] Cons.prems show ?thesis by (simp add: ac_simps split: batch_op.split)
  qed
qed simp

lemma batch_entry_fields:
  assumes "i < length ops"
  shows "ekey (batch_entries seq ops ! i) = op_key (ops ! i)" "eseq (batch_entries seq ops ! i) = seq + of_nat i"
    "answer (batch_entries seq ops ! i) = (case ops ! i of BPut k v \<Rightarrow> Inr v | BDelete k \<Rightarrow> Inl (NotFound [] []))"
  by (cases "ops ! i"; simp add: batch_entries_nth [OF assms] answer_def)+

text \<open>The sequence numbers of a batch increase, as long as they stay in their 56 bits.\<close>

lemma batch_seq:
  assumes "unat seq + n < 2 ^ 56" and "i \<le> n"
  shows "unat (seq + of_nat i) = unat seq + i" and "seq + of_nat i \<le> kMaxSequenceNumber"
proof -
  have "unat (of_nat i :: u64) = i" using assms by (intro unat_of_nat_small) simp
  then show 1: "unat (seq + of_nat i) = unat seq + i" using assms by (simp add: unat_word_ariths(1) del: unsigned_of_nat)
  then show "seq + of_nat i \<le> kMaxSequenceNumber" using assms by (simp add: seq_range)
qed

fun op_small :: "batch_op \<Rightarrow> bool" where
  "op_small (BPut k v) \<longleftrightarrow> length k + 8 < 2 ^ 32 \<and> length v < 2 ^ 32"
| "op_small (BDelete k) \<longleftrightarrow> length k + 8 < 2 ^ 32"

lemma op_small_fits: "op_small p \<Longrightarrow> op_fits p"
  by (cases p) simp_all

lemma batch_entries_fit:
  assumes "list_all op_small ops" and "unat seq + length ops < 2 ^ 56" and "e \<in> set (batch_entries seq ops)"
  shows "entry_fits e"
proof -
  from assms(3) obtain i where i: "i < length ops" "e = batch_entries seq ops ! i" by (metis in_set_conv_nth length_batch_entries)
  have "op_small (ops ! i)" using assms(1) i(1) by (simp add: list_all_length)
  then show ?thesis using batch_seq(2) [OF assms(2), of i] i by (cases "ops ! i") (simp_all add: batch_entries_nth entry_fits_def)
qed

lemma batch_entries_distinct:
  assumes "unat seq + length ops < 2 ^ 56"
  shows "distinct (map eseq (batch_entries seq ops))"
proof -
  have "eseq (batch_entries seq ops ! i) \<noteq> eseq (batch_entries seq ops ! j)" if "i < j" "j < length ops" for i j
  proof
    assume "eseq (batch_entries seq ops ! i) = eseq (batch_entries seq ops ! j)"
    then have "unat (seq + of_nat i) = unat (seq + of_nat j)" using that by (simp add: batch_entry_fields)
    then show False using batch_seq(1) [OF assms, of i] batch_seq(1) [OF assms, of j] that by simp
  qed
  then show ?thesis by (simp add: distinct_conv_nth) (metis linorder_neqE_nat)
qed

text \<open>What a lookup returns depends on the entries that the snapshot sees only.\<close>

definition one_per_seq :: "mem_entry set \<Rightarrow> bool" where
  "one_per_seq H \<longleftrightarrow> (\<forall>x\<in>H. \<forall>y\<in>H. ekey x = ekey y \<and> eseq x = eseq y \<longrightarrow> x = y)"

lemma one_per_seq_distinct: "distinct (map (\<lambda>e. (ekey e, eseq e)) es) \<Longrightarrow> one_per_seq (set es)"
  by (auto simp: one_per_seq_def distinct_map inj_on_def)

lemma Get_seen:
  assumes "holds m hs" "\<forall>e\<in>set hs. entry_fits e" "length k + 8 < 2 ^ 32" "snapshot \<le> kMaxSequenceNumber"
    and "\<exists>e\<in>set hs. seen k snapshot e"
  shows "\<exists>e\<in>set hs. seen k snapshot e \<and> (\<forall>x\<in>set hs. seen k snapshot x \<longrightarrow> eseq x \<le> eseq e) \<and>
     mem_Get BytewiseCompare k snapshot m = Some (Some (answer e))"
  using Get_newest [OF assms(1-4)] unfolding if_P [OF assms(5)] by blast

lemma Get_is:
  assumes "holds m hs" "\<forall>e\<in>set hs. entry_fits e" "length k + 8 < 2 ^ 32" "snapshot \<le> kMaxSequenceNumber"
    and "one_per_seq (set hs)" and x: "x \<in> set hs" "seen k snapshot x" "\<forall>y\<in>set hs. seen k snapshot y \<longrightarrow> eseq y \<le> eseq x"
  shows "mem_Get BytewiseCompare k snapshot m = Some (Some (answer x))"
proof -
  from x(1,2) have "\<exists>e\<in>set hs. seen k snapshot e" by blast
  from Get_seen [OF assms(1-4) this] obtain e where
    e: "e \<in> set hs" "seen k snapshot e" "\<forall>x\<in>set hs. seen k snapshot x \<longrightarrow> eseq x \<le> eseq e"
       "mem_Get BytewiseCompare k snapshot m = Some (Some (answer e))" by blast
  have "eseq e = eseq x" using e(1-3) x by (meson antisym)
  then have "e = x" using assms(5) e(1,2) x(1,2) by (auto simp: one_per_seq_def seen_def)
  with e(4) show ?thesis by simp
qed

lemma Get_same:
  assumes "holds m hs" "\<forall>e\<in>set hs. entry_fits e" "holds m' hs'" "\<forall>e\<in>set hs'. entry_fits e"
    and k: "length k + 8 < 2 ^ 32" "snapshot \<le> kMaxSequenceNumber" and "one_per_seq (set hs')"
    and eq: "\<forall>e. e \<in> set hs \<and> seen k snapshot e \<longleftrightarrow> e \<in> set hs' \<and> seen k snapshot e"
  shows "mem_Get BytewiseCompare k snapshot m' = mem_Get BytewiseCompare k snapshot m"
proof (cases "\<exists>e\<in>set hs. seen k snapshot e")
  case False
  with eq have "\<not> (\<exists>e\<in>set hs'. seen k snapshot e)" by blast
  with False Get_newest [OF assms(1,2) k] Get_newest [OF assms(3,4) k] show ?thesis by auto
next
  case True
  from Get_seen [OF assms(1,2) k this] obtain e where
    e: "e \<in> set hs" "seen k snapshot e" "\<forall>x\<in>set hs. seen k snapshot x \<longrightarrow> eseq x \<le> eseq e"
       "mem_Get BytewiseCompare k snapshot m = Some (Some (answer e))" by blast
  have "e \<in> set hs'" "\<forall>x\<in>set hs'. seen k snapshot x \<longrightarrow> eseq x \<le> eseq e" using eq e(1-3) by blast+
  from Get_is [OF assms(3,4) k assms(7) this(1) e(2) this(2)] e(4) show ?thesis by simp
qed

definition last_op :: "slice \<Rightarrow> batch_op list \<Rightarrow> batch_op option" where
  "last_op k ops = find (\<lambda>p. op_key p = k) (rev ops)"

definition op_answer :: "batch_op \<Rightarrow> status + slice" where
  "op_answer p = (case p of BPut k v \<Rightarrow> Inr v | BDelete k \<Rightarrow> Inl (NotFound [] []))"

lemma last_op_None: "last_op k ops = None \<longleftrightarrow> (\<forall>p\<in>set ops. op_key p \<noteq> k)"
  by (auto simp: last_op_def find_None_iff)

lemma last_op_Some:
  assumes "last_op k ops = Some p"
  shows "\<exists>i<length ops. p = ops ! i \<and> op_key p = k \<and> (\<forall>j<length ops. op_key (ops ! j) = k \<longrightarrow> j \<le> i)"
proof -
  let ?n = "length ops"
  from assms obtain j where j: "j < ?n" "op_key (rev ops ! j) = k" "p = rev ops ! j" "\<forall>l<j. op_key (rev ops ! l) \<noteq> k"
    by (auto simp: last_op_def find_Some_iff)
  have "l \<le> ?n - 1 - j" if "l < ?n" "op_key (ops ! l) = k" for l
  proof (rule ccontr)
    assume "\<not> l \<le> ?n - 1 - j"
    then have "?n - 1 - l < j" using that(1) by simp
    with j(4) have "op_key (rev ops ! (?n - 1 - l)) \<noteq> k" by blast
    with that show False by (simp add: rev_nth)
  qed
  with j show ?thesis by (intro exI [of _ "?n - 1 - j"]) (simp add: rev_nth)
qed

lemma InsertInto_batch:
  assumes "list_all op_small ops"
  shows "InsertInto BytewiseCompare (SetSequence seq (build ops)) m = map_option (\<lambda>m. (OK, m)) (mem_add_all (batch_entries seq ops) m)"
proof -
  have "list_all op_fits ops" using assms op_small_fits by (auto simp: list_all_iff)
  then show ?thesis
    by (cases "mem_add_all (batch_entries seq ops) m") (simp_all add: InsertInto_def build_bytes batch_fields Iterate_bytes inserter_run)
qed

lemma batch_seq_range:
  assumes "unat seq + length ops < 2 ^ 56" and "e \<in> set (batch_entries seq ops)"
  shows "unat seq \<le> unat (eseq e)" "unat (eseq e) < unat seq + length ops"
proof -
  from assms(2) obtain i where "i < length ops" "e = batch_entries seq ops ! i" by (metis in_set_conv_nth length_batch_entries)
  then show "unat seq \<le> unat (eseq e)" "unat (eseq e) < unat seq + length ops"
    using batch_seq(1) [OF assms(1), of i] by (simp_all add: batch_entry_fields)
qed

lemma batch_inserted:
  assumes es: "\<forall>e\<in>set es. entry_fits e" "distinct (map (\<lambda>e. (ekey e, eseq e)) es)" "\<forall>e\<in>set es. eseq e < seq"
    and ops: "list_all op_small ops" "unat seq + length ops < 2 ^ 56"
  shows "\<exists>m m' hs hs'. mem_add_all es new_MemTable = Some m \<and> holds m hs \<and> set hs = set es \<and>
     InsertInto BytewiseCompare (SetSequence seq (build ops)) m = Some (OK, m') \<and> holds m' hs' \<and>
     set hs' = set es \<union> set (batch_entries seq ops) \<and> one_per_seq (set hs')"
proof -
  let ?kq = "\<lambda>e. (ekey e, eseq e)" and ?bs = "batch_entries seq ops"
  have "eseq e < eseq b" if "e \<in> set es" "b \<in> set ?bs" for e b
    using es(3) that batch_seq_range(1) [OF ops(2) that(2)] by (auto simp: word_less_nat_alt)
  then have "set (map ?kq es) \<inter> set (map ?kq ?bs) = {}" by fastforce
  moreover have "distinct (map ?kq ?bs)" using batch_entries_distinct [OF ops(2)] by (auto simp: distinct_map inj_on_def)
  ultimately have d: "distinct (map ?kq (es @ ?bs))" using es(2) by simp
  from mem_add_all_holds [OF new_holds _ es(1)] es(2) obtain m hs where
    m: "mem_add_all es new_MemTable = Some m" "holds m hs" "set hs = set es" "distinct (map ?kq hs)" by auto
  have "distinct (map ?kq (hs @ ?bs))" using d m(3,4) by simp
  from mem_add_all_holds [OF m(2) _ _ this] m(3) es(1) batch_entries_fit [OF ops] obtain m' hs' where
    m': "mem_add_all ?bs m = Some m'" "holds m' hs'" "set hs' = set es \<union> set ?bs" by auto
  have "one_per_seq (set (es @ ?bs))" by (rule one_per_seq_distinct [OF d])
  with m m' InsertInto_batch [OF ops(1), of seq m] show ?thesis
    by (intro exI [of _ m] exI [of _ m'] exI [of _ hs] exI [of _ hs']) simp
qed

section \<open>Properties\<close>

text \<open>
  C35. A batch gives back the operations that were put into it. For every handler and all operations
  whose strings fit 32 bits, iterating over a batch built by \<^verbatim>\<open>Put\<close> and \<^verbatim>\<open>Delete\<close>, to which a second
  batch was appended and a sequence number was given, calls the handler with exactly the operations
  of the first batch and then of the second, in their order, and returns \<^verbatim>\<open>OK\<close>; the count is the
  number of operations modulo 2^32 and the sequence number is the one that was set. A string shorter
  than the header is reported as corruption without a call of the handler.
\<close>

theorem batch_roundtrip:
  assumes "list_all op_fits (ops1 @ ops2)"
  shows "let rep = SetSequence seq (batch_Append (build ops2) (build ops1)) in
     Iterate hput hdelete rep s = map_option (\<lambda>s. (OK, s)) (run_handler hput hdelete (ops1 @ ops2) s) \<and>
     Count rep = of_nat (length (ops1 @ ops2)) \<and> Sequence rep = seq \<and>
     (\<forall>n<kHeader. Iterate hput hdelete (take n rep) s = Some (Corruption (bytes_of ''malformed WriteBatch (too small)'') [], s))"
proof -
  have r: "SetSequence seq (batch_Append (build ops2) (build ops1)) = batch_bytes seq (ops1 @ ops2)"
    by (simp add: build_bytes append_bytes batch_fields)
  have "\<forall>n<kHeader. Iterate hput hdelete (take n rep) s = Some (Corruption (bytes_of ''malformed WriteBatch (too small)'') [], s)" for rep
    by (simp add: Iterate_def min.strict_coboundedI2)
  then show ?thesis unfolding r Let_def by (simp add: batch_fields Iterate_bytes [OF assms])
qed

theorem batch_roundtrip_witness:
  "let rep = SetSequence 7 (batch_Append (build [BDelete [99]]) (build [BPut [97] [1], BPut [98] []]))
   in Iterate (\<lambda>k v s. Some (s @ [(k, Some v)])) (\<lambda>k s. Some (s @ [(k, None)])) rep [] =
        Some (OK, [([97], Some [1]), ([98], Some []), ([99], None)]) \<and> Count rep = 3 \<and> Sequence rep = 7"
  using batch_roundtrip [of "[BPut [97] [1], BPut [98] []]" "[BDelete [99]]" 7
      "\<lambda>k v s. Some (s @ [(k, Some v)])" "\<lambda>k s. Some (s @ [(k, None)])" "[]"]
  by (simp add: Let_def)

text \<open>
  C31. A batch written to the table of recent writes becomes visible as a whole and only to later
  snapshots. Let the table hold entries older than the batch's sequence number. Inserting the batch
  ends with \<^verbatim>\<open>OK\<close>. A lookup at an older snapshot returns what it returned before; a lookup at a
  snapshot that includes the batch returns the value of the last operation of the batch on the key,
  \<^verbatim>\<open>NotFound\<close> if that is a deletion, and what it returned before if the batch does not touch the key.
\<close>

theorem batch_then_get:
  assumes es: "\<forall>e\<in>set es. entry_fits e" "distinct (map (\<lambda>e. (ekey e, eseq e)) es)" "\<forall>e\<in>set es. eseq e < seq"
    and ops: "list_all op_small ops" "unat seq + length ops < 2 ^ 56"
    and k: "length k + 8 < 2 ^ 32" "snapshot \<le> kMaxSequenceNumber"
  shows "\<exists>m m'. mem_add_all es new_MemTable = Some m \<and>
     InsertInto BytewiseCompare (SetSequence seq (build ops)) m = Some (OK, m') \<and>
     (snapshot < seq \<longrightarrow> mem_Get BytewiseCompare k snapshot m' = mem_Get BytewiseCompare k snapshot m) \<and>
     (unat seq + length ops \<le> unat snapshot + 1 \<longrightarrow> mem_Get BytewiseCompare k snapshot m' =
        (case last_op k ops of Some p \<Rightarrow> Some (Some (op_answer p)) | None \<Rightarrow> mem_Get BytewiseCompare k snapshot m))"
proof -
  let ?bs = "batch_entries seq ops"
  from batch_inserted [OF es ops] obtain m m' hs hs' where
    m: "mem_add_all es new_MemTable = Some m" "InsertInto BytewiseCompare (SetSequence seq (build ops)) m = Some (OK, m')"
    and h: "holds m hs" "set hs = set es" "holds m' hs'" "set hs' = set es \<union> set ?bs" "one_per_seq (set hs')" by blast
  have f: "\<forall>e\<in>set hs. entry_fits e" "\<forall>e\<in>set hs'. entry_fits e" using h(2,4) es(1) batch_entries_fit [OF ops] by auto
  note same = Get_same [OF h(1) f(1) h(3) f(2) k h(5)]
  have old: "mem_Get BytewiseCompare k snapshot m' = mem_Get BytewiseCompare k snapshot m" if "\<forall>b\<in>set ?bs. \<not> seen k snapshot b"
    by (rule same) (use that h(2,4) in auto)
  have 1: "\<forall>b\<in>set ?bs. \<not> seen k snapshot b" if "snapshot < seq"
    using that batch_seq_range(1) [OF ops(2)] by (fastforce simp: seen_def word_less_nat_alt word_le_nat_alt)
  have 2: "\<forall>b\<in>set ?bs. \<not> seen k snapshot b" if "last_op k ops = None"
    using that by (auto simp: last_op_None list_all_length in_set_conv_nth batch_entry_fields seen_def Ball_def)
  have 3: "mem_Get BytewiseCompare k snapshot m' = Some (Some (op_answer p))"
    if s: "unat seq + length ops \<le> unat snapshot + 1" and p: "last_op k ops = Some p" for p
  proof -
    from last_op_Some [OF p] obtain i where i: "i < length ops" "p = ops ! i" "op_key p = k" "\<forall>j<length ops. op_key (ops ! j) = k \<longrightarrow> j \<le> i" by blast
    have x: "?bs ! i \<in> set hs'" "seen k snapshot (?bs ! i)"
      using i s batch_seq(1) [OF ops(2), of i] h(4) by (auto simp: seen_def batch_entry_fields word_le_nat_alt)
    have "eseq y \<le> eseq (?bs ! i)" if y: "y \<in> set hs'" "seen k snapshot y" for y
    proof (cases "y \<in> set es")
      case True
      then have "unat (eseq y) < unat seq" using es(3) by (simp add: word_less_nat_alt)
      then show ?thesis using i(1) batch_seq(1) [OF ops(2), of i] by (simp add: batch_entry_fields word_le_nat_alt)
    next
      case False
      with y(1) h(4) obtain j where j: "j < length ops" "y = ?bs ! j" by (auto simp: in_set_conv_nth)
      then have "j \<le> i" using y(2) i(4) by (simp add: seen_def batch_entry_fields)
      then show ?thesis using i(1) j batch_seq(1) [OF ops(2), of i] batch_seq(1) [OF ops(2), of j] by (simp add: batch_entry_fields word_le_nat_alt)
    qed
    with Get_is [OF h(3) f(2) k h(5) x] i(1,2) show ?thesis by (simp add: batch_entry_fields op_answer_def)
  qed
  from m old 1 2 3 show ?thesis by (intro exI [of _ m] exI [of _ m']) (auto split: option.split)
qed

theorem batch_then_get_witness:
  "let es = [\<lparr> eseq = 5, etype = kTypeValue, ekey = [97], evalue = [1] \<rparr>]; ops = [BPut [97] [2], BPut [98] [3], BDelete [97]]
   in \<exists>m m'. mem_add_all es new_MemTable = Some m \<and>
     InsertInto BytewiseCompare (SetSequence 6 (build ops)) m = Some (OK, m') \<and>
     mem_Get BytewiseCompare [97] 8 m' = Some (Some (Inl (NotFound [] [])))"
proof -
  let ?es = "[\<lparr> eseq = 5, etype = kTypeValue, ekey = [97], evalue = [1] \<rparr>]"
  have "\<forall>e\<in>set ?es. entry_fits e" "distinct (map (\<lambda>e. (ekey e, eseq e)) ?es)" "\<forall>e\<in>set ?es. eseq e < 6" "(8 :: u64) \<le> kMaxSequenceNumber"
    by (simp_all add: entry_fits_def kMaxSequenceNumber_def)
  from batch_then_get [OF this(1-3) _ _ _ this(4), of "[BPut [97] [2], BPut [98] [3], BDelete [97]]" "[97]"] show ?thesis
    by (simp add: last_op_def op_answer_def)
qed

end
