(* ===== verification/Block.thy ===== *)
theory Block
  imports Keys Status "HOL-Library.Monad_Syntax"
begin

text \<open>
  Blocks of sorted entries, \<^verbatim>\<open>leveldb/table/block_builder.cc\<close> and \<^verbatim>\<open>leveldb/table/block.cc\<close>. The builder
  stores of each key only what differs from the key before it, and the full key at every restart
  point; the iterator decodes forwards, finds a restart point by binary search, and goes backwards
  by starting again at the restart point before. The theory shows that the iterator of a built
  block is a cursor over the entries that were added.
\<close>

lemma unat_Suc_less: "i < n \<Longrightarrow> unat (i + 1) = Suc (unat i)" for i n :: "'a::len word"
proof -
  assume "i < n"
  have "1 + i \<noteq> 0"
  proof
    assume "1 + i = 0"
    then have "unat i = unat (- 1 :: 'a word)" by (metis add.commute eq_neg_iff_add_eq_0)
    with \<open>i < n\<close> word_n1_ge [of n] show False by (simp add: word_less_nat_alt word_le_nat_alt)
  qed
  then show ?thesis using unatSuc [of i] by (simp add: add.commute)
qed

lemma restart_measure: "r + 1 < n \<Longrightarrow> unat n - unat (2 + r) < unat n - unat (r + 1)" for r n :: "'a::len word"
  using unat_Suc_less [of "r + 1" n] by (simp add: word_less_nat_alt ac_simps)

section \<open>The builder\<close>

record BlockBuilder =
  buffer :: "byte list"
  restarts :: "u32 list"
  counter :: int
  bfinished :: bool
  last_key :: slice

definition new_BlockBuilder :: BlockBuilder where
  "new_BlockBuilder = \<lparr> buffer = [], restarts = [0], counter = 0, bfinished = False, last_key = [] \<rparr>"

definition bb_Reset :: "BlockBuilder \<Rightarrow> BlockBuilder" where
  "bb_Reset b = b\<lparr> buffer := [], restarts := [0], counter := 0, bfinished := False, last_key := [] \<rparr>"

definition CurrentSizeEstimate :: "BlockBuilder \<Rightarrow> nat" where
  "CurrentSizeEstimate b = length (buffer b) + length (restarts b) * 4 + 4"

definition bb_Finish :: "BlockBuilder \<Rightarrow> slice \<times> BlockBuilder" where
  "bb_Finish b =
     (let buf = fold (\<lambda>r buf. PutFixed32 buf r) (restarts b) (buffer b);
          buf = PutFixed32 buf (of_nat (length (restarts b)))
      in (buf, b\<lparr> buffer := buf, bfinished := True \<rparr>))"

text \<open>The loop that counts shared bytes is the one of the bytewise comparator.\<close>

definition bb_Add :: "int \<Rightarrow> slice \<Rightarrow> slice \<Rightarrow> BlockBuilder \<Rightarrow> BlockBuilder" where
  "bb_Add interval key value b =
     (let (shared, b) =
            (if counter b < interval then (diff_index (last_key b) key, b)
             else (0, b\<lparr> restarts := restarts b @ [of_nat (length (buffer b))], counter := 0 \<rparr>));
          buf = PutVarint32 (buffer b) (of_nat shared);
          buf = PutVarint32 buf (of_nat (length key - shared));
          buf = PutVarint32 buf (of_nat (length value))
      in b\<lparr> buffer := buf @ drop shared key @ value, last_key := take shared (last_key b) @ drop shared key,
            counter := counter b + 1 \<rparr>)"

section \<open>The block\<close>

record block =
  bdata :: "byte list"
  bsize :: nat
  restart_offset :: u32

definition NumRestarts :: "byte list \<Rightarrow> nat \<Rightarrow> u32" where
  "NumRestarts data sz = DecodeFixed32 (drop (sz - 4) data)"

definition new_Block :: "slice \<Rightarrow> block" where
  "new_Block contents =
     (let sz = length contents in
      if sz < 4 then \<lparr> bdata = contents, bsize = 0, restart_offset = 0 \<rparr>
      else if (sz - 4) div 4 < unat (NumRestarts contents sz) then \<lparr> bdata = contents, bsize = 0, restart_offset = 0 \<rparr>
      else \<lparr> bdata = contents, bsize = sz, restart_offset = of_nat (sz - unat (1 + NumRestarts contents sz) * 4) \<rparr>)"

text \<open>
  Decoding the head of an entry between \<^term>\<open>p\<close> and \<^term>\<open>limit\<close>. The result holds the three numbers
  and the place of the key bytes. The sum of two lengths is one of 32-bit words.
\<close>

definition DecodeEntry :: "byte list \<Rightarrow> nat \<Rightarrow> nat \<Rightarrow> (u32 \<times> u32 \<times> u32 \<times> nat) option" where
  "DecodeEntry data p limit =
     (if limit < p + 3 then None
      else do {
        let buf = drop p (take limit data);
        let shared = (ucast (buf ! 0) :: u32);
        let non_shared = (ucast (buf ! 1) :: u32);
        let value_length = (ucast (buf ! 2) :: u32);
        (shared, non_shared, value_length, rest) \<leftarrow>
          (if shared OR non_shared OR value_length < 128 then Some (shared, non_shared, value_length, drop 3 buf)
           else do {
             (shared, buf) \<leftarrow> GetVarint32Ptr buf;
             (non_shared, buf) \<leftarrow> GetVarint32Ptr buf;
             (value_length, buf) \<leftarrow> GetVarint32Ptr buf;
             Some (shared, non_shared, value_length, buf) });
        let p = limit - length rest;
        if of_nat (limit - p) < non_shared + value_length then None
        else Some (shared, non_shared, value_length, p) })"

section \<open>The iterator\<close>

text \<open>The value is a pair of offset and length, and \<^term>\<open>None\<close> when it does not point into the block.\<close>

record block_iter =
  it_data :: "byte list"
  it_restarts :: u32
  it_num_restarts :: u32
  current :: u32
  restart_index :: u32
  it_key :: slice
  it_value :: "(nat \<times> nat) option"
  it_status :: status

definition new_Iter :: "byte list \<Rightarrow> u32 \<Rightarrow> u32 \<Rightarrow> block_iter" where
  "new_Iter data rs num =
     \<lparr> it_data = data, it_restarts = rs, it_num_restarts = num, current = rs, restart_index = num,
       it_key = [], it_value = None, it_status = OK \<rparr>"

text \<open>An error iterator or an empty iterator is represented by its status.\<close>

definition NewIterator :: "block \<Rightarrow> status + block_iter" where
  "NewIterator b =
     (if bsize b < 4 then Inl (Corruption (bytes_of ''bad block contents'') [])
      else (let num = NumRestarts (bdata b) (bsize b)
            in if num = 0 then Inl OK else Inr (new_Iter (bdata b) (restart_offset b) num)))"

definition NextEntryOffset :: "block_iter \<Rightarrow> u32 option" where
  "NextEntryOffset it = map_option (\<lambda>(off, len). of_nat (off + len)) (it_value it)"

definition GetRestartPoint :: "block_iter \<Rightarrow> u32 \<Rightarrow> u32" where
  "GetRestartPoint it index = DecodeFixed32 (drop (unat (it_restarts it) + unat index * 4) (it_data it))"

definition SeekToRestartPoint :: "u32 \<Rightarrow> block_iter \<Rightarrow> block_iter" where
  "SeekToRestartPoint index it =
     it\<lparr> it_key := [], restart_index := index, it_value := Some (unat (GetRestartPoint it index), 0) \<rparr>"

definition blk_Valid :: "block_iter \<Rightarrow> bool" where
  "blk_Valid it \<longleftrightarrow> current it < it_restarts it"

text \<open>Reading a value outside of the block is \<^term>\<open>None\<close>.\<close>

definition blk_value :: "block_iter \<Rightarrow> slice option" where
  "blk_value it = (case it_value it of None \<Rightarrow> None
     | Some (off, len) \<Rightarrow> if off + len \<le> length (it_data it) then Some (take len (drop off (it_data it))) else None)"

definition CorruptionError :: "block_iter \<Rightarrow> block_iter" where
  "CorruptionError it = it\<lparr> current := it_restarts it, restart_index := it_num_restarts it,
     it_status := Corruption (bytes_of ''bad entry in block'') [], it_key := [], it_value := None \<rparr>"

function advance_restart :: "block_iter \<Rightarrow> block_iter" where
  "advance_restart it =
     (if restart_index it + 1 < it_num_restarts it \<and> GetRestartPoint it (restart_index it + 1) < current it
      then advance_restart (it\<lparr> restart_index := restart_index it + 1 \<rparr>) else it)"
  by pat_completeness auto
termination
  by (relation "measure (\<lambda>it. unat (it_num_restarts it) - unat (restart_index it + 1))")
    (auto simp: restart_measure)

declare advance_restart.simps [simp del]

text \<open>
  Decoding the next entry. Copying key bytes from beyond the end of the block, or going on without a
  value, is \<^term>\<open>None\<close>.
\<close>

definition ParseNextKey :: "block_iter \<Rightarrow> (bool \<times> block_iter) option" where
  "ParseNextKey it = do {
     next \<leftarrow> NextEntryOffset it;
     let it = it\<lparr> current := next \<rparr>;
     let p = unat next;
     let limit = unat (it_restarts it);
     if limit \<le> p then Some (False, it\<lparr> current := it_restarts it, restart_index := it_num_restarts it \<rparr>)
     else (case DecodeEntry (it_data it) p limit of
         None \<Rightarrow> Some (False, CorruptionError it)
       | Some (shared, non_shared, value_length, p) \<Rightarrow>
           if length (it_key it) < unat shared then Some (False, CorruptionError it)
           else if length (it_data it) < p + unat non_shared then None
           else Some (True, advance_restart (it\<lparr>
             it_key := take (unat shared) (it_key it) @ take (unat non_shared) (drop p (it_data it)),
             it_value := Some (p + unat non_shared, unat value_length) \<rparr>))) }"

text \<open>
  The loops of \<^verbatim>\<open>Prev\<close>, \<^verbatim>\<open>Seek\<close> and \<^verbatim>\<open>SeekToLast\<close> decode entries as long as a condition holds; they
  may not end on a corrupted block.
\<close>

partial_function (option) parse_while :: "(block_iter \<Rightarrow> bool option) \<Rightarrow> block_iter \<Rightarrow> block_iter option" where
  [code]: "parse_while go it = do {
     (found, it) \<leftarrow> ParseNextKey it;
     if found then do { more \<leftarrow> go it; if more then parse_while go it else Some it } else Some it }"

definition blk_Next :: "block_iter \<Rightarrow> block_iter option" where
  "blk_Next it = map_option snd (ParseNextKey it)"

function prev_restart :: "u32 \<Rightarrow> block_iter \<Rightarrow> bool \<times> block_iter" where
  "prev_restart original it =
     (if original \<le> GetRestartPoint it (restart_index it)
      then (if restart_index it = 0 then (False, it\<lparr> current := it_restarts it, restart_index := it_num_restarts it \<rparr>)
            else prev_restart original (it\<lparr> restart_index := restart_index it - 1 \<rparr>))
      else (True, it))"
  by pat_completeness auto
termination
  by (relation "measure (\<lambda>(original, it). unat (restart_index it))") (auto simp: unat_gt_0 measure_unat)

declare prev_restart.simps [simp del]

definition before_offset :: "u32 \<Rightarrow> block_iter \<Rightarrow> bool option" where
  "before_offset limit it = map_option (\<lambda>next. next < limit) (NextEntryOffset it)"

definition blk_Prev :: "block_iter \<Rightarrow> block_iter option" where
  "blk_Prev it =
     (let original = current it in
      case prev_restart original it of
        (False, it) \<Rightarrow> Some it
      | (True, it) \<Rightarrow> parse_while (before_offset original) (SeekToRestartPoint (restart_index it) it))"

definition blk_SeekToFirst :: "block_iter \<Rightarrow> block_iter option" where
  "blk_SeekToFirst it = map_option snd (ParseNextKey (SeekToRestartPoint 0 it))"

definition blk_SeekToLast :: "block_iter \<Rightarrow> block_iter option" where
  "blk_SeekToLast it = parse_while (before_offset (it_restarts it)) (SeekToRestartPoint (it_num_restarts it - 1) it)"

text \<open>
  The binary search over the restart points. The inner option is \<^term>\<open>None\<close> if the search finds a
  corrupted entry; the outer one if it does not end or reads beyond the block.
\<close>

partial_function (option) search_restarts ::
  "(slice \<Rightarrow> slice \<Rightarrow> int) \<Rightarrow> slice \<Rightarrow> block_iter \<Rightarrow> u32 \<Rightarrow> u32 \<Rightarrow> u32 option option" where
  [code]: "search_restarts cmp target it left right =
     (if left < right
      then (let mid = (left + right + 1) div 2 in
            case DecodeEntry (it_data it) (unat (GetRestartPoint it mid)) (unat (it_restarts it)) of
              None \<Rightarrow> Some None
            | Some (shared, non_shared, value_length, p) \<Rightarrow>
                if shared \<noteq> 0 then Some None
                else if length (it_data it) < p + unat non_shared then None
                else if cmp (take (unat non_shared) (drop p (it_data it))) target < 0
                     then search_restarts cmp target it mid right
                     else search_restarts cmp target it left (mid - 1))
      else Some (Some left))"

definition blk_Seek :: "(slice \<Rightarrow> slice \<Rightarrow> int) \<Rightarrow> slice \<Rightarrow> block_iter \<Rightarrow> block_iter option" where
  "blk_Seek cmp target it =
     (let c = (if blk_Valid it then cmp (it_key it) target else 0);
          left = (if c < 0 then restart_index it else 0);
          right = (if 0 < c then restart_index it else it_num_restarts it - 1)
      in if blk_Valid it \<and> c = 0 then Some it
         else do {
           found \<leftarrow> search_restarts cmp target it left right;
           case found of
             None \<Rightarrow> Some (CorruptionError it)
           | Some left \<Rightarrow>
               parse_while (\<lambda>it. Some (cmp (it_key it) target < 0))
                 (if left = restart_index it \<and> c < 0 then it else SeekToRestartPoint left it) })"

section \<open>What the builder writes\<close>

text \<open>
  The layout of a block: the entries, how many bytes each key shares with the one before it, and
  the entries that are restart points.
\<close>

record layout =
  entries :: "(slice \<times> slice) list"
  shares :: "nat list"
  points :: "nat list"

definition nkey :: "layout \<Rightarrow> nat \<Rightarrow> slice" where
  "nkey B i = fst (entries B ! i)"

definition nval :: "layout \<Rightarrow> nat \<Rightarrow> slice" where
  "nval B i = snd (entries B ! i)"

definition entry_code :: "nat \<Rightarrow> slice \<Rightarrow> slice \<Rightarrow> byte list" where
  "entry_code shared key value =
     EncodeVarint32 (of_nat shared) @ EncodeVarint32 (of_nat (length key - shared)) @ EncodeVarint32 (of_nat (length value)) @
     drop shared key @ value"

definition ncode :: "layout \<Rightarrow> nat \<Rightarrow> byte list" where
  "ncode B i = entry_code (shares B ! i) (nkey B i) (nval B i)"

definition off :: "layout \<Rightarrow> nat \<Rightarrow> nat" where
  "off B i = sum_list (map (\<lambda>j. length (ncode B j)) [0..<i])"

definition body :: "layout \<Rightarrow> byte list" where
  "body B = concat (map (ncode B) [0..<length (entries B)])"

definition layout_bytes :: "layout \<Rightarrow> byte list" where
  "layout_bytes B = body B @ concat (map (\<lambda>r. EncodeFixed32 (of_nat (off B r))) (points B)) @ EncodeFixed32 (of_nat (length (points B)))"

definition shared_ok :: "layout \<Rightarrow> nat \<Rightarrow> bool" where
  "shared_ok B i \<longleftrightarrow> shares B ! i \<le> length (nkey B i) \<and>
     (if i = 0 then shares B ! i = 0
      else shares B ! i \<le> length (nkey B (i - 1)) \<and> take (shares B ! i) (nkey B (i - 1)) = take (shares B ! i) (nkey B i))"

definition shape :: "layout \<Rightarrow> bool" where
  "shape B \<longleftrightarrow> length (shares B) = length (entries B) \<and> (\<forall>i<length (entries B). shared_ok B i) \<and>
     points B \<noteq> [] \<and> points B ! 0 = 0 \<and> sorted_wrt (<) (points B) \<and>
     (\<forall>r\<in>set (points B). (r = 0 \<or> r < length (entries B)) \<and> (r < length (entries B) \<longrightarrow> shares B ! r = 0))"

definition laid :: "layout \<Rightarrow> bool" where
  "laid B \<longleftrightarrow> shape B \<and> length (layout_bytes B) < 2 ^ 32"

lemma entry_code_length: "3 + (length key - shared) + length value \<le> length (entry_code shared key value)"
proof -
  have "1 \<le> length (EncodeVarint32 v)" for v using EncodeVarint32_nonempty [of v] by (cases "EncodeVarint32 v") simp_all
  from this [of "of_nat shared"] this [of "of_nat (length key - shared)"] this [of "of_nat (length value)"]
  show ?thesis by (simp add: entry_code_def)
qed

lemma off_0 [simp]: "off B 0 = 0"
  by (simp add: off_def)

lemma off_Suc: "off B (Suc i) = off B i + length (ncode B i)"
  by (simp add: off_def)

lemma off_less: "i < j \<Longrightarrow> off B i + 3 \<le> off B j"
proof (induction j)
  case (Suc j)
  have "3 \<le> length (ncode B j)" using entry_code_length [of "nkey B j" "shares B ! j" "nval B j"] by (simp add: ncode_def)
  with Suc show ?case by (cases "i = j") (simp_all add: off_Suc)
qed simp

lemma off_less_iff [simp]: "off B i < off B j \<longleftrightarrow> i < j"
  using off_less [of i j B] off_less [of j i B] by (cases i j rule: linorder_cases) simp_all

lemma off_le_iff [simp]: "off B i \<le> off B j \<longleftrightarrow> i \<le> j"
  by (simp flip: not_less)

lemma off_body: "off B (length (entries B)) = length (body B)"
  by (simp add: off_def body_def length_concat comp_def)

lemma drop_body:
  assumes "i < length (entries B)"
  shows "\<exists>rest. drop (off B i) (body B) = ncode B i @ rest \<and> length rest = length (body B) - off B (Suc i)"
proof -
  have "[0..<length (entries B)] = [0..<i] @ i # [Suc i..<length (entries B)]"
    using assms by (metis upt_add_eq_append upt_conv_Cons le_add_diff_inverse less_imp_le zero_le)
  then have b: "body B = concat (map (ncode B) [0..<i]) @ ncode B i @ concat (map (ncode B) [Suc i..<length (entries B)])"
    by (simp add: body_def)
  have "off B i = length (concat (map (ncode B) [0..<i]))" by (simp add: off_def length_concat comp_def)
  with b show ?thesis by (simp add: off_Suc)
qed

section \<open>Decoding an entry\<close>

lemma or_less_128: "x OR y OR z < 128 \<longleftrightarrow> x < 128 \<and> y < 128 \<and> z < 128" for x y z :: u32
proof -
  have "w < 128 \<longleftrightarrow> drop_bit 7 w = 0" for w :: u32
    unfolding word_less_nat_alt unat_eq_0 [symmetric] unat_drop_bit by (simp add: div_eq_0_iff)
  then show ?thesis by (simp add: or_eq_0_iff)
qed

lemma unat_ucast_byte: "unat (ucast (b :: byte) :: u32) = unat b"
proof -
  have "unat b < 2 ^ LENGTH(8)" by (rule unsigned_less)
  then have "unat b < 2 ^ 32" by simp
  then show ?thesis by (simp add: unsigned_ucast_eq take_bit_nat_eq_self)
qed

lemma varint32_first:
  "if v < 128 then EncodeVarint32 v = [ucast v] \<and> (ucast (ucast v :: byte) :: u32) = v
   else \<exists>b bs. EncodeVarint32 v = b # bs \<and> \<not> (ucast b :: u32) < 128"
proof (cases "v < 128")
  case True
  then have "unat v < 128" by (simp add: word_less_nat_alt)
  then have "(ucast (ucast v :: byte) :: u32) = v" by (simp only: take_bit_first_byte word_unat_eq_iff unat_take_bit) simp
  with True show ?thesis by (simp add: EncodeVarint32_def word_less_nat_alt)
next
  case False
  then have "128 \<le> unat v" by (simp add: word_less_nat_alt)
  then have "EncodeVarint32 v = of_nat (unat v mod 128 + 128) # varint_bytes (unat v div 128)"
    by (simp add: EncodeVarint32_bytes varint_bytes_Cons)
  moreover have "128 \<le> unat (of_nat (unat v mod 128 + 128) :: byte)"
  proof -
    have "unat v mod 128 + 128 < 2 ^ LENGTH(8)" by simp
    from unat_of_nat_small [OF this] show ?thesis by simp
  qed
  then have "\<not> (ucast (of_nat (unat v mod 128 + 128) :: byte) :: u32) < 128"
    by (simp only: word_less_nat_alt unat_ucast_byte) simp
  ultimately show ?thesis using False by auto
qed

lemma DecodeEntry_code:
  assumes buf: "drop p (take limit data) = EncodeVarint32 a @ EncodeVarint32 b @ EncodeVarint32 c @ rest"
    and len: "limit \<le> length data" "unat b + unat c \<le> length rest" "length rest < 2 ^ 32"
  shows "DecodeEntry data p limit = Some (a, b, c, limit - length rest)"
proof -
  let ?buf = "EncodeVarint32 a @ EncodeVarint32 b @ EncodeVarint32 c @ rest"
  have l: "length rest \<le> limit" "\<not> limit < p + 3"
  proof -
    have "1 \<le> length (EncodeVarint32 v)" for v using EncodeVarint32_nonempty [of v] by (cases "EncodeVarint32 v") simp_all
    from this [of a] this [of b] this [of c] have "3 + length rest \<le> length ?buf" by simp
    also have "length ?buf = limit - p" using len(1) by (simp flip: buf)
    finally show "length rest \<le> limit" "\<not> limit < p + 3" by linarith+
  qed
  have slow: "GetVarint32Ptr (EncodeVarint32 v @ r) = Some (v, r)" for v r
    using GetVarint32_EncodeVarint32 [of v r] by (simp add: GetVarint32_def)
  have heads: "(if ucast (?buf ! 0) OR ucast (?buf ! 1) OR ucast (?buf ! 2) < (128 :: u32)
      then Some (ucast (?buf ! 0), ucast (?buf ! 1), ucast (?buf ! 2), drop 3 ?buf)
      else Some (a, b, c, rest)) = Some (a, b, c, rest)"
    using varint32_first [of a] varint32_first [of b] varint32_first [of c]
    by (auto simp: or_less_128 split: if_splits)
  have "unat (of_nat (length rest) :: u32) = length rest" using len(3) by (intro unat_of_nat_small) simp
  moreover have "unat (b + c) = unat b + unat c" using len(2,3) by (simp add: unat_word_ariths(1))
  ultimately have "\<not> (of_nat (length rest) :: u32) < b + c" using len(2) by (simp add: word_less_nat_alt del: unsigned_of_nat)
  with heads l(2) show ?thesis
    unfolding DecodeEntry_def buf Let_def slow by (simp only: slow Option.bind.simps prod.case if_False diff_diff_cancel [OF l(1)])
qed

section \<open>The iterator of a laid-out block\<close>

lemma drop_words:
  "r < length xs \<Longrightarrow> (\<And>x. length (f x) = 4) \<Longrightarrow> \<exists>t. drop (r * 4) (concat (map f xs) @ rest) = f (xs ! r) @ t"
proof (induction xs arbitrary: r)
  case (Cons x xs)
  show ?case
  proof (cases r)
    case 0
    then show ?thesis by simp
  next
    case (Suc q)
    with Cons.IH [of q] Cons.prems show ?thesis by simp
  qed
qed simp

lemma words_length [simp]: "length (concat (map (\<lambda>r. EncodeFixed32 (f r)) rs)) = length rs * 4"
  by (induction rs) simp_all

lemma body_small: "laid B \<Longrightarrow> length (body B) < 2 ^ 32" "laid B \<Longrightarrow> length (points B) < 2 ^ 30"
  by (simp_all add: laid_def layout_bytes_def)

lemma off_bound: "i \<le> length (entries B) \<Longrightarrow> off B i \<le> length (body B)"
  by (simp flip: off_body)

lemma unat_off: "laid B \<Longrightarrow> i \<le> length (entries B) \<Longrightarrow> unat (of_nat (off B i) :: u32) = off B i"
  using off_bound [of i B] body_small(1) [of B] by (intro unat_of_nat_small) simp

lemma point_range:
  assumes "laid B" and "r < length (points B)"
  shows "points B ! r \<le> length (entries B)" "points B ! r < length (entries B) \<Longrightarrow> shares B ! (points B ! r) = 0"
proof -
  have p: "points B ! r \<in> set (points B)" using assms(2) by simp
  then have "points B ! r = 0 \<or> points B ! r < length (entries B)" using assms(1) unfolding laid_def shape_def by blast
  then show "points B ! r \<le> length (entries B)" by auto
  show "points B ! r < length (entries B) \<Longrightarrow> shares B ! (points B ! r) = 0" using p assms(1) unfolding laid_def shape_def by blast
qed

lemma layout_restart:
  assumes "r < length (points B)"
  shows "DecodeFixed32 (drop (length (body B) + r * 4) (layout_bytes B)) = of_nat (off B (points B ! r))"
proof -
  from drop_words [OF assms, of "\<lambda>r. EncodeFixed32 (of_nat (off B r))"] obtain t where
    "drop (r * 4) (concat (map (\<lambda>r. EncodeFixed32 (of_nat (off B r))) (points B)) @ EncodeFixed32 (of_nat (length (points B)))) =
       EncodeFixed32 (of_nat (off B (points B ! r))) @ t" by auto
  then show ?thesis by (simp add: layout_bytes_def drop_append [of _ "body B"])
qed

definition klen :: "layout \<Rightarrow> nat \<Rightarrow> nat" where
  "klen B i = length (nkey B i) - shares B ! i"

lemma ncode_length: "3 + klen B i + length (nval B i) \<le> length (ncode B i)"
  unfolding klen_def ncode_def by (rule entry_code_length)

lemma small_parts:
  assumes "laid B" and "i < length (entries B)"
  shows "length (nkey B i) < 2 ^ 32 + shares B ! i" "klen B i < 2 ^ 32" "length (nval B i) < 2 ^ 32"
proof -
  have "off B (Suc i) \<le> length (body B)" using assms(2) by (intro off_bound) simp
  then have "3 + klen B i + length (nval B i) < 2 ^ 32" using ncode_length [of B i] body_small(1) [OF assms(1)] by (simp add: off_Suc)
  then show "length (nkey B i) < 2 ^ 32 + shares B ! i" "klen B i < 2 ^ 32" "length (nval B i) < 2 ^ 32" by (simp_all add: klen_def)
qed

lemma layout_entry:
  assumes "laid B" and "i < length (entries B)"
  shows "\<exists>rest. DecodeEntry (layout_bytes B) (off B i) (length (body B)) =
       Some (of_nat (shares B ! i), of_nat (klen B i), of_nat (length (nval B i)), off B (Suc i) - klen B i - length (nval B i)) \<and>
     drop (off B (Suc i) - klen B i - length (nval B i)) (layout_bytes B) = drop (shares B ! i) (nkey B i) @ nval B i @ rest"
proof -
  from drop_body [OF assms(2)] obtain rest where r: "drop (off B i) (body B) = ncode B i @ rest" "length rest = length (body B) - off B (Suc i)" by blast
  let ?rest = "drop (shares B ! i) (nkey B i) @ nval B i @ rest"
  have le: "off B (Suc i) \<le> length (body B)" using assms(2) by (intro off_bound) simp
  have c: "3 + klen B i + length (nval B i) \<le> off B (Suc i)" using ncode_length [of B i] by (simp add: off_Suc)
  have p: "length (body B) - length ?rest = off B (Suc i) - klen B i - length (nval B i)"
    using le c r(2) by (simp add: klen_def)
  have d: "drop (off B i) (take (length (body B)) (layout_bytes B)) =
      EncodeVarint32 (of_nat (shares B ! i)) @ EncodeVarint32 (of_nat (klen B i)) @ EncodeVarint32 (of_nat (length (nval B i))) @ ?rest"
    using r(1) by (simp add: layout_bytes_def ncode_def entry_code_def klen_def)
  have "unat (of_nat (klen B i) :: u32) = klen B i" "unat (of_nat (length (nval B i)) :: u32) = length (nval B i)"
    using small_parts [OF assms] by (simp_all add: unat_of_nat_small del: unsigned_of_nat)
  then have "unat (of_nat (klen B i) :: u32) + unat (of_nat (length (nval B i)) :: u32) \<le> length ?rest"
    by (simp add: klen_def del: unsigned_of_nat)
  moreover have "length ?rest < 2 ^ 32" using p le c r(2) body_small(1) [OF assms(1)] by (simp add: klen_def)
  ultimately have dec: "DecodeEntry (layout_bytes B) (off B i) (length (body B)) =
      Some (of_nat (shares B ! i), of_nat (klen B i), of_nat (length (nval B i)), length (body B) - length ?rest)"
    by (intro DecodeEntry_code [OF d]) (simp_all add: layout_bytes_def)
  let ?h = "EncodeVarint32 (of_nat (shares B ! i)) @ EncodeVarint32 (of_nat (klen B i)) @ EncodeVarint32 (of_nat (length (nval B i)))"
  have "length (body B) - length ?rest = off B i + length ?h"
    using p c by (simp add: off_Suc ncode_def entry_code_def klen_def)
  moreover obtain t where "drop (off B i) (layout_bytes B) = ?h @ ?rest @ t"
    using r(1) off_bound [OF less_imp_le [OF assms(2)]] by (simp add: layout_bytes_def ncode_def entry_code_def klen_def)
  then have "drop (off B i + length ?h) (layout_bytes B) = ?rest @ t" by (simp only: drop_drop [symmetric] add.commute [of "off B i"]) simp
  ultimately have "drop (length (body B) - length ?rest) (layout_bytes B) = drop (shares B ! i) (nkey B i) @ nval B i @ rest @ t" by simp
  with dec show ?thesis unfolding p by blast
qed

text \<open>
  The iterator stands on a block, is about to decode entry \<^term>\<open>i\<close>, stands at entry \<^term>\<open>i\<close>, or is
  beyond the end.
\<close>

definition on :: "layout \<Rightarrow> block_iter \<Rightarrow> bool" where
  "on B it \<longleftrightarrow> laid B \<and> it_data it = layout_bytes B \<and> it_restarts it = of_nat (length (body B)) \<and>
     it_num_restarts it = of_nat (length (points B)) \<and> it_status it = OK"

definition ready :: "layout \<Rightarrow> nat \<Rightarrow> block_iter \<Rightarrow> bool" where
  "ready B i it \<longleftrightarrow> on B it \<and> i \<le> length (entries B) \<and> (\<exists>o' l. it_value it = Some (o', l) \<and> o' + l = off B i) \<and>
     (\<exists>r<length (points B). restart_index it = of_nat r \<and> points B ! r \<le> i) \<and>
     (i < length (entries B) \<longrightarrow> shares B ! i \<le> length (it_key it) \<and> take (shares B ! i) (it_key it) = take (shares B ! i) (nkey B i))"

definition in_region :: "layout \<Rightarrow> nat \<Rightarrow> nat \<Rightarrow> bool" where
  "in_region B r i \<longleftrightarrow> r < length (points B) \<and> points B ! r \<le> i \<and> (r + 1 < length (points B) \<longrightarrow> i \<le> points B ! (r + 1))"

definition at :: "layout \<Rightarrow> nat \<Rightarrow> block_iter \<Rightarrow> bool" where
  "at B i it \<longleftrightarrow> on B it \<and> i < length (entries B) \<and> current it = of_nat (off B i) \<and> it_key it = nkey B i \<and>
     it_value it = Some (off B (Suc i) - length (nval B i), length (nval B i)) \<and>
     (\<exists>r. restart_index it = of_nat r \<and> in_region B r i)"

definition at_end :: "layout \<Rightarrow> block_iter \<Rightarrow> bool" where
  "at_end B it \<longleftrightarrow> on B it \<and> current it = it_restarts it"

definition cursor :: "layout \<Rightarrow> nat \<Rightarrow> block_iter \<Rightarrow> bool" where
  "cursor B i it \<longleftrightarrow> (if i < length (entries B) then at B i it else at_end B it)"

lemma unat_body: "laid B \<Longrightarrow> unat (of_nat (length (body B)) :: u32) = length (body B)"
  using body_small(1) by (intro unat_of_nat_small) simp

lemma unat_points: "laid B \<Longrightarrow> r \<le> length (points B) \<Longrightarrow> unat (of_nat r :: u32) = r"
  using body_small(2) [of B] by (intro unat_of_nat_small) simp

lemma restart_point:
  assumes "on B it" and "r < length (points B)"
  shows "GetRestartPoint it (of_nat r) = of_nat (off B (points B ! r))"
  using assms unat_body [of B] unat_points [of B r] layout_restart [OF assms(2)]
  by (simp add: GetRestartPoint_def on_def del: unsigned_of_nat)

lemma on_update [simp]:
  "on B (it\<lparr> restart_index := x \<rparr>) = on B it" "on B (it\<lparr> current := y \<rparr>) = on B it"
  "on B (it\<lparr> it_key := k \<rparr>) = on B it" "on B (it\<lparr> it_value := v \<rparr>) = on B it"
  by (simp_all add: on_def)

lemma off_word_less: "laid B \<Longrightarrow> i \<le> length (entries B) \<Longrightarrow> j \<le> length (entries B) \<Longrightarrow>
    (of_nat (off B i) :: u32) < of_nat (off B j) \<longleftrightarrow> i < j"
  unfolding word_less_nat_alt using unat_off [of B i] unat_off [of B j] off_less_iff [of B i j] by (simp del: unsigned_of_nat)

lemma advance_restart_region:
  assumes "on B it" and "current it = of_nat (off B i)" and "i < length (entries B)"
    and "restart_index it = of_nat r" and "r < length (points B)" and "points B ! r \<le> i"
  shows "\<exists>r'. advance_restart it = it\<lparr> restart_index := of_nat r' \<rparr> \<and> in_region B r' i"
  using assms
proof (induction "length (points B) - r" arbitrary: it r rule: less_induct)
  case less
  have l: "laid B" using less.prems(1) by (simp add: on_def)
  have c: "restart_index it + 1 < it_num_restarts it \<longleftrightarrow> r + 1 < length (points B)"
    using less.prems(1,4,5) unat_points [OF l, of "r + 1"] unat_points [OF l, of "length (points B)"]
    by (simp add: on_def word_less_nat_alt add.commute del: unsigned_of_nat)
  show ?case
  proof (cases "r + 1 < length (points B) \<and> points B ! (r + 1) < i")
    case True
    let ?it = "it\<lparr> restart_index := of_nat (r + 1) \<rparr>"
    have g: "GetRestartPoint it (of_nat (r + 1)) = of_nat (off B (points B ! (r + 1)))" using restart_point [OF less.prems(1)] True by blast
    have "advance_restart it = advance_restart ?it"
      using True c less.prems(2-4) g off_word_less [OF l, of "points B ! (r + 1)" i]
      by (simp add: advance_restart.simps [of it] add.commute)
    moreover have "\<exists>r'. advance_restart ?it = ?it\<lparr> restart_index := of_nat r' \<rparr> \<and> in_region B r' i"
      by (rule less.hyps [of "r + 1"]) (use True less.prems in auto)
    ultimately show ?thesis by auto
  next
    case False
    then have "\<not> (restart_index it + 1 < it_num_restarts it \<and> GetRestartPoint it (restart_index it + 1) < current it)"
      using c less.prems(2-4) restart_point [OF less.prems(1), of "r + 1"] off_word_less [OF l, of "points B ! (r + 1)" i]
        point_range(1) [OF l, of "r + 1"] by (auto simp: add.commute)
    then have "advance_restart it = it" by (subst advance_restart.simps) (rule if_not_P)
    with False less.prems(4-6) show ?thesis by (intro exI [of _ r]) (auto simp: in_region_def)
  qed
qed

text \<open>Keys only grow by bytes that are in the block, so they fit 32 bits as well.\<close>

lemma key_small: "laid B \<Longrightarrow> i < length (entries B) \<Longrightarrow> length (nkey B i) + 3 \<le> off B (Suc i)"
proof (induction i)
  case (Suc i)
  then have "shared_ok B (Suc i)" unfolding laid_def shape_def by blast
  then have "shares B ! Suc i \<le> length (nkey B i)" by (simp add: shared_ok_def)
  with Suc show ?case using ncode_length [of B "Suc i"] by (simp add: off_Suc [of B "Suc i"] klen_def)
next
  case 0
  then have "shared_ok B 0" unfolding laid_def shape_def by blast
  then show ?case using ncode_length [of B 0] by (simp add: off_Suc klen_def shared_ok_def)
qed

lemma at_ready: "at B i it \<Longrightarrow> ready B (Suc i) it"
proof -
  assume a: "at B i it"
  have l: "laid B" using a by (simp add: at_def on_def)
  have "length (nval B i) \<le> off B (Suc i)" using ncode_length [of B i] by (simp add: off_Suc)
  moreover have "shared_ok B (Suc i)" if "Suc i < length (entries B)" using l that unfolding laid_def shape_def by blast
  moreover obtain r where "restart_index it = of_nat r" "in_region B r i" using a unfolding at_def by blast
  ultimately show ?thesis using a unfolding ready_def at_def by (auto simp: shared_ok_def in_region_def intro!: exI [of _ r])
qed

lemma at_Valid: "at B i it \<Longrightarrow> blk_Valid it"
proof -
  assume a: "at B i it"
  then have "laid B" "i < length (entries B)" by (simp_all add: at_def on_def)
  from off_word_less [OF this(1), of i "length (entries B)"] this(2) a show ?thesis by (simp add: at_def on_def blk_Valid_def off_body)
qed

lemma at_end_not_Valid: "at_end B it \<Longrightarrow> \<not> blk_Valid it"
  by (simp add: at_end_def blk_Valid_def)

lemma at_value: "at B i it \<Longrightarrow> blk_value it = Some (nval B i)"
proof -
  assume a: "at B i it"
  then have b: "laid B" "i < length (entries B)" "it_data it = layout_bytes B" by (simp_all add: at_def on_def)
  from layout_entry [OF b(1,2)] obtain rest where
    d: "drop (off B (Suc i) - klen B i - length (nval B i)) (layout_bytes B) = drop (shares B ! i) (nkey B i) @ nval B i @ rest" by blast
  have c: "3 + klen B i + length (nval B i) \<le> off B (Suc i)" using ncode_length [of B i] by (simp add: off_Suc)
  have k: "length (drop (shares B ! i) (nkey B i)) = klen B i" by (simp add: klen_def)
  have "off B (Suc i) - length (nval B i) = klen B i + (off B (Suc i) - klen B i - length (nval B i))" using c by simp
  then have "drop (off B (Suc i) - length (nval B i)) (layout_bytes B) = nval B i @ rest"
    using d k by (metis append_eq_conv_conj drop_drop)
  moreover have "off B (Suc i) \<le> length (layout_bytes B)" using off_bound [of "Suc i" B] b(2) by (simp add: layout_bytes_def)
  ultimately show ?thesis using a b(3) c by (simp add: at_def blk_value_def)
qed

lemma parse_next:
  assumes "ready B i it"
  shows "\<exists>it'. ParseNextKey it = Some (i < length (entries B), it') \<and> cursor B i it'"
proof -
  from assms obtain o' l r where v: "it_value it = Some (o', l)" "o' + l = off B i"
    and r: "r < length (points B)" "restart_index it = of_nat r" "points B ! r \<le> i"
    and b: "on B it" "laid B" "i \<le> length (entries B)" unfolding ready_def on_def by blast
  have nx: "NextEntryOffset it = Some (of_nat (off B i))" using v by (simp add: NextEntryOffset_def flip: of_nat_add)
  note u = unat_off [OF b(2,3)] unat_body [OF b(2)]
  show ?thesis
  proof (cases "i < length (entries B)")
    case False
    then have "i = length (entries B)" using b(3) by simp
    with nx u b(1) show ?thesis by (simp add: ParseNextKey_def cursor_def at_end_def off_body on_def del: unsigned_of_nat)
  next
    case True
    have lt: "off B i < length (body B)" using off_less_iff [of B i "length (entries B)"] True by (simp add: off_body del: off_less_iff)
    from layout_entry [OF b(2) True] obtain rest where
      e: "DecodeEntry (layout_bytes B) (off B i) (length (body B)) =
         Some (of_nat (shares B ! i), of_nat (klen B i), of_nat (length (nval B i)), off B (Suc i) - klen B i - length (nval B i))"
         "drop (off B (Suc i) - klen B i - length (nval B i)) (layout_bytes B) = drop (shares B ! i) (nkey B i) @ nval B i @ rest" by blast
    have c: "3 + klen B i + length (nval B i) \<le> off B (Suc i)" using ncode_length [of B i] by (simp add: off_Suc)
    have sh: "shares B ! i \<le> length (it_key it)" "take (shares B ! i) (it_key it) = take (shares B ! i) (nkey B i)" using assms True by (simp_all add: ready_def)
    have ok: "shared_ok B i" using b(2) True unfolding laid_def shape_def by blast
    then have "shares B ! i \<le> length (nkey B i)" by (simp add: shared_ok_def)
    also have "\<dots> < 2 ^ 32" using key_small [OF b(2) True] off_bound [of "Suc i" B] body_small(1) [OF b(2)] True by simp
    finally have us: "unat (of_nat (shares B ! i) :: u32) = shares B ! i" by (intro unat_of_nat_small) simp
    have uk: "unat (of_nat (klen B i) :: u32) = klen B i" "unat (of_nat (length (nval B i)) :: u32) = length (nval B i)"
      using small_parts [OF b(2) True] by (simp_all add: unat_of_nat_small del: unsigned_of_nat)
    let ?it = "it\<lparr> current := of_nat (off B i), it_key := nkey B i, it_value := Some (off B (Suc i) - length (nval B i), length (nval B i)) \<rparr>"
    have "on B ?it" using b(1) by (simp add: on_def)
    from advance_restart_region [OF this _ True _ r(1,3)] r(2) obtain r' where
      a: "advance_restart ?it = ?it\<lparr> restart_index := of_nat r' \<rparr>" "in_region B r' i" by auto
    have "off B (Suc i) \<le> length (layout_bytes B)" using off_bound [of "Suc i" B] True by (simp add: layout_bytes_def)
    then have inside: "\<not> length (layout_bytes B) < (off B (Suc i) - klen B i - length (nval B i)) + klen B i" using c by simp
    have key: "take (shares B ! i) (it_key it) @ take (klen B i) (drop (off B (Suc i) - klen B i - length (nval B i)) (layout_bytes B)) = nkey B i"
      unfolding e(2) sh(2) by (simp add: klen_def)
    have "ParseNextKey it = Some (True, advance_restart ?it)"
      using nx u b(1) lt e(1) inside sh(1) c key
      by (simp add: ParseNextKey_def on_def us uk del: unsigned_of_nat)
    with a b(1) True show ?thesis by (auto simp: cursor_def at_def on_def)
  qed
qed

lemma seek_restart_ready:
  assumes "on B it" and "r < length (points B)"
  shows "ready B (points B ! r) (SeekToRestartPoint (of_nat r) it)"
proof -
  have l: "laid B" using assms(1) by (simp add: on_def)
  have "unat (GetRestartPoint it (of_nat r)) = off B (points B ! r)"
    using restart_point [OF assms] unat_off [OF l point_range(1) [OF l assms(2)]] by simp
  with assms point_range [OF l assms(2)] show ?thesis
    unfolding ready_def SeekToRestartPoint_def by (auto simp: on_def)
qed

text \<open>A loop that decodes entries stops at the first entry where its condition fails.\<close>

lemma parse_while_stop:
  assumes "ready B i it" and "i \<le> m" and "m \<le> length (entries B)"
    and "\<And>j it. at B j it \<Longrightarrow> i \<le> j \<Longrightarrow> j < m \<Longrightarrow> go it = Some True"
    and "\<And>it. at B m it \<Longrightarrow> go it = Some False"
  shows "\<exists>it'. parse_while go it = Some it' \<and> cursor B m it'"
  using assms
proof (induction "m - i" arbitrary: i it rule: less_induct)
  case less
  from parse_next [OF less.prems(1)] obtain it' where
    p: "ParseNextKey it = Some (i < length (entries B), it')" "cursor B i it'" by blast
  show ?case
  proof (cases "i = m")
    case True
    then show ?thesis using p less.prems(5) by (auto simp: parse_while.simps [of go it] cursor_def)
  next
    case False
    then have i: "i < m" "i < length (entries B)" using less.prems(2,3) by simp_all
    then have a: "at B i it'" using p(2) by (simp add: cursor_def)
    have "parse_while go it = parse_while go it'" using p(1) less.prems(4) [OF a] i by (simp add: parse_while.simps [of go it])
    moreover have "\<exists>it''. parse_while go it' = Some it'' \<and> cursor B m it''"
      by (rule less.hyps [of "Suc i"]) (use i at_ready [OF a] less.prems in auto)
    ultimately show ?thesis by simp
  qed
qed

lemma at_next_offset: "at B j it \<Longrightarrow> NextEntryOffset it = Some (of_nat (off B (Suc j)))"
proof -
  assume a: "at B j it"
  then have "\<exists>o' l. it_value it = Some (o', l) \<and> o' + l = off B (Suc j)" using at_ready [OF a] by (simp add: ready_def)
  then show ?thesis by (auto simp: NextEntryOffset_def simp flip: of_nat_add)
qed

lemma at_before_offset:
  assumes "at B j it" and "i \<le> length (entries B)"
  shows "before_offset (of_nat (off B i)) it = Some (Suc j < i)"
proof -
  have "laid B" "Suc j \<le> length (entries B)" using assms(1) by (auto simp: at_def on_def)
  from off_word_less [OF this assms(2)] show ?thesis by (simp add: before_offset_def at_next_offset [OF assms(1)])
qed

lemma SeekToFirst_cursor: "on B it \<Longrightarrow> \<exists>it'. blk_SeekToFirst it = Some it' \<and> cursor B 0 it'"
proof -
  assume o: "on B it"
  then have p: "0 < length (points B)" "points B ! 0 = 0" by (simp_all add: on_def laid_def shape_def)
  from parse_next [OF seek_restart_ready [OF o p(1)]] p(2) show ?thesis by (auto simp: blk_SeekToFirst_def)
qed

lemma SeekToLast_cursor:
  assumes "on B it"
  shows "\<exists>it'. blk_SeekToLast it = Some it' \<and> cursor B (length (entries B) - 1) it'"
proof -
  let ?r = "length (points B) - 1"
  have l: "laid B" using assms by (simp add: on_def)
  then have p: "?r < length (points B)" by (simp add: laid_def shape_def)
  have w: "it_num_restarts it - 1 = of_nat ?r" using assms p by (simp add: on_def of_nat_diff Suc_leI)
  have le: "points B ! ?r \<le> length (entries B) - 1" "length (entries B) - 1 \<le> length (entries B)"
  proof -
    have "points B ! ?r \<in> set (points B)" using p by simp
    then show "points B ! ?r \<le> length (entries B) - 1" using l unfolding laid_def shape_def by fastforce
  qed simp
  have r: "it_restarts it = of_nat (off B (length (entries B)))" using assms by (simp add: on_def off_body)
  show ?thesis unfolding blk_SeekToLast_def w r
    by (rule parse_while_stop [OF seek_restart_ready [OF assms p] le]) (auto simp: at_before_offset)
qed

lemma Next_cursor: "at B i it \<Longrightarrow> \<exists>it'. blk_Next it = Some it' \<and> cursor B (Suc i) it'"
  using parse_next [OF at_ready, of B i it] by (auto simp: blk_Next_def)

text \<open>Going back: the last restart point before the entry.\<close>

lemma prev_restart_found:
  assumes "on B it" and "0 < i" and "i \<le> length (entries B)" and "restart_index it = of_nat r" and "r < length (points B)"
  shows "\<exists>q\<le>r. points B ! q < i \<and> prev_restart (of_nat (off B i)) it = (True, it\<lparr> restart_index := of_nat q \<rparr>)"
  using assms
proof (induction r arbitrary: it)
  case (Suc r)
  have l: "laid B" using Suc.prems(1) by (simp add: on_def)
  have c: "of_nat (off B i) \<le> GetRestartPoint it (restart_index it) \<longleftrightarrow> i \<le> points B ! Suc r"
    using restart_point [OF Suc.prems(1,5)] off_word_less [OF l point_range(1) [OF l Suc.prems(5)] Suc.prems(3)] Suc.prems(4)
    by (simp add: not_less [symmetric])
  show ?case
  proof (cases "i \<le> points B ! Suc r")
    case False
    then have "prev_restart (of_nat (off B i)) it = (True, it)" using c by (simp add: prev_restart.simps)
    with False Suc.prems(4) show ?thesis by (intro exI [of _ "Suc r"]) simp
  next
    case True
    let ?it = "it\<lparr> restart_index := of_nat r \<rparr>"
    have "restart_index it \<noteq> 0" using unat_points [OF l, of "Suc r"] Suc.prems(4,5) by (auto simp del: unsigned_of_nat of_nat_Suc)
    then have "prev_restart (of_nat (off B i)) it = prev_restart (of_nat (off B i)) ?it"
      using True c Suc.prems(4) by (simp add: prev_restart.simps [of _ it])
    moreover have "\<exists>q\<le>r. points B ! q < i \<and> prev_restart (of_nat (off B i)) ?it = (True, ?it\<lparr> restart_index := of_nat q \<rparr>)"
      by (rule Suc.IH) (use Suc.prems in simp_all)
    then obtain q where "q \<le> r" "points B ! q < i" "prev_restart (of_nat (off B i)) ?it = (True, ?it\<lparr> restart_index := of_nat q \<rparr>)" by blast
    ultimately show ?thesis by (intro exI [of _ q]) simp
  qed
next
  case 0
  have l: "laid B" "points B ! 0 = 0" using 0(1) by (simp_all add: on_def laid_def shape_def)
  have "\<not> of_nat (off B i) \<le> GetRestartPoint it (restart_index it)"
    using restart_point [OF 0(1,5)] off_word_less [OF l(1), of 0 i] 0 l(2) by (simp add: not_le)
  then show ?case using 0(2,4) l(2) by (simp add: prev_restart.simps)
qed

lemma prev_restart_first:
  "prev_restart 0 it = (False, it\<lparr> current := it_restarts it, restart_index := it_num_restarts it \<rparr>)"
proof (induction "unat (restart_index it)" arbitrary: it rule: less_induct)
  case less
  show ?case
  proof (cases "restart_index it = 0")
    case False
    let ?it = "it\<lparr> restart_index := restart_index it - 1 \<rparr>"
    have "prev_restart 0 ?it = (False, ?it\<lparr> current := it_restarts ?it, restart_index := it_num_restarts ?it \<rparr>)"
      by (rule less.hyps) (use False in \<open>simp add: measure_unat\<close>)
    with False show ?thesis by (simp add: prev_restart.simps [of 0 it])
  qed (simp add: prev_restart.simps)
qed

lemma Prev_cursor:
  assumes "at B i it"
  shows "\<exists>it'. blk_Prev it = Some it' \<and> (if i = 0 then at_end B it' else at B (i - 1) it')"
proof -
  obtain r where b: "on B it" "i < length (entries B)" "current it = of_nat (off B i)" "restart_index it = of_nat r" "r < length (points B)"
    using assms unfolding at_def in_region_def by blast
  show ?thesis
  proof (cases "i = 0")
    case True
    with b(1,3) show ?thesis by (simp add: blk_Prev_def prev_restart_first at_end_def on_def)
  next
    case False
    from prev_restart_found [OF b(1) _ less_imp_le [OF b(2)] b(4,5)] False obtain q where
      q: "q \<le> r" "points B ! q < i" "prev_restart (of_nat (off B i)) it = (True, it\<lparr> restart_index := of_nat q \<rparr>)" by auto
    have "ready B (points B ! q) (SeekToRestartPoint (of_nat q) (it\<lparr> restart_index := of_nat q \<rparr>))"
      using b(1,5) q(1) by (intro seek_restart_ready) simp_all
    from parse_while_stop [OF this, of "i - 1" "before_offset (of_nat (off B i))"] at_before_offset [of B _ _ i] b(2) q(2)
    have "\<exists>it'. parse_while (before_offset (of_nat (off B i))) (SeekToRestartPoint (of_nat q) (it\<lparr> restart_index := of_nat q \<rparr>)) = Some it' \<and>
        cursor B (i - 1) it'" by auto
    with q(3) b(2,3) False show ?thesis by (auto simp: blk_Prev_def cursor_def)
  qed
qed

text \<open>
  The search. The entries whose keys are smaller than the target are the first ones of the block;
  \<^term>\<open>seek_index cmp target B\<close> is their number.
\<close>

definition seek_index :: "(slice \<Rightarrow> slice \<Rightarrow> int) \<Rightarrow> slice \<Rightarrow> layout \<Rightarrow> nat" where
  "seek_index cmp target B = length (takeWhile (\<lambda>e. cmp (fst e) target < 0) (entries B))"

definition splits :: "(slice \<Rightarrow> slice \<Rightarrow> int) \<Rightarrow> slice \<Rightarrow> layout \<Rightarrow> bool" where
  "splits cmp target B \<longleftrightarrow> (\<forall>j<length (entries B). \<forall>i<j. cmp (nkey B j) target \<le> 0 \<longrightarrow> cmp (nkey B i) target < 0)"

lemma seek_index_le: "seek_index cmp target B \<le> length (entries B)"
  by (simp add: seek_index_def length_takeWhile_le)

lemma seek_index_less:
  assumes "splits cmp target B" and "i < length (entries B)"
  shows "cmp (nkey B i) target < 0 \<longleftrightarrow> i < seek_index cmp target B"
proof
  assume "i < seek_index cmp target B"
  then have "takeWhile (\<lambda>e. cmp (fst e) target < 0) (entries B) ! i \<in> set (takeWhile (\<lambda>e. cmp (fst e) target < 0) (entries B))"
    by (simp add: seek_index_def)
  with \<open>i < seek_index cmp target B\<close> show "cmp (nkey B i) target < 0"
    by (auto simp: seek_index_def nkey_def takeWhile_nth dest!: set_takeWhileD)
next
  assume a: "cmp (nkey B i) target < 0"
  show "i < seek_index cmp target B"
  proof (rule ccontr)
    assume n: "\<not> i < seek_index cmp target B"
    then have "seek_index cmp target B < length (entries B)" using assms(2) by simp
    from nth_length_takeWhile [OF this [unfolded seek_index_def]]
    have "\<not> cmp (nkey B (seek_index cmp target B)) target < 0" by (simp add: nkey_def seek_index_def)
    moreover have "cmp (nkey B (seek_index cmp target B)) target < 0"
      using a n assms unfolding splits_def by (metis less_imp_le linorder_neqE_nat)
    ultimately show False by simp
  qed
qed

lemma seek_index_eq:
  assumes "splits cmp target B" and "i < length (entries B)" and "cmp (nkey B i) target = 0"
  shows "i = seek_index cmp target B"
proof -
  have "\<not> i < seek_index cmp target B" using seek_index_less [OF assms(1,2)] assms(3) by simp
  moreover have "\<not> seek_index cmp target B < i"
    using seek_index_less [OF assms(1), of "seek_index cmp target B"] assms unfolding splits_def by (metis less_irrefl order_refl less_trans)
  ultimately show ?thesis by simp
qed

lemma restart_entry:
  assumes "on B it" and "r < length (points B)" and "points B ! r < length (entries B)"
  shows "\<exists>vl p. DecodeEntry (it_data it) (unat (GetRestartPoint it (of_nat r))) (unat (it_restarts it)) = Some (0, of_nat (length (nkey B (points B ! r))), vl, p) \<and>
     take (unat (of_nat (length (nkey B (points B ! r))) :: u32)) (drop p (it_data it)) = nkey B (points B ! r) \<and>
     \<not> length (it_data it) < p + unat (of_nat (length (nkey B (points B ! r))) :: u32)"
proof -
  let ?i = "points B ! r"
  have l: "laid B" "it_data it = layout_bytes B" "it_restarts it = of_nat (length (body B))" using assms(1) by (simp_all add: on_def)
  have s: "shares B ! ?i = 0" by (rule point_range(2) [OF l(1) assms(2,3)])
  then have k: "klen B ?i = length (nkey B ?i)" by (simp add: klen_def)
  from layout_entry [OF l(1) assms(3)] obtain rest where
    d: "DecodeEntry (layout_bytes B) (off B ?i) (length (body B)) =
         Some (0, of_nat (length (nkey B ?i)), of_nat (length (nval B ?i)), off B (Suc ?i) - length (nkey B ?i) - length (nval B ?i))"
       "drop (off B (Suc ?i) - length (nkey B ?i) - length (nval B ?i)) (layout_bytes B) = nkey B ?i @ nval B ?i @ rest"
    unfolding k s by auto
  have u: "unat (of_nat (length (nkey B ?i)) :: u32) = length (nkey B ?i)"
    using small_parts(2) [OF l(1) assms(3)] unfolding k by (intro unat_of_nat_small) simp
  have "off B (Suc ?i) \<le> length (layout_bytes B)" using off_bound [of "Suc ?i" B] assms(3) by (simp add: layout_bytes_def)
  moreover have "3 + length (nkey B ?i) + length (nval B ?i) \<le> off B (Suc ?i)" using ncode_length [of B ?i] unfolding k by (simp add: off_Suc)
  moreover have "take (length (nkey B ?i)) (drop (off B (Suc ?i) - length (nkey B ?i) - length (nval B ?i)) (layout_bytes B)) = nkey B ?i"
    unfolding d(2) by simp
  ultimately show ?thesis
    unfolding restart_point [OF assms(1,2)] l(2,3) unat_body [OF l(1)] unat_off [OF l(1) less_imp_le [OF assms(3)]] u d(1) by simp
qed

lemma mid_word:
  assumes "laid B" and "l < r" and "r < length (points B)"
  shows "(of_nat l + of_nat r + 1) div 2 = (of_nat ((l + r + 1) div 2) :: u32)"
proof -
  have b: "l + r + 1 < 2 ^ LENGTH(32)" using assms(2,3) body_small(2) [OF assms(1)] by simp
  have e: "(of_nat l + of_nat r + 1 :: u32) = of_nat (l + r + 1)" by simp
  have "unat ((of_nat l + of_nat r + 1) div 2 :: u32) = (l + r + 1) div 2"
    unfolding e unat_div unat_of_nat_small [OF b] by simp
  moreover have "unat (of_nat ((l + r + 1) div 2) :: u32) = (l + r + 1) div 2" using b by (intro unat_of_nat_small) simp
  ultimately show ?thesis by (simp add: word_unat_eq_iff del: unsigned_of_nat)
qed

lemma search_restarts_found:
  assumes "on B it" and "splits cmp target B" and "l \<le> r" and "r < length (points B)" and "points B ! l \<le> seek_index cmp target B"
  shows "\<exists>q\<le>r. search_restarts cmp target it (of_nat l) (of_nat r) = Some (Some (of_nat q)) \<and> points B ! q \<le> seek_index cmp target B"
  using assms(3-5)
proof (induction "r - l" arbitrary: l r rule: less_induct)
  case less
  have L: "laid B" using assms(1) by (simp add: on_def)
  have lt: "(of_nat l :: u32) < of_nat r \<longleftrightarrow> l < r"
    using unat_points [OF L, of l] unat_points [OF L, of r] less.prems by (simp add: word_less_nat_alt del: unsigned_of_nat)
  show ?case
  proof (cases "l < r")
    case False
    with lt less.prems show ?thesis by (intro exI [of _ l]) (simp add: search_restarts.simps)
  next
    case True
    define m where "m = (l + r + 1) div 2"
    have m: "l < m" "m \<le> r" using True by (auto simp: m_def)
    have mp: "m < length (points B)" using m less.prems(2) by simp
    have "points B ! 0 < points B ! m" using sorted_wrt_nth_less [of "(<)" "points B" 0 m] L m mp unfolding laid_def shape_def by auto
    moreover have "points B ! m \<in> set (points B)" using mp by simp
    ultimately have pm: "points B ! m < length (entries B)" using L unfolding laid_def shape_def by fastforce
    from restart_entry [OF assms(1) mp pm] obtain vl p where
      d: "DecodeEntry (it_data it) (unat (GetRestartPoint it (of_nat m))) (unat (it_restarts it)) = Some (0, of_nat (length (nkey B (points B ! m))), vl, p)"
         "take (unat (of_nat (length (nkey B (points B ! m))) :: u32)) (drop p (it_data it)) = nkey B (points B ! m)"
         "\<not> length (it_data it) < p + unat (of_nat (length (nkey B (points B ! m))) :: u32)" by blast
    have mw: "(of_nat l + of_nat r + 1) div 2 = (of_nat m :: u32)" unfolding m_def by (rule mid_word [OF L True less.prems(2)])
    have step: "search_restarts cmp target it (of_nat l) (of_nat r) =
        (if cmp (nkey B (points B ! m)) target < 0 then search_restarts cmp target it (of_nat m) (of_nat r)
         else search_restarts cmp target it (of_nat l) (of_nat m - 1))"
      using lt True mw d by (subst search_restarts.simps) (simp add: Let_def del: unsigned_of_nat)
    show ?thesis
    proof (cases "cmp (nkey B (points B ! m)) target < 0")
      case True
      then have "points B ! m < seek_index cmp target B" using seek_index_less [OF assms(2) pm] by simp
      then have "\<exists>q\<le>r. search_restarts cmp target it (of_nat m) (of_nat r) = Some (Some (of_nat q)) \<and> points B ! q \<le> seek_index cmp target B"
        by (intro less.hyps) (use m \<open>l < r\<close> less.prems(2) in simp_all)
      with True step show ?thesis by simp
    next
      case False
      have w: "(of_nat m - 1 :: u32) = of_nat (m - 1)" using m by (simp add: of_nat_diff)
      have "\<exists>q\<le>m - 1. search_restarts cmp target it (of_nat l) (of_nat (m - 1)) = Some (Some (of_nat q)) \<and> points B ! q \<le> seek_index cmp target B"
        by (rule less.hyps) (use m less.prems in simp_all)
      then obtain q where "q \<le> m - 1" "search_restarts cmp target it (of_nat l) (of_nat (m - 1)) = Some (Some (of_nat q))" "points B ! q \<le> seek_index cmp target B" by (elim exE conjE)
      then show ?thesis using m(2) unfolding step if_not_P [OF False] w by (intro exI [of _ q] conjI) linarith
    qed
  qed
qed

lemma search_found:
  assumes "on B it" and "splits cmp target B" and "l \<le> r" and "r < length (points B)" and "points B ! l \<le> seek_index cmp target B"
  obtains q where "q < length (points B)" "search_restarts cmp target it (of_nat l) (of_nat r) = Some (Some (of_nat q))"
    "points B ! q \<le> seek_index cmp target B"
  using search_restarts_found [OF assms] assms(4) by (meson le_less_trans)

lemma Seek_cursor:
  assumes "cursor B i it" and s: "splits cmp target B"
  shows "\<exists>it'. blk_Seek cmp target it = Some it' \<and> cursor B (seek_index cmp target B) it'"
proof -
  let ?k = "seek_index cmp target B"
  have o: "on B it" using assms(1) by (auto simp: cursor_def at_def at_end_def split: if_splits)
  then have L: "laid B" "it_num_restarts it = of_nat (length (points B))" "points B \<noteq> []" "points B ! 0 = 0" by (simp_all add: on_def laid_def shape_def)
  have stop: "\<exists>it'. parse_while (\<lambda>it. Some (cmp (it_key it) target < 0)) it0 = Some it' \<and> cursor B ?k it'" if "ready B j it0" "j \<le> ?k" for j it0
  proof (rule parse_while_stop [OF that seek_index_le])
    show "Some (cmp (it_key it) target < 0) = Some True" if "at B j it" "j < ?k" for j it
      using that seek_index_less [OF s, of j] by (simp add: at_def)
    show "Some (cmp (it_key it) target < 0) = Some False" if "at B ?k it" for it
      using that seek_index_less [OF s, of ?k] by (simp add: at_def)
  qed
  have restart: "\<exists>it'. parse_while (\<lambda>it. Some (cmp (it_key it) target < 0)) (SeekToRestartPoint (of_nat q) it) = Some it' \<and> cursor B ?k it'"
    if "q < length (points B)" "points B ! q \<le> ?k" for q by (rule stop [OF seek_restart_ready [OF o that(1)] that(2)])
  have num: "it_num_restarts it - 1 = of_nat (length (points B) - 1)" using L(2,3) by (simp add: of_nat_diff Suc_leI)
  have last: "length (points B) - 1 < length (points B)" using L(3) by simp
  show ?thesis
  proof (cases "i < length (entries B)")
    case False
    then have v: "\<not> blk_Valid it" using assms(1) at_end_not_Valid by (simp add: cursor_def)
    obtain q where
      q: "q < length (points B)" "search_restarts cmp target it (of_nat 0) (of_nat (length (points B) - 1)) = Some (Some (of_nat q))" "points B ! q \<le> ?k"
      by (rule search_found [OF o s _ last, of 0]) (simp_all add: L(4))
    with v num restart [OF q(1,3)] show ?thesis by (simp add: blk_Seek_def)
  next
    case True
    with assms(1) obtain r where a: "at B i it" "restart_index it = of_nat r" "r < length (points B)" "points B ! r \<le> i"
      by (auto simp: cursor_def at_def in_region_def)
    have c: "it_key it = nkey B i" "blk_Valid it" using a(1) at_Valid [OF a(1)] by (simp_all add: at_def)
    note k = seek_index_less [OF s True]
    show ?thesis
    proof (cases "cmp (nkey B i) target" "0 :: int" rule: linorder_cases)
      case equal
      with seek_index_eq [OF s True] c assms(1) show ?thesis by (simp add: blk_Seek_def)
    next
      case less
      then have i: "i < ?k" using k by simp
      obtain q where
        q: "q < length (points B)" "search_restarts cmp target it (of_nat r) (of_nat (length (points B) - 1)) = Some (Some (of_nat q))" "points B ! q \<le> ?k"
        by (rule search_found [OF o s _ last, of r]) (use a(3,4) i in simp_all)
      have "blk_Seek cmp target it = parse_while (\<lambda>it. Some (cmp (it_key it) target < 0))
          (if (of_nat q :: u32) = of_nat r then it else SeekToRestartPoint (of_nat q) it)"
        using less c q(2) a(2) num by (simp add: blk_Seek_def)
      with stop [OF at_ready [OF a(1)]] i restart [OF q(1,3)] show ?thesis by simp
    next
      case greater
      obtain q where
        q: "q < length (points B)" "search_restarts cmp target it (of_nat 0) (of_nat r) = Some (Some (of_nat q))" "points B ! q \<le> ?k"
        by (rule search_found [OF o s _ a(3), of 0]) (simp_all add: L(4))
      with greater c a(2) restart [OF q(1,3)] show ?thesis by (simp add: blk_Seek_def)
    qed
  qed
qed

section \<open>The builder lays out its entries\<close>

definition builds :: "layout \<Rightarrow> BlockBuilder \<Rightarrow> bool" where
  "builds B b \<longleftrightarrow> shape B \<and> buffer b = body B \<and> restarts b = map (\<lambda>r. of_nat (off B r)) (points B) \<and>
     last_key b = (if entries B = [] then [] else nkey B (length (entries B) - 1)) \<and> (entries B = [] \<longrightarrow> counter b \<le> 0)"

definition grow :: "slice \<Rightarrow> slice \<Rightarrow> nat \<Rightarrow> bool \<Rightarrow> layout \<Rightarrow> layout" where
  "grow k v sh restart B = \<lparr> entries = entries B @ [(k, v)], shares = shares B @ [sh],
     points = points B @ (if restart then [length (entries B)] else []) \<rparr>"

lemma diff_index_prefix: "diff_index a b \<le> length a \<and> diff_index a b \<le> length b \<and> take (diff_index a b) a = take (diff_index a b) b"
  by (induction a b rule: diff_index.induct) simp_all

lemma grow_ncode: "length (shares B) = length (entries B) \<Longrightarrow> i < length (entries B) \<Longrightarrow> ncode (grow k v sh restart B) i = ncode B i"
  by (simp add: ncode_def grow_def nkey_def nval_def nth_append)

lemma grow_off: "length (shares B) = length (entries B) \<Longrightarrow> i \<le> length (entries B) \<Longrightarrow> off (grow k v sh restart B) i = off B i"
proof -
  assume a: "length (shares B) = length (entries B)" "i \<le> length (entries B)"
  have "map (\<lambda>j. length (ncode (grow k v sh restart B) j)) [0..<i] = map (\<lambda>j. length (ncode B j)) [0..<i]"
    by (rule map_cong) (use a grow_ncode [OF a(1)] in auto)
  then show ?thesis unfolding off_def by (rule arg_cong)
qed

lemma grow_body: "length (shares B) = length (entries B) \<Longrightarrow> body (grow k v sh restart B) = body B @ entry_code sh k v"
proof -
  assume a: "length (shares B) = length (entries B)"
  have "map (ncode (grow k v sh restart B)) [0..<length (entries B)] = map (ncode B) [0..<length (entries B)]"
    by (rule map_cong) (use grow_ncode [OF a] in auto)
  moreover have "ncode (grow k v sh restart B) (length (entries B)) = entry_code sh k v"
    using a by (simp add: ncode_def grow_def nkey_def nval_def nth_append)
  moreover have "length (entries (grow k v sh restart B)) = Suc (length (entries B))" by (simp add: grow_def)
  ultimately show ?thesis unfolding body_def by (simp del: map_eq_conv)
qed

lemma grow_shape:
  assumes s: "shape B" and sh: "sh \<le> length k" "entries B = [] \<longrightarrow> sh = 0"
    "entries B \<noteq> [] \<longrightarrow> sh \<le> length (nkey B (length (entries B) - 1)) \<and> take sh (nkey B (length (entries B) - 1)) = take sh k"
    and r: "restart \<longrightarrow> entries B \<noteq> [] \<and> sh = 0"
  shows "shape (grow k v sh restart B)"
proof -
  let ?n = "length (entries B)" and ?B = "grow k v sh restart B"
  have len: "length (shares B) = ?n" "points B \<noteq> []" "points B ! 0 = 0" "sorted_wrt (<) (points B)"
    and P: "\<forall>r\<in>set (points B). (r = 0 \<or> r < ?n) \<and> (r < ?n \<longrightarrow> shares B ! r = 0)" and S: "\<forall>i<?n. shared_ok B i" using s by (simp_all add: shape_def)
  have "shared_ok ?B i" if "i < Suc ?n" for i
  proof (cases "i < ?n")
    case True
    then have "shared_ok B i" using S by blast
    with True len(1) show ?thesis by (cases i) (auto simp: shared_ok_def grow_def nkey_def nth_append)
  next
    case False
    then have "i = ?n" using that by simp
    with len(1) sh show ?thesis by (auto simp: shared_ok_def grow_def nkey_def nth_append)
  qed
  moreover have "(r = 0 \<or> r < Suc ?n) \<and> (r < Suc ?n \<longrightarrow> shares ?B ! r = 0)" if m: "r \<in> set (points ?B)" for r
  proof (cases "r \<in> set (points B)")
    case True
    show ?thesis
    proof (cases "r < ?n")
      case True
      with P \<open>r \<in> set (points B)\<close> len(1) show ?thesis by (simp add: grow_def nth_append)
    next
      case False
      with P True have "r = 0" "entries B = []" by auto
      with sh(2) len(1) show ?thesis by (simp add: grow_def)
    qed
  next
    case False
    with m r len(1) show ?thesis by (auto simp: grow_def nth_append split: if_splits)
  qed
  moreover have "sorted_wrt (<) (points ?B)" using len(4) P r by (auto simp: grow_def sorted_wrt_append)
  ultimately show ?thesis using len(1-3) by (simp add: shape_def) (simp add: grow_def nth_append)
qed

lemma bb_Add_builds:
  assumes b: "builds B b" and N: "1 \<le> interval"
  shows "\<exists>B'. builds B' (bb_Add interval k v b) \<and> entries B' = entries B @ [(k, v)]"
proof -
  let ?restart = "\<not> counter b < interval"
  define sh where "sh = (if ?restart then 0 else diff_index (last_key b) k)"
  let ?B = "grow k v sh ?restart B"
  have s: "shape B" "length (shares B) = length (entries B)" using b by (simp_all add: builds_def shape_def)
  have ne: "entries B \<noteq> []" if "?restart" using that b N by (auto simp: builds_def)
  have pre: "sh \<le> length (last_key b)" "sh \<le> length k" "take sh (last_key b) = take sh k"
    using diff_index_prefix [of "last_key b" k] by (simp_all add: sh_def)
  have lk: "last_key b = (if entries B = [] then [] else nkey B (length (entries B) - 1))" using b by (simp add: builds_def)
  have "shape ?B"
  proof (rule grow_shape [OF s(1) pre(2)])
    show "entries B = [] \<longrightarrow> sh = 0" using pre(1) lk by auto
    show "entries B \<noteq> [] \<longrightarrow> sh \<le> length (nkey B (length (entries B) - 1)) \<and> take sh (nkey B (length (entries B) - 1)) = take sh k"
      using pre lk by auto
    show "?restart \<longrightarrow> entries B \<noteq> [] \<and> sh = 0" using ne by (simp add: sh_def)
  qed
  moreover have "map (\<lambda>r. of_nat (off ?B r)) (points B) = (map (\<lambda>r. of_nat (off B r)) (points B) :: u32 list)"
  proof (rule map_cong)
    fix r assume "r \<in> set (points B)"
    then have "r \<le> length (entries B)" using s(1) unfolding shape_def by auto
    then show "(of_nat (off ?B r) :: u32) = of_nat (off B r)" by (simp add: grow_off [OF s(2)])
  qed simp
  moreover have "points ?B = points B @ (if ?restart then [length (entries B)] else [])" by (simp add: grow_def)
  moreover have "off ?B (length (entries B)) = length (buffer b)" using b grow_off [OF s(2) order_refl] by (simp add: builds_def off_body)
  moreover have "body ?B = buffer b @ entry_code sh k v" using b grow_body [OF s(2)] by (simp add: builds_def)
  moreover have "last_key (bb_Add interval k v b) = k"
    using pre(3) by (cases ?restart) (simp_all add: bb_Add_def sh_def Let_def)
  moreover have "nkey ?B (length (entries ?B) - 1) = k" by (simp add: grow_def nkey_def nth_append)
  ultimately have "builds ?B (bb_Add interval k v b)"
    using b by (cases ?restart) (simp_all add: builds_def bb_Add_def sh_def Let_def entry_code_def PutVarint32_def grow_def)
  moreover have "entries ?B = entries B @ [(k, v)]" by (simp add: grow_def)
  ultimately show ?thesis by blast
qed

definition build_block :: "int \<Rightarrow> (slice \<times> slice) list \<Rightarrow> slice" where
  "build_block interval es = fst (bb_Finish (fold (\<lambda>(k, v). bb_Add interval k v) es new_BlockBuilder))"

lemma bb_Add_all_builds:
  "builds B b \<Longrightarrow> 1 \<le> interval \<Longrightarrow> \<exists>B'. builds B' (fold (\<lambda>(k, v). bb_Add interval k v) es b) \<and> entries B' = entries B @ es"
proof (induction es arbitrary: B b)
  case (Cons e es)
  obtain k v where e: "e = (k, v)" by (cases e)
  from bb_Add_builds [OF Cons.prems, of k v] obtain B1 where B1: "builds B1 (bb_Add interval k v b)" "entries B1 = entries B @ [(k, v)]" by blast
  from Cons.IH [OF B1(1) Cons.prems(2)] B1(2) show ?case by (auto simp: e)
qed auto

lemma bb_Finish_bytes: "builds B b \<Longrightarrow> fst (bb_Finish b) = layout_bytes B"
proof -
  assume b: "builds B b"
  have "fold (\<lambda>r buf. PutFixed32 buf r) rs buf = buf @ concat (map EncodeFixed32 rs)" for rs buf
    by (induction rs arbitrary: buf) (simp_all add: PutFixed32_def)
  with b show ?thesis by (simp add: bb_Finish_def Let_def PutFixed32_def builds_def layout_bytes_def comp_def)
qed

lemma new_builds: "builds \<lparr> entries = [], shares = [], points = [0] \<rparr> new_BlockBuilder"
  by (simp add: builds_def new_BlockBuilder_def shape_def body_def)

lemma build_block_laid:
  assumes "1 \<le> interval" and "length (build_block interval es) < 2 ^ 32"
  shows "\<exists>B. laid B \<and> entries B = es \<and> build_block interval es = layout_bytes B"
proof -
  from bb_Add_all_builds [OF new_builds assms(1)] obtain B where
    B: "builds B (fold (\<lambda>(k, v). bb_Add interval k v) es new_BlockBuilder)" "entries B = es" by auto
  have bytes: "build_block interval es = layout_bytes B" unfolding build_block_def by (rule bb_Finish_bytes [OF B(1)])
  have "shape B" using B(1) by (simp add: builds_def)
  with B(2) bytes assms(2) show ?thesis by (auto simp: laid_def)
qed

text \<open>The size that the builder estimates is the size of the finished block.\<close>

lemma estimate_exact: "CurrentSizeEstimate b = length (fst (bb_Finish b))"
proof -
  have "length (fold (\<lambda>r buf. PutFixed32 buf r) rs buf) = length buf + length rs * 4" for rs buf
    by (induction rs arbitrary: buf) (simp_all add: PutFixed32_def)
  then show ?thesis by (simp add: CurrentSizeEstimate_def bb_Finish_def Let_def PutFixed32_def)
qed

text \<open>The iterator of a finished block.\<close>

lemma NewIterator_laid:
  assumes "laid B"
  shows "\<exists>it. NewIterator (new_Block (layout_bytes B)) = Inr it \<and> at_end B it"
proof -
  let ?n = "length (points B)"
  have sz: "length (layout_bytes B) = length (body B) + ?n * 4 + 4" by (simp add: layout_bytes_def)
  then have "drop (length (layout_bytes B) - 4) (layout_bytes B) = EncodeFixed32 (of_nat ?n)" by (simp add: layout_bytes_def)
  then have num: "NumRestarts (layout_bytes B) (length (layout_bytes B)) = of_nat ?n"
    using DecodeFixed32_EncodeFixed32 [of _ "[]"] by (simp add: NumRestarts_def)
  have ne: "points B \<noteq> []" using assms by (simp add: laid_def shape_def)
  have u: "unat (of_nat ?n :: u32) = ?n" "unat (of_nat (Suc ?n) :: u32) = Suc ?n"
    using body_small(2) [OF assms] by (simp_all add: unat_of_nat_small del: unsigned_of_nat of_nat_Suc)
  have "(of_nat ?n :: u32) \<noteq> 0" using u(1) ne by (auto simp del: unsigned_of_nat)
  moreover have "\<not> (length (layout_bytes B) - 4) div 4 < unat (NumRestarts (layout_bytes B) (length (layout_bytes B)))"
    unfolding num u(1) using sz by simp
  moreover have "length (layout_bytes B) - unat (1 + NumRestarts (layout_bytes B) (length (layout_bytes B))) * 4 = length (body B)"
    using u(2) sz unfolding num by simp
  ultimately show ?thesis using sz num assms
    by (simp add: new_Block_def Let_def NewIterator_def new_Iter_def at_end_def on_def)
qed

text \<open>Keys in the order of a comparator are split by every valid target.\<close>

context comparator
begin

lemma sorted_splits:
  assumes "sorted_wrt (\<lambda>a b. compare a b < 0) (map fst (entries B))" and "list_all valid (map fst (entries B))" and "valid target"
  shows "splits compare target B"
  unfolding splits_def
proof (intro allI impI)
  fix j i assume j: "j < length (entries B)" "i < j" "compare (nkey B j) target \<le> 0"
  have "compare (nkey B i) (nkey B j) < 0" using sorted_wrt_nth_less [OF assms(1), of i j] j by (simp add: nkey_def)
  moreover have "valid (nkey B i)" "valid (nkey B j)" using assms(2) j by (simp_all add: nkey_def list_all_length)
  ultimately show "compare (nkey B i) target < 0" using compare_less_le_trans [OF _ _ assms(3)] j(3) by blast
qed

end

text \<open>
  What a client sees: a relation between positions in a list of entries and states of the iterator
  that every call keeps.
\<close>

definition cursor_over :: "(slice \<Rightarrow> slice \<Rightarrow> int) \<Rightarrow> (slice \<Rightarrow> bool) \<Rightarrow> (slice \<times> slice) list \<Rightarrow> (nat \<Rightarrow> block_iter \<Rightarrow> bool) \<Rightarrow> bool" where
  "cursor_over cmp valid es pos \<longleftrightarrow> (\<forall>i it. pos i it \<longrightarrow>
     it_status it = OK \<and> (blk_Valid it \<longleftrightarrow> i < length es) \<and>
     (i < length es \<longrightarrow> it_key it = fst (es ! i) \<and> blk_value it = Some (snd (es ! i)) \<and>
        (\<exists>it'. blk_Next it = Some it' \<and> pos (i + 1) it') \<and>
        (\<exists>it'. blk_Prev it = Some it' \<and> pos (if i = 0 then length es else i - 1) it')) \<and>
     (\<exists>it'. blk_SeekToFirst it = Some it' \<and> pos 0 it') \<and>
     (\<exists>it'. blk_SeekToLast it = Some it' \<and> pos (length es - 1) it') \<and>
     (\<forall>target. valid target \<longrightarrow> (\<exists>it'. blk_Seek cmp target it = Some it' \<and>
        pos (length (takeWhile (\<lambda>e. cmp (fst e) target < 0) es)) it')))"

lemma cursor_over_entry:
  "cursor_over cmp valid es pos \<Longrightarrow> pos i it \<Longrightarrow> i < length es \<Longrightarrow> blk_Valid it \<and> it_key it = fst (es ! i) \<and> blk_value it = Some (snd (es ! i))"
  unfolding cursor_over_def by blast

lemma cursor_over_Seek:
  "cursor_over cmp valid es pos \<Longrightarrow> pos i it \<Longrightarrow> valid target \<Longrightarrow>
     \<exists>it'. blk_Seek cmp target it = Some it' \<and> pos (length (takeWhile (\<lambda>e. cmp (fst e) target < 0) es)) it'"
  unfolding cursor_over_def by blast

lemma laid_cursor:
  assumes "\<And>target. valid target \<Longrightarrow> splits cmp target B"
  shows "cursor_over cmp valid (entries B) (cursor B)"
  unfolding cursor_over_def
proof (intro allI impI conjI)
  fix i it assume c: "cursor B i it"
  then have o: "on B it" by (auto simp: cursor_def at_def at_end_def split: if_splits)
  then show "it_status it = OK" by (simp add: on_def)
  show "blk_Valid it \<longleftrightarrow> i < length (entries B)" using c at_Valid at_end_not_Valid by (auto simp: cursor_def split: if_splits)
  show "\<exists>it'. blk_SeekToFirst it = Some it' \<and> cursor B 0 it'" by (rule SeekToFirst_cursor [OF o])
  show "\<exists>it'. blk_SeekToLast it = Some it' \<and> cursor B (length (entries B) - 1) it'" by (rule SeekToLast_cursor [OF o])
  show "\<exists>it'. blk_Seek cmp target it = Some it' \<and> cursor B (length (takeWhile (\<lambda>e. cmp (fst e) target < 0) (entries B))) it'"
    if "valid target" for target using Seek_cursor [OF c assms [OF that]] by (simp add: seek_index_def)
  assume "i < length (entries B)"
  with c have a: "at B i it" by (simp add: cursor_def)
  show "it_key it = fst (entries B ! i)" using a by (simp add: at_def nkey_def)
  show "blk_value it = Some (snd (entries B ! i))" using at_value [OF a] by (simp add: nval_def)
  show "\<exists>it'. blk_Next it = Some it' \<and> cursor B (i + 1) it'" using Next_cursor [OF a] by simp
  show "\<exists>it'. blk_Prev it = Some it' \<and> cursor B (if i = 0 then length (entries B) else i - 1) it'"
    using Prev_cursor [OF a] a by (cases "i = 0") (auto simp: cursor_def at_def)
qed

context comparator
begin

lemma block_cursor:
  assumes "1 \<le> interval" and "length (build_block interval es) < 2 ^ 32"
    and "sorted_wrt (\<lambda>a b. compare a b < 0) (map fst es)" and "list_all valid (map fst es)"
  shows "\<exists>it pos. NewIterator (new_Block (build_block interval es)) = Inr it \<and> pos (length es) it \<and> cursor_over compare valid es pos"
proof -
  from build_block_laid [OF assms(1,2)] obtain B where B: "laid B" "entries B = es" "build_block interval es = layout_bytes B" by blast
  from NewIterator_laid [OF B(1)] obtain it where it: "NewIterator (new_Block (build_block interval es)) = Inr it" "at_end B it" unfolding B(3) by blast
  have "cursor_over compare valid es (cursor B)"
    using laid_cursor [of valid compare B] sorted_splits [of B] assms(3,4) B(2) by simp
  moreover have "cursor B (length es) it" using it(2) B(2) by (simp add: cursor_def)
  ultimately show ?thesis using it(1) by blast
qed

end

section \<open>Properties\<close>

text \<open>
  C36. The iterator of a block is a cursor over the entries that were added to it. For every restart
  interval and all entries whose internal keys increase, as long as the finished block is smaller
  than 4 GiB, there is a relation between positions and iterator states such that the iterator of
  the finished block starts beyond the end, and from every state at every position: the iterator is
  valid exactly before the end, and then shows the key and the value of the entry; \<^verbatim>\<open>Next\<close> and \<^verbatim>\<open>Prev\<close>
  move by one entry; \<^verbatim>\<open>SeekToFirst\<close> and \<^verbatim>\<open>SeekToLast\<close> move to the ends; \<^verbatim>\<open>Seek\<close> moves to the first
  entry whose key is not smaller than the target. All calls return, none reads outside of the
  block, and no corruption is reported.
\<close>

theorem block_refines:
  assumes "1 \<le> interval" and "length (build_block interval es) < 2 ^ 32"
    and "sorted_wrt (\<lambda>a b. InternalKeyCompare BytewiseCompare a b < 0) (map fst es)" and "list_all (\<lambda>k. 8 \<le> length k) (map fst es)"
  shows "\<exists>it pos. NewIterator (new_Block (build_block interval es)) = Inr it \<and> pos (length es) it \<and>
     cursor_over (InternalKeyCompare BytewiseCompare) (\<lambda>k. 8 \<le> length k) es pos"
  by (rule dbkeys.internal.block_cursor [OF assms])

theorem block_refines_witness:
  "let es = [([97, 1, 5, 0, 0, 0, 0, 0, 0], [1]), ([97, 98, 1, 5, 0, 0, 0, 0, 0, 0], [2]), ([98, 1, 5, 0, 0, 0, 0, 0, 0], [3])]
   in \<exists>it0 it1. NewIterator (new_Block (build_block 2 es)) = Inr it0 \<and>
        blk_Seek (InternalKeyCompare BytewiseCompare) [97, 97, 1, 9, 0, 0, 0, 0, 0, 0] it0 = Some it1 \<and>
        it_key it1 = [97, 98, 1, 5, 0, 0, 0, 0, 0, 0] \<and> blk_value it1 = Some [2]"
proof -
  let ?c = "InternalKeyCompare BytewiseCompare" and ?t = "[97, 97, 1, 9, 0, 0, 0, 0, 0, 0] :: slice"
  define es :: "(slice \<times> slice) list" where
    "es = [([97, 1, 5, 0, 0, 0, 0, 0, 0], [1]), ([97, 98, 1, 5, 0, 0, 0, 0, 0, 0], [2]), ([98, 1, 5, 0, 0, 0, 0, 0, 0], [3])]"
  have "length (build_block 2 es) < 100" unfolding es_def by code_simp
  then have l: "length (build_block 2 es) < 2 ^ 32" by simp
  have s: "sorted_wrt (\<lambda>a b. ?c a b < 0) (map fst es)" "list_all (\<lambda>k. 8 \<le> length k) (map fst es)"
    "length (takeWhile (\<lambda>e. ?c (fst e) ?t < 0) es) = 1" unfolding es_def by code_simp+
  from block_refines [of 2, OF _ l s(1,2)] obtain it0 pos where
    p: "NewIterator (new_Block (build_block 2 es)) = Inr it0" "pos (length es) it0" "cursor_over ?c (\<lambda>k. 8 \<le> length k) es pos" by auto
  from cursor_over_Seek [OF p(3,2), of ?t] obtain it1 where
    it1: "blk_Seek ?c ?t it0 = Some it1" "pos 1 it1" unfolding s(3) by auto
  have "1 < length es" "es ! 1 = ([97, 98, 1, 5, 0, 0, 0, 0, 0, 0], [2])" by (simp_all add: es_def)
  with cursor_over_entry [OF p(3) it1(2)] p(1) it1(1) show ?thesis unfolding Let_def es_def [symmetric] by auto
qed

text \<open>
  A corrupted entry can lead the iterator out of the block: the sum of the two lengths wraps around
  to a small number, the check of \<^verbatim>\<open>DecodeEntry\<close> passes, and the key bytes are copied from beyond the end.
\<close>

lemma corrupt_entry_overruns:
  "\<exists>it. NewIterator (new_Block [0, 255, 255, 255, 255, 15, 1, 0, 0, 0, 0, 1, 0, 0, 0]) = Inr it \<and> blk_SeekToFirst it = None"
proof -
  let ?data = "[0, 255, 255, 255, 255, 15, 1, 0, 0, 0, 0, 1, 0, 0, 0] :: byte list"
  have n: "NumRestarts ?data 15 = 1" by (simp add: NumRestarts_def DecodeFixed32_def)
  have len: "length ?data = 15" by simp
  have "new_Block ?data = \<lparr> bdata = ?data, bsize = 15, restart_offset = 7 \<rparr>" unfolding new_Block_def Let_def len n by simp
  then have it: "NewIterator (new_Block ?data) = Inr (new_Iter ?data 7 1)" by (simp add: n NewIterator_def)
  have r: "GetRestartPoint (new_Iter ?data 7 1) 0 = 0" by (simp add: GetRestartPoint_def new_Iter_def DecodeFixed32_def)
  have d: "DecodeEntry ?data 0 7 = Some (0, 4294967295, 1, 7)"
    by (simp add: DecodeEntry_def GetVarint32Ptr_def GetVarint32PtrFallback_def Let_def)
  have "ParseNextKey (SeekToRestartPoint 0 (new_Iter ?data 7 1)) = None"
    using r d by (simp add: ParseNextKey_def SeekToRestartPoint_def NextEntryOffset_def) (simp add: new_Iter_def)
  then show ?thesis unfolding it by (simp add: blk_SeekToFirst_def)
qed

end
