(* ===== verification/TableBuild.thy ===== *)
theory TableBuild
  imports TableFormat FilterBlock
begin

text \<open>
  Writing a table, \<^verbatim>\<open>leveldb/table/table_builder.cc\<close>: data blocks, each followed by its type and
  checksum, then the filter block, the metaindex block, the index block and the footer. The index
  entry of a data block is written when the first key of the next one is known, with a short key
  between the two. The theory shows what the file of a finished table holds.
\<close>

section \<open>Definitions\<close>

record table_options =
  o_compare :: "slice \<Rightarrow> slice \<Rightarrow> int"
  o_separator :: "slice \<Rightarrow> slice \<Rightarrow> slice"
  o_successor :: "slice \<Rightarrow> slice"
  o_block_size :: nat
  o_restart_interval :: int
  o_compression :: CompressionType
  o_zstd_level :: int
  o_filter :: "(slice \<times> (slice list \<Rightarrow> slice \<Rightarrow> slice) \<times> (slice \<Rightarrow> slice \<Rightarrow> bool)) option"
  o_paranoid_checks :: bool

record 'f table_builder =
  tb_file :: 'f
  tb_offset :: u64
  tb_status :: status
  tb_data :: BlockBuilder
  tb_index :: BlockBuilder
  tb_last_key :: slice
  tb_num_entries :: int
  tb_closed :: bool
  tb_filter :: "FilterBlockBuilder option"
  tb_pending :: bool
  tb_handle :: BlockHandle

definition on_filter ::
  "table_options \<Rightarrow> ((slice list \<Rightarrow> slice \<Rightarrow> slice) \<Rightarrow> FilterBlockBuilder \<Rightarrow> FilterBlockBuilder) \<Rightarrow> FilterBlockBuilder option \<Rightarrow> FilterBlockBuilder option" where
  "on_filter opts g fb = (case (o_filter opts, fb) of (Some (name, create, may), Some st) \<Rightarrow> Some (g create st) | _ \<Rightarrow> fb)"

definition new_TableBuilder :: "table_options \<Rightarrow> 'f \<Rightarrow> 'f table_builder" where
  "new_TableBuilder opts f =
     \<lparr> tb_file = f, tb_offset = 0, tb_status = OK, tb_data = new_BlockBuilder, tb_index = new_BlockBuilder, tb_last_key = [],
       tb_num_entries = 0, tb_closed = False,
       tb_filter = on_filter opts (\<lambda>create. StartBlock create 0) (if o_filter opts = None then None else Some new_builder),
       tb_pending = False, tb_handle = new_BlockHandle \<rparr>"

definition compress_block :: "table_options \<Rightarrow> port \<Rightarrow> slice \<Rightarrow> slice \<times> CompressionType" where
  "compress_block opts P raw = (case o_compression opts of
     kNoCompression \<Rightarrow> (raw, kNoCompression)
   | kSnappyCompression \<Rightarrow> (case Snappy_Compress P raw of
       Some compressed \<Rightarrow> if length compressed < length raw - length raw div 8 then (compressed, kSnappyCompression) else (raw, kNoCompression)
     | None \<Rightarrow> (raw, kNoCompression))
   | kZstdCompression \<Rightarrow> (case Zstd_Compress P (o_zstd_level opts) raw of
       Some compressed \<Rightarrow> if length compressed < length raw - length raw div 8 then (compressed, kZstdCompression) else (raw, kNoCompression)
     | None \<Rightarrow> (raw, kNoCompression)))"

definition block_trailer :: "(u32 \<Rightarrow> byte list \<Rightarrow> u32) \<Rightarrow> slice \<Rightarrow> CompressionType \<Rightarrow> byte list" where
  "block_trailer crcx contents t =
     (let crc = crc_Value crcx contents; crc = crcx crc [compression_code t] in compression_code t # EncodeFixed32 (Mask crc))"

definition WriteRawBlock ::
  "(u32 \<Rightarrow> byte list \<Rightarrow> u32) \<Rightarrow> ('f \<Rightarrow> byte list \<Rightarrow> status \<times> 'f) \<Rightarrow> slice \<Rightarrow> CompressionType \<Rightarrow> 'f table_builder \<Rightarrow> BlockHandle \<times> 'f table_builder" where
  "WriteRawBlock crcx fappend contents t r =
     (let handle = \<lparr> bh_offset = tb_offset r, bh_size = of_nat (length contents) \<rparr>;
          (s, f) = fappend (tb_file r) contents;
          r = r\<lparr> tb_status := s, tb_file := f \<rparr>
      in if ok s
         then (let (s, f) = fappend (tb_file r) (block_trailer crcx contents t);
                   r = r\<lparr> tb_status := s, tb_file := f \<rparr>
               in (handle, if ok s then r\<lparr> tb_offset := tb_offset r + of_nat (length contents + kBlockTrailerSize) \<rparr> else r))
         else (handle, r))"

definition WriteBlock ::
  "table_options \<Rightarrow> port \<Rightarrow> (u32 \<Rightarrow> byte list \<Rightarrow> u32) \<Rightarrow> ('f \<Rightarrow> byte list \<Rightarrow> status \<times> 'f) \<Rightarrow> BlockBuilder \<Rightarrow> 'f table_builder \<Rightarrow>
     BlockHandle \<times> BlockBuilder \<times> 'f table_builder" where
  "WriteBlock opts P crcx fappend b r =
     (let (raw, b) = bb_Finish b; (contents, t) = compress_block opts P raw;
          (handle, r) = WriteRawBlock crcx fappend contents t r
      in (handle, bb_Reset b, r))"

definition tb_Flush ::
  "table_options \<Rightarrow> port \<Rightarrow> (u32 \<Rightarrow> byte list \<Rightarrow> u32) \<Rightarrow> ('f \<Rightarrow> byte list \<Rightarrow> status \<times> 'f) \<Rightarrow> ('f \<Rightarrow> status \<times> 'f) \<Rightarrow> 'f table_builder \<Rightarrow> 'f table_builder" where
  "tb_Flush opts P crcx fappend fflush r =
     (if \<not> ok (tb_status r) then r
      else if buffer (tb_data r) = [] then r
      else (let (handle, b, r) = WriteBlock opts P crcx fappend (tb_data r) r;
                r = r\<lparr> tb_data := b, tb_handle := handle \<rparr>;
                r = (if ok (tb_status r)
                     then (let (s, f) = fflush (tb_file r) in r\<lparr> tb_pending := True, tb_status := s, tb_file := f \<rparr>) else r)
            in r\<lparr> tb_filter := on_filter opts (\<lambda>create. StartBlock create (unat (tb_offset r))) (tb_filter r) \<rparr>))"

text \<open>The index entry of the last block, with a key that \<^term>\<open>key\<close> makes of the last key.\<close>

definition add_index_entry :: "(slice \<Rightarrow> slice) \<Rightarrow> 'f table_builder \<Rightarrow> 'f table_builder" where
  "add_index_entry key r =
     (if tb_pending r
      then (let last_key = key (tb_last_key r)
            in r\<lparr> tb_last_key := last_key, tb_index := bb_Add 1 last_key (BlockHandle_EncodeTo (tb_handle r) []) (tb_index r), tb_pending := False \<rparr>)
      else r)"

definition tb_Add ::
  "table_options \<Rightarrow> port \<Rightarrow> (u32 \<Rightarrow> byte list \<Rightarrow> u32) \<Rightarrow> ('f \<Rightarrow> byte list \<Rightarrow> status \<times> 'f) \<Rightarrow> ('f \<Rightarrow> status \<times> 'f) \<Rightarrow> slice \<Rightarrow> slice \<Rightarrow> 'f table_builder \<Rightarrow> 'f table_builder" where
  "tb_Add opts P crcx fappend fflush key value r =
     (if \<not> ok (tb_status r) then r
      else (let r = add_index_entry (\<lambda>last_key. o_separator opts last_key key) r;
                r = r\<lparr> tb_filter := on_filter opts (\<lambda>create. AddKey key) (tb_filter r), tb_last_key := key,
                       tb_num_entries := tb_num_entries r + 1, tb_data := bb_Add (o_restart_interval opts) key value (tb_data r) \<rparr>
            in if o_block_size opts \<le> CurrentSizeEstimate (tb_data r) then tb_Flush opts P crcx fappend fflush r else r))"

definition write_filter_block ::
  "table_options \<Rightarrow> (u32 \<Rightarrow> byte list \<Rightarrow> u32) \<Rightarrow> ('f \<Rightarrow> byte list \<Rightarrow> status \<times> 'f) \<Rightarrow> 'f table_builder \<Rightarrow> BlockHandle \<times> 'f table_builder" where
  "write_filter_block opts crcx fappend r =
     (case (o_filter opts, tb_filter r) of
        (Some (name, create, may), Some st) \<Rightarrow> if ok (tb_status r) then WriteRawBlock crcx fappend (Finish create st) kNoCompression r else (new_BlockHandle, r)
      | _ \<Rightarrow> (new_BlockHandle, r))"

definition metaindex_builder :: "table_options \<Rightarrow> BlockHandle \<Rightarrow> BlockBuilder" where
  "metaindex_builder opts filter_handle = (case o_filter opts of
     None \<Rightarrow> new_BlockBuilder
   | Some (name, create, may) \<Rightarrow>
       bb_Add (o_restart_interval opts) (bytes_of ''filter.'' @ name) (BlockHandle_EncodeTo filter_handle []) new_BlockBuilder)"

definition tb_Finish ::
  "table_options \<Rightarrow> port \<Rightarrow> (u32 \<Rightarrow> byte list \<Rightarrow> u32) \<Rightarrow> ('f \<Rightarrow> byte list \<Rightarrow> status \<times> 'f) \<Rightarrow> ('f \<Rightarrow> status \<times> 'f) \<Rightarrow> 'f table_builder \<Rightarrow> status \<times> 'f table_builder" where
  "tb_Finish opts P crcx fappend fflush r =
     (let r = tb_Flush opts P crcx fappend fflush r;
          r = r\<lparr> tb_closed := True \<rparr>;
          (filter_handle, r) = write_filter_block opts crcx fappend r;
          (metaindex, r) = (if ok (tb_status r)
             then (let (h, b, r) = WriteBlock opts P crcx fappend (metaindex_builder opts filter_handle) r in (h, r)) else (new_BlockHandle, r));
          (index, r) = (if ok (tb_status r)
             then (let r = add_index_entry (o_successor opts) r;
                       (h, b, r) = WriteBlock opts P crcx fappend (tb_index r) r in (h, r\<lparr> tb_index := b \<rparr>)) else (new_BlockHandle, r));
          r = (if ok (tb_status r)
             then (let enc = Footer_EncodeTo \<lparr> metaindex_handle = metaindex, index_handle = index \<rparr> [];
                       (s, f) = fappend (tb_file r) enc; r = r\<lparr> tb_status := s, tb_file := f \<rparr>
                   in if ok s then r\<lparr> tb_offset := tb_offset r + of_nat (length enc) \<rparr> else r) else r)
      in (tb_status r, r))"

definition tb_Abandon :: "'f table_builder \<Rightarrow> 'f table_builder" where
  "tb_Abandon r = r\<lparr> tb_closed := True \<rparr>"

definition tb_NumEntries :: "'f table_builder \<Rightarrow> u64" where
  "tb_NumEntries r = of_int (tb_num_entries r)"

definition tb_FileSize :: "'f table_builder \<Rightarrow> u64" where
  "tb_FileSize r = tb_offset r"

section \<open>What the builder needs from a file and from the compression libraries\<close>

locale status_file =
  fixes fappend :: "'f \<Rightarrow> byte list \<Rightarrow> status \<times> 'f"
    and fflush :: "'f \<Rightarrow> status \<times> 'f"
    and fvalid :: "'f \<Rightarrow> bool"
    and bytes :: "'f \<Rightarrow> byte list"
  assumes append_law: "fvalid f \<Longrightarrow> \<exists>f'. fappend f xs = (OK, f') \<and> fvalid f' \<and> bytes f' = bytes f @ xs"
    and flush_law: "fvalid f \<Longrightarrow> \<exists>f'. fflush f = (OK, f') \<and> fvalid f' \<and> bytes f' = bytes f"

locale compressor =
  fixes P :: port
  assumes snappy_law: "raw \<noteq> [] \<Longrightarrow> Snappy_Compress P raw = Some c \<Longrightarrow>
      Snappy_GetUncompressedLength P c = Some (length raw) \<and> Snappy_Uncompress P c (length raw) = Some raw"
    and zstd_law: "raw \<noteq> [] \<Longrightarrow> Zstd_Compress P lv raw = Some c \<Longrightarrow>
      Zstd_GetUncompressedLength P c = Some (length raw) \<and> Zstd_Uncompress P c (length raw) = Some raw"

interpretation no_libraries: compressor port_without_libraries
  by unfold_locales (simp_all add: port_without_libraries_def)

section \<open>What a file holds\<close>

text \<open>The contents of a block and its trailer stand at an offset of the file.\<close>

definition stored :: "(u32 \<Rightarrow> byte list \<Rightarrow> u32) \<Rightarrow> byte list \<Rightarrow> nat \<Rightarrow> slice \<Rightarrow> CompressionType \<Rightarrow> bool" where
  "stored crcx bs at_offset contents t \<longleftrightarrow> at_offset + length contents + 5 \<le> length bs \<and>
     take (length contents + 5) (drop at_offset bs) = contents @ block_trailer crcx contents t"

lemma trailer_length [simp]: "length (block_trailer crcx contents t) = 5"
  by (simp add: block_trailer_def Let_def)

lemma stored_append: "stored crcx bs n contents t \<Longrightarrow> stored crcx (bs @ xs) n contents t"
  by (simp add: stored_def)

lemma stored_here: "stored crcx (bs @ contents @ block_trailer crcx contents t) (length bs) contents t"
  by (simp add: stored_def)

text \<open>The entries of a data block, its place in the file, and what is stored there.\<close>

record data_block =
  d_entries :: "(slice \<times> slice) list"
  d_offset :: nat
  d_contents :: slice
  d_type :: CompressionType

definition handle_of :: "nat \<Rightarrow> slice \<Rightarrow> BlockHandle" where
  "handle_of n contents = \<lparr> bh_offset = of_nat n, bh_size = of_nat (length contents) \<rparr>"

definition d_handle :: "data_block \<Rightarrow> BlockHandle" where
  "d_handle d = handle_of (d_offset d) (d_contents d)"

definition d_key :: "data_block \<Rightarrow> slice" where
  "d_key d = fst (last (d_entries d))"

definition in_file :: "table_options \<Rightarrow> port \<Rightarrow> (u32 \<Rightarrow> byte list \<Rightarrow> u32) \<Rightarrow> byte list \<Rightarrow> data_block \<Rightarrow> bool" where
  "in_file opts P crcx bs d \<longleftrightarrow> d_entries d \<noteq> [] \<and> stored crcx bs (d_offset d) (d_contents d) (d_type d) \<and>
     (d_contents d, d_type d) = compress_block opts P (build_block (o_restart_interval opts) (d_entries d))"

definition index_entries :: "slice list \<Rightarrow> data_block list \<Rightarrow> (slice \<times> slice) list" where
  "index_entries seps ds = zip seps (map (\<lambda>d. BlockHandle_EncodeTo (d_handle d) []) ds)"

definition filter_calls :: "data_block list \<Rightarrow> u64 \<Rightarrow> (slice \<times> slice) list \<Rightarrow> (nat \<times> slice list) list" where
  "filter_calls ds offset cur = map (\<lambda>d. (unat (of_nat (d_offset d) :: u64), map fst (d_entries d))) ds @ [(unat offset, map fst cur)]"

definition bb_adds :: "int \<Rightarrow> (slice \<times> slice) list \<Rightarrow> BlockBuilder" where
  "bb_adds interval es = fold (\<lambda>(k, v). bb_Add interval k v) es new_BlockBuilder"

lemma bb_adds_simps [simp]: "bb_adds interval [] = new_BlockBuilder" "bb_adds interval (es @ [(k, v)]) = bb_Add interval k v (bb_adds interval es)"
  by (simp_all add: bb_adds_def)

lemma bb_Finish_adds: "\<exists>b. bb_Finish (bb_adds interval es) = (build_block interval es, b)"
  unfolding build_block_def bb_adds_def by (metis prod.collapse)

lemma bb_Reset_new [simp]: "bb_Reset b = new_BlockBuilder"
  by (simp add: bb_Reset_def new_BlockBuilder_def)

lemma bb_adds_empty: "buffer (bb_adds interval es) = [] \<longleftrightarrow> es = []"
proof (cases es rule: rev_cases)
  case (snoc xs e)
  then show ?thesis by (cases e) (simp add: bb_Add_def Let_def PutVarint32_def split: prod.split)
qed (simp add: new_BlockBuilder_def)

text \<open>The sizes of blocks.\<close>

definition entries_size :: "nat \<Rightarrow> (slice \<times> slice) list \<Rightarrow> nat" where
  "entries_size c es = sum_list (map (\<lambda>(k, v). length k + length v + c) es)"

lemma entries_size_simps [simp]:
  "entries_size c [] = 0" "entries_size c (e # es) = length (fst e) + length (snd e) + c + entries_size c es"
  "entries_size c (es @ es') = entries_size c es + entries_size c es'"
  by (simp_all add: entries_size_def split: prod.split)

lemma bb_Add_size: "CurrentSizeEstimate (bb_Add interval k v b) \<le> CurrentSizeEstimate b + length k + length v + 19"
proof -
  have "length (EncodeVarint32 a) + length (EncodeVarint32 b) + length (EncodeVarint32 c) \<le> 15" for a b c
    using varint32_length [of a] varint32_length [of b] varint32_length [of c] by simp
  from this [of "of_nat (diff_index (last_key b) k)" "of_nat (length k - diff_index (last_key b) k)" "of_nat (length v)"]
    this [of 0 "of_nat (length k)" "of_nat (length v)"]
  show ?thesis by (cases "counter b < interval") (simp_all add: bb_Add_def CurrentSizeEstimate_def Let_def PutVarint32_def)
qed

lemma bb_adds_size: "CurrentSizeEstimate (bb_adds interval es) \<le> entries_size 19 es + 8"
proof (induction es rule: rev_induct)
  case (snoc e es)
  then show ?case using bb_Add_size [of interval "fst e" "snd e" "bb_adds interval es"] by (cases e) simp
qed (simp add: CurrentSizeEstimate_def new_BlockBuilder_def)

lemma PutFixed32_length: "length (PutFixed32 dst v) = length dst + 4"
  by (simp add: PutFixed32_def)

lemma fold_PutFixed32_length: "length (fold (\<lambda>v dst. PutFixed32 dst v) vs dst) = length dst + 4 * length vs"
  by (induction vs arbitrary: dst) (simp_all add: PutFixed32_length)

lemma bb_Finish_size: "length (fst (bb_Finish b)) = CurrentSizeEstimate b"
  by (simp add: bb_Finish_def Let_def PutFixed32_length fold_PutFixed32_length CurrentSizeEstimate_def)

lemma build_block_size: "length (build_block interval es) \<le> entries_size 19 es + 8" and build_block_nonempty: "build_block interval es \<noteq> []"
proof -
  have l: "length (build_block interval es) = CurrentSizeEstimate (bb_adds interval es)"
    unfolding build_block_def bb_adds_def by (rule bb_Finish_size)
  show "length (build_block interval es) \<le> entries_size 19 es + 8" unfolding l by (rule bb_adds_size)
  have "0 < length (build_block interval es)" unfolding l by (simp add: CurrentSizeEstimate_def)
  then show "build_block interval es \<noteq> []" by simp
qed

lemma entry_in_size: "e \<in> set es \<Longrightarrow> length (fst e) + c \<le> entries_size c es"
  by (induction es) auto

lemma block_in_size: "d \<in> set ds \<Longrightarrow> entries_size c (d_entries d) \<le> entries_size c (concat (map d_entries ds))"
  by (induction ds) auto

lemma entries_size_mono: "a \<le> b \<Longrightarrow> entries_size a es \<le> entries_size b es"
  by (induction es) auto

lemma compress_block_length: "(contents, t) = compress_block opts P raw \<Longrightarrow> length contents \<le> length raw"
  by (auto simp: compress_block_def split: CompressionType.splits option.splits if_splits)

lemma data_block_size:
  assumes "(contents, t) = compress_block opts P (build_block interval es)" and "es \<noteq> []"
  shows "length contents + 5 \<le> entries_size 32 es"
proof -
  have "entries_size 19 es + 13 * length es = entries_size 32 es" by (induction es) simp_all
  moreover have "1 \<le> length es" using assms(2) by (cases es) simp_all
  ultimately show ?thesis using compress_block_length [OF assms(1)] build_block_size [of interval es] by linarith
qed

definition next_key :: "data_block list \<Rightarrow> (slice \<times> slice) list \<Rightarrow> nat \<Rightarrow> slice" where
  "next_key ds cur j = fst (hd (concat (map d_entries (drop (Suc j) ds)) @ cur))"

text \<open>
  The state of the builder after the blocks \<^term>\<open>ds\<close> were written and the entries \<^term>\<open>cur\<close> collected
  for the next one; \<^term>\<open>seps\<close> are the keys of the index entries made so far.
\<close>

definition builder_state ::
  "table_options \<Rightarrow> port \<Rightarrow> (u32 \<Rightarrow> byte list \<Rightarrow> u32) \<Rightarrow> ('f \<Rightarrow> byte list) \<Rightarrow> data_block list \<Rightarrow> (slice \<times> slice) list \<Rightarrow> slice list \<Rightarrow> 'f table_builder \<Rightarrow> bool" where
  "builder_state opts P crcx bytes ds cur seps r \<longleftrightarrow>
     tb_status r = OK \<and> tb_offset r = of_nat (length (bytes (tb_file r))) \<and>
     tb_data r = bb_adds (o_restart_interval opts) cur \<and> (\<forall>d\<in>set ds. in_file opts P crcx (bytes (tb_file r)) d) \<and>
     sorted (map d_offset ds @ [length (bytes (tb_file r))]) \<and> length (bytes (tb_file r)) \<le> entries_size 32 (concat (map d_entries ds)) \<and>
     tb_pending r = (ds \<noteq> [] \<and> cur = []) \<and> length seps = (if tb_pending r then length ds - 1 else length ds) \<and>
     tb_index r = bb_adds 1 (index_entries seps ds) \<and> (tb_pending r \<longrightarrow> tb_handle r = d_handle (last ds)) \<and>
     (concat (map d_entries ds) @ cur \<noteq> [] \<longrightarrow> tb_last_key r = fst (last (concat (map d_entries ds) @ cur))) \<and>
     (\<forall>j<length seps. seps ! j = o_separator opts (d_key (ds ! j)) (next_key ds cur j)) \<and>
     tb_filter r = map_option (\<lambda>(name, create, may). add_blocks create (filter_calls ds (tb_offset r) cur)) (o_filter opts)"

lemma new_builder_state:
  assumes "bytes f = []"
  shows "builder_state opts P crcx bytes [] [] [] (new_TableBuilder opts f)"
  using assms by (simp add: builder_state_def new_TableBuilder_def index_entries_def filter_calls_def add_blocks_def on_filter_def split: prod.split option.split)

lemma concat_entries_last:
  "ds \<noteq> [] \<Longrightarrow> \<forall>d\<in>set ds. d_entries d \<noteq> [] \<Longrightarrow> concat (map d_entries ds) \<noteq> [] \<and> last (concat (map d_entries ds)) = last (d_entries (last ds))"
proof (induction ds rule: rev_induct)
  case (snoc d ds)
  then show ?case by simp
qed simp

lemma index_entries_snoc:
  "length seps < length ds \<Longrightarrow> index_entries (seps @ [k]) ds = index_entries seps ds @ [(k, BlockHandle_EncodeTo (d_handle (ds ! length seps)) [])]"
  unfolding index_entries_def
proof (induction seps arbitrary: ds)
  case Nil
  then show ?case by (cases ds) simp_all
next
  case (Cons s seps)
  then show ?case by (cases ds) simp_all
qed

lemma index_entries_grow: "length seps \<le> length ds \<Longrightarrow> index_entries seps (ds @ [d]) = index_entries seps ds"
  by (simp add: index_entries_def zip_append2)

text \<open>The index entry of a pending block.\<close>

lemma add_index_entry_state:
  assumes "builder_state opts P crcx bytes ds [] seps r" and "ds \<noteq> []"
  shows "add_index_entry g r = r\<lparr> tb_last_key := g (d_key (last ds)), tb_index := bb_adds 1 (index_entries (seps @ [g (d_key (last ds))]) ds), tb_pending := False \<rparr>"
    and "Suc (length seps) = length ds"
proof -
  have p: "tb_pending r" "length seps = length ds - 1" "tb_handle r = d_handle (last ds)" "tb_index r = bb_adds 1 (index_entries seps ds)"
    "\<forall>d\<in>set ds. d_entries d \<noteq> []" "concat (map d_entries ds) \<noteq> [] \<longrightarrow> tb_last_key r = fst (last (concat (map d_entries ds)))"
    using assms by (auto simp: builder_state_def in_file_def)
  show n: "Suc (length seps) = length ds" using p(2) assms(2) by (cases ds) simp_all
  have l: "tb_last_key r = d_key (last ds)" using p(5,6) concat_entries_last [OF assms(2)] by (auto simp: d_key_def)
  have "ds ! length seps = last ds" using p(2) assms(2) by (simp add: last_conv_nth)
  then show "add_index_entry g r = r\<lparr> tb_last_key := g (d_key (last ds)), tb_index := bb_adds 1 (index_entries (seps @ [g (d_key (last ds))]) ds), tb_pending := False \<rparr>"
    using p(1,3,4) l n index_entries_snoc [of seps ds "g (d_key (last ds))"] by (simp add: add_index_entry_def Let_def)
qed

lemma next_key_snoc: "concat (map d_entries (drop (Suc j) ds)) @ cur \<noteq> [] \<Longrightarrow> next_key ds (cur @ [e]) j = next_key ds cur j"
  unfolding next_key_def by (metis append_assoc hd_append2)

lemma filter_calls_add: "fold AddKey new (add_blocks create (filter_calls ds w cur)) = add_blocks create (filter_calls ds w (cur @ map (\<lambda>k. (k, v)) new))"
  by (simp add: add_blocks_def filter_calls_def comp_def)

text \<open>Collecting an entry, before the block may be flushed.\<close>

definition collect ::
  "table_options \<Rightarrow> slice \<Rightarrow> slice \<Rightarrow> 'f table_builder \<Rightarrow> 'f table_builder" where
  "collect opts key v r =
     (let r = add_index_entry (\<lambda>last_key. o_separator opts last_key key) r
      in r\<lparr> tb_filter := on_filter opts (\<lambda>create. AddKey key) (tb_filter r), tb_last_key := key,
            tb_num_entries := tb_num_entries r + 1, tb_data := bb_Add (o_restart_interval opts) key v (tb_data r) \<rparr>)"

lemma collect_filter:
  "tb_filter r = map_option (\<lambda>(name, create, may). add_blocks create (filter_calls ds w cur)) (o_filter opts) \<Longrightarrow>
     on_filter opts (\<lambda>create. AddKey key) (tb_filter r) =
     map_option (\<lambda>(name, create, may). add_blocks create (filter_calls ds w (cur @ [(key, v)]))) (o_filter opts)"
  using filter_calls_add [of "[key]" _ ds w cur v] by (auto simp: on_filter_def split: option.split)

lemma collect_state:
  assumes "builder_state opts P crcx bytes ds cur seps r"
  shows "\<exists>seps'. builder_state opts P crcx bytes ds (cur @ [(key, v)]) seps' (collect opts key v r)"
    and "tb_file (collect opts key v r) = tb_file r"
proof -
  show "tb_file (collect opts key v r) = tb_file r" by (simp add: collect_def add_index_entry_def Let_def)
  show "\<exists>seps'. builder_state opts P crcx bytes ds (cur @ [(key, v)]) seps' (collect opts key v r)"
  proof (cases "ds \<noteq> [] \<and> cur = []")
    case True
    then have s: "builder_state opts P crcx bytes ds [] seps r" "ds \<noteq> []" using assms by simp_all
    let ?sep = "o_separator opts (d_key (last ds)) key"
    note a = add_index_entry_state(1) [OF s, of "\<lambda>last_key. o_separator opts last_key key"] add_index_entry_state(2) [OF s]
    have ne: "\<forall>d\<in>set ds. d_entries d \<noteq> []" using s(1) by (auto simp: builder_state_def in_file_def)
    have nk: "next_key ds [(key, v)] j = next_key ds [] j" if "j < length seps" for j
    proof -
      have "drop (Suc j) ds \<noteq> []" using that a(2) by simp
      then have "concat (map d_entries (drop (Suc j) ds)) \<noteq> []" using ne concat_entries_last [of "drop (Suc j) ds"] by (meson in_set_dropD)
      then show ?thesis using next_key_snoc [of j ds "[]" "(key, v)"] by simp
    qed
    have "ds ! length seps = last ds" using a(2) s(2) by (metis diff_Suc_1 last_conv_nth)
    moreover have "next_key ds [(key, v)] (length seps) = key" using a(2) by (simp add: next_key_def)
    ultimately have seps: "\<forall>j<Suc (length seps). (seps @ [?sep]) ! j = o_separator opts (d_key (ds ! j)) (next_key ds [(key, v)] j)"
      using s(1) nk by (auto simp: builder_state_def less_Suc_eq nth_append)
    have "builder_state opts P crcx bytes ds [(key, v)] (seps @ [?sep]) (collect opts key v r)"
      using s(1) seps a(2) collect_filter [of r ds "tb_offset r" "[]" opts key v]
      by (simp add: builder_state_def collect_def a(1) Let_def bb_adds_def)
    with True show ?thesis by auto
  next
    case False
    then have np: "\<not> tb_pending r" "length seps = length ds" using assms by (auto simp: builder_state_def)
    have nk: "next_key ds (cur @ [(key, v)]) j = next_key ds cur j" if "j < length ds" for j
      by (rule next_key_snoc) (use False that in auto)
    have "builder_state opts P crcx bytes ds (cur @ [(key, v)]) seps (collect opts key v r)"
      using assms np nk collect_filter [of r ds "tb_offset r" cur opts key v]
      by (simp add: builder_state_def collect_def add_index_entry_def Let_def)
    then show ?thesis by blast
  qed
qed

lemma in_file_append: "in_file opts P crcx bs d \<Longrightarrow> in_file opts P crcx (bs @ xs) d"
  by (simp add: in_file_def stored_append)

lemma flush_filter:
  assumes "tb_filter r = map_option (\<lambda>(name, create, may). add_blocks create (filter_calls ds w cur)) (o_filter opts)"
    and "w = of_nat (d_offset d)" and "d_entries d = cur"
  shows "on_filter opts (\<lambda>create. StartBlock create (unat w')) (tb_filter r) =
     map_option (\<lambda>(name, create, may). add_blocks create (filter_calls (ds @ [d]) w' [])) (o_filter opts)"
  using assms by (auto simp: on_filter_def filter_calls_def add_blocks_def split: option.split)

context status_file
begin

lemma WriteRawBlock_file:
  assumes "fvalid (tb_file r)"
  obtains f where "WriteRawBlock crcx fappend contents t r =
      (\<lparr> bh_offset = tb_offset r, bh_size = of_nat (length contents) \<rparr>,
       r\<lparr> tb_status := OK, tb_file := f, tb_offset := tb_offset r + of_nat (length contents + 5) \<rparr>)"
    and "fvalid f" and "bytes f = bytes (tb_file r) @ contents @ block_trailer crcx contents t"
proof -
  from append_law [OF assms, of contents] obtain f1 where f1: "fappend (tb_file r) contents = (OK, f1)" "fvalid f1" "bytes f1 = bytes (tb_file r) @ contents" by blast
  from append_law [OF f1(2), of "block_trailer crcx contents t"] obtain f2 where
    f2: "fappend f1 (block_trailer crcx contents t) = (OK, f2)" "fvalid f2" "bytes f2 = bytes f1 @ block_trailer crcx contents t" by blast
  show ?thesis by (rule that [of f2]) (use f1 f2 in \<open>simp_all add: WriteRawBlock_def Let_def kBlockTrailerSize_def\<close>)
qed

lemma WriteBlock_file:
  assumes "fvalid (tb_file r)"
  obtains f contents t where "(contents, t) = compress_block opts P (build_block interval es)"
    and "WriteBlock opts P crcx fappend (bb_adds interval es) r =
      (\<lparr> bh_offset = tb_offset r, bh_size = of_nat (length contents) \<rparr>, new_BlockBuilder,
       r\<lparr> tb_status := OK, tb_file := f, tb_offset := tb_offset r + of_nat (length contents + 5) \<rparr>)"
    and "fvalid f" and "bytes f = bytes (tb_file r) @ contents @ block_trailer crcx contents t"
proof -
  obtain contents t where c: "compress_block opts P (build_block interval es) = (contents, t)" by (cases "compress_block opts P (build_block interval es)")
  obtain f where f: "WriteRawBlock crcx fappend contents t r =
      (\<lparr> bh_offset = tb_offset r, bh_size = of_nat (length contents) \<rparr>,
       r\<lparr> tb_status := OK, tb_file := f, tb_offset := tb_offset r + of_nat (length contents + 5) \<rparr>)"
    "fvalid f" "bytes f = bytes (tb_file r) @ contents @ block_trailer crcx contents t" by (rule WriteRawBlock_file [OF assms])
  obtain b where "bb_Finish (bb_adds interval es) = (build_block interval es, b)" using bb_Finish_adds by blast
  with c f show ?thesis by (intro that [of contents t f]) (simp_all add: WriteBlock_def Let_def)
qed

lemma flush_state:
  assumes s: "builder_state opts P crcx bytes ds cur seps r" and "fvalid (tb_file r)" and "cur \<noteq> []"
  obtains d r' where "tb_Flush opts P crcx fappend fflush r = r'" and "d_entries d = cur"
    and "builder_state opts P crcx bytes (ds @ [d]) [] seps r'" and "fvalid (tb_file r')"
proof -
  have st: "tb_status r = OK" "tb_data r = bb_adds (o_restart_interval opts) cur" "tb_offset r = of_nat (length (bytes (tb_file r)))" using s by (simp_all add: builder_state_def)
  obtain f contents t where c: "(contents, t) = compress_block opts P (build_block (o_restart_interval opts) cur)"
    and w: "WriteBlock opts P crcx fappend (tb_data r) r =
      (\<lparr> bh_offset = tb_offset r, bh_size = of_nat (length contents) \<rparr>, new_BlockBuilder,
       r\<lparr> tb_status := OK, tb_file := f, tb_offset := tb_offset r + of_nat (length contents + 5) \<rparr>)"
    and f: "fvalid f" "bytes f = bytes (tb_file r) @ contents @ block_trailer crcx contents t"
    unfolding st(2) by (rule WriteBlock_file [OF assms(2)])
  from flush_law [OF f(1)] obtain f' where f': "fflush f = (OK, f')" "fvalid f'" "bytes f' = bytes f" by blast
  define d where "d = \<lparr> d_entries = cur, d_offset = length (bytes (tb_file r)), d_contents = contents, d_type = t \<rparr>"
  let ?w = "tb_offset r + of_nat (length contents + 5)"
  define r' where "r' = r\<lparr> tb_status := OK, tb_file := f', tb_offset := ?w, tb_data := new_BlockBuilder,
      tb_handle := \<lparr> bh_offset = tb_offset r, bh_size = of_nat (length contents) \<rparr>, tb_pending := True,
      tb_filter := on_filter opts (\<lambda>create. StartBlock create (unat ?w)) (tb_filter r) \<rparr>"
  have run: "tb_Flush opts P crcx fappend fflush r = r'"
    using w f' st bb_adds_empty [of "o_restart_interval opts" cur] assms(3) by (simp add: tb_Flush_def Let_def r'_def)
  have fil: "tb_filter r' = map_option (\<lambda>(name, create, may). add_blocks create (filter_calls (ds @ [d]) ?w [])) (o_filter opts)"
    unfolding r'_def using flush_filter [of r ds "tb_offset r" cur opts d ?w] s st(3) by (simp add: builder_state_def d_def)
  have new: "in_file opts P crcx (bytes f') d"
    unfolding in_file_def d_def f'(3) f(2) using assms(3) c stored_here by simp
  have old: "in_file opts P crcx (bytes f') e" if "e \<in> set ds" for e
    unfolding f'(3) f(2) using s that by (intro in_file_append) (simp add: builder_state_def)
  have np: "length seps = length ds" "\<not> tb_pending r" using s assms(3) by (auto simp: builder_state_def)
  have nk: "next_key (ds @ [d]) [] j = next_key ds cur j" if "j < length ds" for j using that by (simp add: next_key_def d_def)
  have so: "sorted (map d_offset (ds @ [d]) @ [length (bytes f')])"
    using s by (auto simp: builder_state_def sorted_append d_def f'(3) f(2))
  have sz: "length (bytes f') \<le> entries_size 32 (concat (map d_entries (ds @ [d])))"
    using s data_block_size [OF c assms(3)] by (simp add: builder_state_def d_def f'(3) f(2))
  have "builder_state opts P crcx bytes (ds @ [d]) [] seps r'"
    unfolding builder_state_def
    using s np nk so sz new old fil f' f(2) st(3) index_entries_grow [of seps ds d] assms(3)
    by (simp add: builder_state_def r'_def d_handle_def handle_of_def d_def nth_append)
  with run f'(2) show ?thesis by (intro that [of r' d]) (simp_all add: r'_def d_def)
qed

text \<open>Adding entries.\<close>

lemma tb_Add_state:
  assumes "builder_state opts P crcx bytes ds cur seps r" and "fvalid (tb_file r)"
  shows "\<exists>ds' cur' seps'. builder_state opts P crcx bytes ds' cur' seps' (tb_Add opts P crcx fappend fflush k v r) \<and>
     fvalid (tb_file (tb_Add opts P crcx fappend fflush k v r)) \<and> concat (map d_entries ds') @ cur' = concat (map d_entries ds) @ cur @ [(k, v)]"
proof -
  have st: "tb_status r = OK" using assms(1) by (simp add: builder_state_def)
  let ?r = "collect opts k v r"
  have run: "tb_Add opts P crcx fappend fflush k v r =
      (if o_block_size opts \<le> CurrentSizeEstimate (tb_data ?r) then tb_Flush opts P crcx fappend fflush ?r else ?r)"
    using st by (simp add: tb_Add_def collect_def Let_def)
  from collect_state [OF assms(1), of k v] obtain seps' where
    s: "builder_state opts P crcx bytes ds (cur @ [(k, v)]) seps' ?r" "fvalid (tb_file ?r)" using assms(2) by auto
  show ?thesis
  proof (cases "o_block_size opts \<le> CurrentSizeEstimate (tb_data ?r)")
    case False
    with run s show ?thesis by auto
  next
    case True
    obtain d r' where "tb_Flush opts P crcx fappend fflush ?r = r'" "d_entries d = cur @ [(k, v)]"
      "builder_state opts P crcx bytes (ds @ [d]) [] seps' r'" "fvalid (tb_file r')"
      by (rule flush_state [OF s]) simp
    with True run show ?thesis by (intro exI [of _ "ds @ [d]"] exI [of _ "[]"] exI [of _ seps']) simp
  qed
qed

lemma tb_adds_state:
  assumes "builder_state opts P crcx bytes ds cur seps r" and "fvalid (tb_file r)"
  shows "\<exists>ds' cur' seps'. builder_state opts P crcx bytes ds' cur' seps' (fold (\<lambda>(k, v). tb_Add opts P crcx fappend fflush k v) es r) \<and>
     fvalid (tb_file (fold (\<lambda>(k, v). tb_Add opts P crcx fappend fflush k v) es r)) \<and>
     concat (map d_entries ds') @ cur' = concat (map d_entries ds) @ cur @ es"
  using assms
proof (induction es arbitrary: ds cur seps r)
  case (Cons e es)
  obtain k v where e: "e = (k, v)" by (cases e)
  let ?r = "tb_Add opts P crcx fappend fflush k v r"
  from tb_Add_state [OF Cons.prems, of k v] obtain ds1 cur1 seps1 where
    1: "builder_state opts P crcx bytes ds1 cur1 seps1 ?r" "fvalid (tb_file ?r)"
       "concat (map d_entries ds1) @ cur1 = concat (map d_entries ds) @ cur @ [(k, v)]" by blast
  have "concat (map d_entries ds1) @ cur1 @ es = concat (map d_entries ds) @ cur @ e # es"
    using arg_cong [OF 1(3), of "\<lambda>xs. xs @ es"] by (simp add: e)
  with Cons.IH [OF 1(1,2)] show ?case by (simp add: e)
qed auto

end

section \<open>A finished table\<close>

text \<open>What the file of a table with the entries \<^term>\<open>es\<close> holds.\<close>

definition meta_entries :: "table_options \<Rightarrow> BlockHandle \<Rightarrow> (slice \<times> slice) list" where
  "meta_entries opts h = (case o_filter opts of None \<Rightarrow> []
     | Some (name, create, may) \<Rightarrow> [(bytes_of ''filter.'' @ name, BlockHandle_EncodeTo h [])])"

definition stored_raw :: "table_options \<Rightarrow> port \<Rightarrow> (u32 \<Rightarrow> byte list \<Rightarrow> u32) \<Rightarrow> byte list \<Rightarrow> slice \<Rightarrow> BlockHandle \<Rightarrow> bool" where
  "stored_raw opts P crcx bs raw h \<longleftrightarrow> (\<exists>n contents t. stored crcx bs n contents t \<and> (contents, t) = compress_block opts P raw \<and> h = handle_of n contents)"

definition index_ok :: "table_options \<Rightarrow> data_block list \<Rightarrow> slice list \<Rightarrow> bool" where
  "index_ok opts ds seps \<longleftrightarrow> length seps = length ds \<and>
     (\<forall>j. Suc j < length ds \<longrightarrow> seps ! j = o_separator opts (d_key (ds ! j)) (fst (hd (d_entries (ds ! Suc j))))) \<and>
     (ds \<noteq> [] \<longrightarrow> last seps = o_successor opts (d_key (last ds)))"

definition filter_ok :: "table_options \<Rightarrow> (u32 \<Rightarrow> byte list \<Rightarrow> u32) \<Rightarrow> byte list \<Rightarrow> data_block list \<Rightarrow> BlockHandle \<Rightarrow> nat \<Rightarrow> bool" where
  "filter_ok opts crcx bs ds h m \<longleftrightarrow> (case o_filter opts of None \<Rightarrow> m = 0
     | Some (name, create, may) \<Rightarrow> (\<exists>n w. sorted (map d_offset ds @ [w]) \<and> w \<le> length bs \<and> w \<le> entries_size 32 (concat (map d_entries ds)) \<and>
         m = length (Finish create (add_blocks create (filter_calls ds (of_nat w) []))) + 5 \<and>
         stored crcx bs n (Finish create (add_blocks create (filter_calls ds (of_nat w) []))) kNoCompression \<and>
         h = handle_of n (Finish create (add_blocks create (filter_calls ds (of_nat w) [])))))"

definition table_file :: "table_options \<Rightarrow> port \<Rightarrow> (u32 \<Rightarrow> byte list \<Rightarrow> u32) \<Rightarrow> byte list \<Rightarrow> (slice \<times> slice) list \<Rightarrow> bool" where
  "table_file opts P crcx bs es \<longleftrightarrow> (\<exists>ds seps fh footer m body_bytes.
     es = concat (map d_entries ds) \<and> (\<forall>d\<in>set ds. in_file opts P crcx bs d) \<and> index_ok opts ds seps \<and>
     filter_ok opts crcx bs ds fh m \<and>
     stored_raw opts P crcx bs (build_block (o_restart_interval opts) (meta_entries opts fh)) (metaindex_handle footer) \<and>
     stored_raw opts P crcx bs (build_block 1 (index_entries seps ds)) (index_handle footer) \<and>
     bs = body_bytes @ Footer_EncodeTo footer [] \<and>
     length bs \<le> entries_size 32 es + m + length (build_block (o_restart_interval opts) (meta_entries opts fh)) + length (build_block 1 (index_entries seps ds)) + 58)"

lemma stored_raw_append: "stored_raw opts P crcx bs raw h \<Longrightarrow> stored_raw opts P crcx (bs @ xs) raw h"
  unfolding stored_raw_def using stored_append by blast

lemma filter_ok_append: "filter_ok opts crcx bs ds h m \<Longrightarrow> filter_ok opts crcx (bs @ xs) ds h m"
  unfolding filter_ok_def by (auto split: option.splits intro: stored_append) (metis stored_append trans_le_add1)+

lemma stored_raw_here:
  "(contents, t) = compress_block opts P raw \<Longrightarrow>
     stored_raw opts P crcx (bs @ contents @ block_trailer crcx contents t) raw (handle_of (length bs) contents)"
  unfolding stored_raw_def using stored_here by blast

lemma metaindex_builder_adds: "metaindex_builder opts h = bb_adds (o_restart_interval opts) (meta_entries opts h)"
  by (simp add: metaindex_builder_def meta_entries_def bb_adds_def split: option.split)

text \<open>All index entries, once the last block has got its own.\<close>

lemma index_complete:
  assumes "builder_state opts P crcx bytes ds [] seps r" and "ds \<noteq> []"
  shows "index_ok opts ds (seps @ [o_successor opts (d_key (last ds))])"
proof -
  have n: "Suc (length seps) = length ds" by (rule add_index_entry_state(2) [OF assms])
  have ne: "\<forall>d\<in>set ds. d_entries d \<noteq> []" using assms by (auto simp: builder_state_def in_file_def)
  have nk: "next_key ds [] j = fst (hd (d_entries (ds ! Suc j)))" if "Suc j < length ds" for j
  proof -
    have "drop (Suc j) ds = ds ! Suc j # drop (Suc (Suc j)) ds" using that by (rule Cons_nth_drop_Suc [symmetric])
    moreover have "d_entries (ds ! Suc j) \<noteq> []" using ne that by simp
    ultimately show ?thesis by (simp add: next_key_def)
  qed
  have "seps ! j = o_separator opts (d_key (ds ! j)) (fst (hd (d_entries (ds ! Suc j))))" if "Suc j < length ds" for j
    using assms(1) that n nk by (simp add: builder_state_def)
  with n show ?thesis by (simp add: index_ok_def nth_append)
qed

text \<open>The last steps of a table all append to the file.\<close>

definition synced :: "('f \<Rightarrow> bool) \<Rightarrow> ('f \<Rightarrow> byte list) \<Rightarrow> 'f table_builder \<Rightarrow> bool" where
  "synced fvalid bytes r \<longleftrightarrow> tb_status r = OK \<and> fvalid (tb_file r) \<and> tb_offset r = of_nat (length (bytes (tb_file r)))"

context status_file
begin

lemma write_filter_synced:
  assumes "builder_state opts P crcx bytes ds [] seps r" and "fvalid (tb_file r)"
  obtains fh m r' where "write_filter_block opts crcx fappend r = (fh, r')" and "synced fvalid bytes r'" and "filter_ok opts crcx (bytes (tb_file r')) ds fh m"
    and "tb_index r' = tb_index r" "tb_pending r' = tb_pending r" "tb_last_key r' = tb_last_key r" "tb_handle r' = tb_handle r"
    and "\<exists>xs. bytes (tb_file r') = bytes (tb_file r) @ xs \<and> length xs = m"
proof (cases "o_filter opts")
  case None
  then show ?thesis using that [of new_BlockHandle r 0] assms by (simp add: write_filter_block_def synced_def filter_ok_def builder_state_def)
next
  case (Some x)
  obtain name create may where x: "x = (name, create, may)" by (cases x)
  let ?w = "length (bytes (tb_file r))" and ?fb = "Finish create (add_blocks create (filter_calls ds (tb_offset r) []))"
  have s: "tb_filter r = Some (add_blocks create (filter_calls ds (tb_offset r) []))" "tb_status r = OK" "tb_offset r = of_nat ?w" "sorted (map d_offset ds @ [?w])" "?w \<le> entries_size 32 (concat (map d_entries ds))"
    using assms(1) Some x by (simp_all add: builder_state_def)
  obtain f where f: "WriteRawBlock crcx fappend ?fb kNoCompression r =
      (\<lparr> bh_offset = tb_offset r, bh_size = of_nat (length ?fb) \<rparr>, r\<lparr> tb_status := OK, tb_file := f, tb_offset := tb_offset r + of_nat (length ?fb + 5) \<rparr>)"
    "fvalid f" "bytes f = bytes (tb_file r) @ ?fb @ block_trailer crcx ?fb kNoCompression" by (rule WriteRawBlock_file [OF assms(2)])
  have "filter_ok opts crcx (bytes f) ds (handle_of ?w ?fb) (length ?fb + 5)"
    unfolding filter_ok_def Some x f(3) using s(3-5) stored_here
    by (simp, intro exI [of _ ?w] conjI) simp_all
  then show ?thesis using that [of "handle_of ?w ?fb" _ "length ?fb + 5"] f s Some x by (simp add: write_filter_block_def handle_of_def synced_def)
qed

lemma WriteBlock_synced:
  assumes "synced fvalid bytes r"
  obtains h r' where "WriteBlock opts P crcx fappend (bb_adds interval es) r = (h, new_BlockBuilder, r')" and "synced fvalid bytes r'"
    and "stored_raw opts P crcx (bytes (tb_file r')) (build_block interval es) h"
    and "tb_index r' = tb_index r" "tb_pending r' = tb_pending r" "tb_last_key r' = tb_last_key r" "tb_handle r' = tb_handle r"
    and "\<exists>xs. bytes (tb_file r') = bytes (tb_file r) @ xs \<and> length xs \<le> length (build_block interval es) + 5"
proof -
  have v: "fvalid (tb_file r)" "tb_offset r = of_nat (length (bytes (tb_file r)))" using assms by (simp_all add: synced_def)
  obtain f contents t where c: "(contents, t) = compress_block opts P (build_block interval es)"
    and w: "WriteBlock opts P crcx fappend (bb_adds interval es) r =
      (\<lparr> bh_offset = tb_offset r, bh_size = of_nat (length contents) \<rparr>, new_BlockBuilder,
       r\<lparr> tb_status := OK, tb_file := f, tb_offset := tb_offset r + of_nat (length contents + 5) \<rparr>)"
    and f: "fvalid f" "bytes f = bytes (tb_file r) @ contents @ block_trailer crcx contents t" by (rule WriteBlock_file [OF v(1)])
  have "stored_raw opts P crcx (bytes f) (build_block interval es) (handle_of (length (bytes (tb_file r))) contents)"
    unfolding f(2) by (rule stored_raw_here [OF c])
  with w f v compress_block_length [OF c] show ?thesis by (intro that [of "handle_of (length (bytes (tb_file r))) contents" "r\<lparr> tb_status := OK, tb_file := f, tb_offset := tb_offset r + of_nat (length contents + 5) \<rparr>"])
      (simp_all add: handle_of_def synced_def)
qed

lemma flush_rest:
  assumes "builder_state opts P crcx bytes ds cur seps r" and "fvalid (tb_file r)"
  obtains ds1 seps1 r1 where "tb_Flush opts P crcx fappend fflush r = r1" "builder_state opts P crcx bytes ds1 [] seps1 r1" "fvalid (tb_file r1)"
    "concat (map d_entries ds1) = concat (map d_entries ds) @ cur"
proof (cases "cur = []")
  case True
  with assms show ?thesis using that [of r ds seps] by (simp add: tb_Flush_def builder_state_def new_BlockBuilder_def)
next
  case False
  from flush_state [OF assms False] obtain d r1 where "tb_Flush opts P crcx fappend fflush r = r1" "d_entries d = cur"
    "builder_state opts P crcx bytes (ds @ [d]) [] seps r1" "fvalid (tb_file r1)" by blast
  with that [of r1 "ds @ [d]" seps] show ?thesis by simp
qed

lemma last_index_entry:
  assumes "builder_state opts P crcx bytes ds [] seps r"
    and "tb_index r' = tb_index r" "tb_pending r' = tb_pending r" "tb_last_key r' = tb_last_key r" "tb_handle r' = tb_handle r"
  obtains seps' where "tb_index (add_index_entry (o_successor opts) r') = bb_adds 1 (index_entries seps' ds)" "index_ok opts ds seps'"
proof (cases "ds = []")
  case True
  then have "tb_index (add_index_entry (o_successor opts) r') = bb_adds 1 (index_entries [] ds)"
    using assms by (simp add: builder_state_def add_index_entry_def index_entries_def)
  with that True show ?thesis by (simp add: index_ok_def)
next
  case False
  have "tb_index (add_index_entry (o_successor opts) r') = tb_index (add_index_entry (o_successor opts) r)"
    using assms(2-5) by (simp add: add_index_entry_def Let_def)
  with that [of "seps @ [o_successor opts (d_key (last ds))]"] show ?thesis
    using add_index_entry_state(1) [OF assms(1) False, of "o_successor opts"] index_complete [OF assms(1) False] by simp
qed

lemma Finish_file:
  assumes "builder_state opts P crcx bytes ds cur seps r" and "fvalid (tb_file r)"
  shows "\<exists>r'. tb_Finish opts P crcx fappend fflush r = (OK, r') \<and> fvalid (tb_file r') \<and> tb_FileSize r' = of_nat (length (bytes (tb_file r'))) \<and>
     table_file opts P crcx (bytes (tb_file r')) (concat (map d_entries ds) @ cur)"
proof -
  obtain ds1 seps1 r1 where r1: "tb_Flush opts P crcx fappend fflush r = r1" "builder_state opts P crcx bytes ds1 [] seps1 r1" "fvalid (tb_file r1)"
    "concat (map d_entries ds1) = concat (map d_entries ds) @ cur" by (rule flush_rest [OF assms])
  let ?r1 = "r1\<lparr> tb_closed := True \<rparr>"
  have b1: "builder_state opts P crcx bytes ds1 [] seps1 ?r1" "fvalid (tb_file ?r1)" using r1(2,3) by (simp_all add: builder_state_def)
  obtain fh m r2 where r2: "write_filter_block opts crcx fappend ?r1 = (fh, r2)" "synced fvalid bytes r2" "filter_ok opts crcx (bytes (tb_file r2)) ds1 fh m"
    and e2: "tb_index r2 = tb_index ?r1" "tb_pending r2 = tb_pending ?r1" "tb_last_key r2 = tb_last_key ?r1" "tb_handle r2 = tb_handle ?r1"
    and x2: "\<exists>xs. bytes (tb_file r2) = bytes (tb_file ?r1) @ xs \<and> length xs = m" by (rule write_filter_synced [OF b1])
  obtain mh r3 where r3: "WriteBlock opts P crcx fappend (metaindex_builder opts fh) r2 = (mh, new_BlockBuilder, r3)" "synced fvalid bytes r3"
      "stored_raw opts P crcx (bytes (tb_file r3)) (build_block (o_restart_interval opts) (meta_entries opts fh)) mh"
    and e3: "tb_index r3 = tb_index r2" "tb_pending r3 = tb_pending r2" "tb_last_key r3 = tb_last_key r2" "tb_handle r3 = tb_handle r2"
    and x3: "\<exists>xs. bytes (tb_file r3) = bytes (tb_file r2) @ xs \<and> length xs \<le> length (build_block (o_restart_interval opts) (meta_entries opts fh)) + 5" unfolding metaindex_builder_adds by (rule WriteBlock_synced [OF r2(2)])
  let ?r3 = "add_index_entry (o_successor opts) r3"
  obtain seps where i: "tb_index ?r3 = bb_adds 1 (index_entries seps ds1)" "index_ok opts ds1 seps"
    by (rule last_index_entry [OF b1(1), of r3]) (simp_all add: e2 e3)
  have f3: "tb_file ?r3 = tb_file r3" "tb_offset ?r3 = tb_offset r3" "tb_status ?r3 = tb_status r3" by (simp_all add: add_index_entry_def Let_def)
  have s3: "synced fvalid bytes ?r3" using r3(2) f3 by (simp add: synced_def)
  obtain ih r4 where r4: "WriteBlock opts P crcx fappend (tb_index ?r3) ?r3 = (ih, new_BlockBuilder, r4)" "synced fvalid bytes r4"
      "stored_raw opts P crcx (bytes (tb_file r4)) (build_block 1 (index_entries seps ds1)) ih" "\<exists>xs. bytes (tb_file r4) = bytes (tb_file ?r3) @ xs \<and> length xs \<le> length (build_block 1 (index_entries seps ds1)) + 5"
    unfolding i(1) by (rule WriteBlock_synced [OF s3])
  let ?footer = "\<lparr> metaindex_handle = mh, index_handle = ih \<rparr>"
  from append_law [of "tb_file r4" "Footer_EncodeTo ?footer []"] r4(2) obtain f where
    f: "fappend (tb_file r4) (Footer_EncodeTo ?footer []) = (OK, f)" "fvalid f" "bytes f = bytes (tb_file r4) @ Footer_EncodeTo ?footer []"
    by (auto simp: synced_def)
  have run: "\<exists>r'. tb_Finish opts P crcx fappend fflush r = (OK, r') \<and> tb_file r' = f \<and> tb_FileSize r' = of_nat (length (bytes f))"
    using r1(1) r2(1,2) r3(1,2) r4(1,2) f(1,3) f3 by (simp add: tb_Finish_def tb_FileSize_def Let_def synced_def)
  from x2 x3 r4(4) f3(1) obtain xs ys zs where
    xs: "bytes (tb_file r2) = bytes (tb_file ?r1) @ xs" "bytes (tb_file r3) = bytes (tb_file r2) @ ys" "bytes (tb_file r4) = bytes (tb_file r3) @ zs"
    and l: "length xs = m" "length ys \<le> length (build_block (o_restart_interval opts) (meta_entries opts fh)) + 5"
      "length zs \<le> length (build_block 1 (index_entries seps ds1)) + 5" by auto
  have "length (bytes (tb_file ?r1)) \<le> entries_size 32 (concat (map d_entries ds1))" using b1(1) by (simp add: builder_state_def)
  with l footer_roundtrip [of ?footer "[]"] have sz: "length (bytes f) \<le> entries_size 32 (concat (map d_entries ds1)) + m +
      length (build_block (o_restart_interval opts) (meta_entries opts fh)) + length (build_block 1 (index_entries seps ds1)) + 58"
    unfolding f(3) xs by (simp add: kEncodedLength_def kMaxEncodedLength_def)
  have "\<forall>d\<in>set ds1. in_file opts P crcx (bytes f) d"
    unfolding f(3) xs using b1(1) by (auto simp: builder_state_def intro!: in_file_append)
  moreover have "filter_ok opts crcx (bytes f) ds1 fh m" unfolding f(3) xs(2,3) by (intro filter_ok_append) (rule r2(3))
  moreover have "stored_raw opts P crcx (bytes f) (build_block (o_restart_interval opts) (meta_entries opts fh)) mh"
    unfolding f(3) xs(3) by (intro stored_raw_append) (rule r3(3))
  moreover have "stored_raw opts P crcx (bytes f) (build_block 1 (index_entries seps ds1)) ih" unfolding f(3) by (intro stored_raw_append) (rule r4(3))
  ultimately have "table_file opts P crcx (bytes f) (concat (map d_entries ds1))"
    unfolding table_file_def using i(2) f(3) sz
    by (intro exI [of _ ds1] exI [of _ seps] exI [of _ fh] exI [of _ ?footer] exI [of _ m] exI [of _ "bytes (tb_file r4)"]) simp
  with run f(2) r1(4) show ?thesis by auto
qed

end

end
