(* ===== verification/TableRead.thy ===== *)
theory TableRead
  imports TableBuild
begin

text \<open>
  Reading a table, \<^verbatim>\<open>leveldb/table/table.cc\<close>: opening a file reads the footer, the index block and the
  filter block; a lookup searches the index block for the data block that may hold the key, asks
  the filter, and searches the data block. Tables are read without a block cache. The theory shows
  that a lookup in the file of a finished table finds the entry it should.
\<close>

section \<open>Definitions\<close>

record table =
  t_metaindex :: BlockHandle
  t_index :: block
  t_filter :: "FilterBlockReader option"

definition ReadFilter ::
  "table_options \<Rightarrow> port \<Rightarrow> (u32 \<Rightarrow> byte list \<Rightarrow> u32) \<Rightarrow> (u64 \<Rightarrow> nat \<Rightarrow> status \<times> slice) \<Rightarrow> slice \<Rightarrow> table \<Rightarrow> table option" where
  "ReadFilter opts P crcx rd v t = (case BlockHandle_DecodeFrom v of
     Inl s \<Rightarrow> Some t
   | Inr (filter_handle, rest) \<Rightarrow> do {
       res \<leftarrow> ReadBlock P crcx rd (o_paranoid_checks opts) filter_handle;
       Some (case res of Inl s \<Rightarrow> t | Inr data \<Rightarrow> t\<lparr> t_filter := Some (new_reader data) \<rparr>) })"

definition ReadMeta ::
  "table_options \<Rightarrow> port \<Rightarrow> (u32 \<Rightarrow> byte list \<Rightarrow> u32) \<Rightarrow> (u64 \<Rightarrow> nat \<Rightarrow> status \<times> slice) \<Rightarrow> Footer \<Rightarrow> table \<Rightarrow> table option" where
  "ReadMeta opts P crcx rd footer t = (case o_filter opts of
     None \<Rightarrow> Some t
   | Some (name, create, may) \<Rightarrow> do {
       res \<leftarrow> ReadBlock P crcx rd (o_paranoid_checks opts) (metaindex_handle footer);
       case res of
         Inl s \<Rightarrow> Some t
       | Inr contents \<Rightarrow> (case NewIterator (new_Block contents) of
           Inl s \<Rightarrow> Some t
         | Inr it \<Rightarrow> do {
             let key = bytes_of ''filter.'' @ name;
             it \<leftarrow> blk_Seek BytewiseCompare key it;
             if blk_Valid it \<and> it_key it = key then do { v \<leftarrow> blk_value it; ReadFilter opts P crcx rd v t }
             else Some t }) })"

definition Table_Open ::
  "table_options \<Rightarrow> port \<Rightarrow> (u32 \<Rightarrow> byte list \<Rightarrow> u32) \<Rightarrow> (u64 \<Rightarrow> nat \<Rightarrow> status \<times> slice) \<Rightarrow> u64 \<Rightarrow> (status + table) option" where
  "Table_Open opts P crcx rd sz =
     (if sz < of_nat kEncodedLength then Some (Inl (Corruption (bytes_of ''file is too short to be an sstable'') []))
      else (let (s, footer_input) = rd (sz - of_nat kEncodedLength) kEncodedLength in
            if \<not> ok s then Some (Inl s)
            else (case Footer_DecodeFrom footer_input of
                Inl s \<Rightarrow> Some (Inl s)
              | Inr (footer, rest) \<Rightarrow> do {
                  res \<leftarrow> ReadBlock P crcx rd (o_paranoid_checks opts) (index_handle footer);
                  case res of
                    Inl s \<Rightarrow> Some (Inl s)
                  | Inr contents \<Rightarrow> map_option Inr (ReadMeta opts P crcx rd footer
                      \<lparr> t_metaindex = metaindex_handle footer, t_index = new_Block contents, t_filter = None \<rparr>) })))"

text \<open>An iterator over a data block, or the status of an error iterator.\<close>

definition BlockReader ::
  "port \<Rightarrow> (u32 \<Rightarrow> byte list \<Rightarrow> u32) \<Rightarrow> (u64 \<Rightarrow> nat \<Rightarrow> status \<times> slice) \<Rightarrow> bool \<Rightarrow> slice \<Rightarrow> (status + block_iter) option" where
  "BlockReader P crcx rd verify_checksums index_value = (case BlockHandle_DecodeFrom index_value of
     Inl s \<Rightarrow> Some (Inl s)
   | Inr (handle, rest) \<Rightarrow> do {
       res \<leftarrow> ReadBlock P crcx rd verify_checksums handle;
       Some (case res of Inl s \<Rightarrow> Inl s | Inr contents \<Rightarrow> NewIterator (new_Block contents)) })"

text \<open>Whether the filter rules the key out of the block.\<close>

definition filter_skips :: "table_options \<Rightarrow> table \<Rightarrow> slice \<Rightarrow> slice \<Rightarrow> bool" where
  "filter_skips opts t handle_value k = (case (o_filter opts, t_filter t) of
     (Some (name, create, may), Some reader) \<Rightarrow> (case BlockHandle_DecodeFrom handle_value of
         Inl s \<Rightarrow> False
       | Inr (handle, rest) \<Rightarrow> \<not> reader_KeyMayMatch may reader (unat (bh_offset handle)) k)
   | _ \<Rightarrow> False)"

text \<open>The status of a lookup, and the entry it hands to the caller's function, if any.\<close>

definition InternalGet ::
  "table_options \<Rightarrow> port \<Rightarrow> (u32 \<Rightarrow> byte list \<Rightarrow> u32) \<Rightarrow> (u64 \<Rightarrow> nat \<Rightarrow> status \<times> slice) \<Rightarrow> bool \<Rightarrow> slice \<Rightarrow> table \<Rightarrow> (status \<times> (slice \<times> slice) option) option" where
  "InternalGet opts P crcx rd verify_checksums k t = (case NewIterator (t_index t) of
     Inl s \<Rightarrow> Some (s, None)
   | Inr iiter \<Rightarrow> do {
       iiter \<leftarrow> blk_Seek (o_compare opts) k iiter;
       if blk_Valid iiter
       then do {
         handle_value \<leftarrow> blk_value iiter;
         if filter_skips opts t handle_value k then Some (it_status iiter, None)
         else do {
           block_iter \<leftarrow> BlockReader P crcx rd verify_checksums handle_value;
           case block_iter of
             Inl s \<Rightarrow> Some (if ok s then it_status iiter else s, None)
           | Inr it \<Rightarrow> do {
               it \<leftarrow> blk_Seek (o_compare opts) k it;
               found \<leftarrow> (if blk_Valid it then do { v \<leftarrow> blk_value it; Some (Some (it_key it, v)) } else Some None);
               Some (if ok (it_status it) then it_status iiter else it_status it, found) } } }
       else Some (it_status iiter, None) })"

definition ApproximateOffsetOf :: "table_options \<Rightarrow> slice \<Rightarrow> table \<Rightarrow> u64 option" where
  "ApproximateOffsetOf opts key t = (case NewIterator (t_index t) of
     Inl s \<Rightarrow> Some (bh_offset (t_metaindex t))
   | Inr it \<Rightarrow> do {
       it \<leftarrow> blk_Seek (o_compare opts) key it;
       if blk_Valid it
       then do { v \<leftarrow> blk_value it;
                 Some (case BlockHandle_DecodeFrom v of Inl s \<Rightarrow> bh_offset (t_metaindex t) | Inr (handle, rest) \<Rightarrow> bh_offset handle) }
       else Some (bh_offset (t_metaindex t)) })"

section \<open>Lists of blocks\<close>

lemma sorted_concat_block: "sorted_wrt R (concat xss) \<Longrightarrow> xs \<in> set xss \<Longrightarrow> sorted_wrt R xs"
  by (induction xss) (auto simp: sorted_wrt_append)

lemma sorted_concat_apart:
  "sorted_wrt R (concat xss) \<Longrightarrow> i < j \<Longrightarrow> j < length xss \<Longrightarrow> a \<in> set (xss ! i) \<Longrightarrow> b \<in> set (xss ! j) \<Longrightarrow> R a b"
proof (induction xss arbitrary: i j)
  case (Cons xs xss)
  obtain j' where j: "j = Suc j'" using Cons.prems(2) by (cases j) simp_all
  have "b \<in> set (concat xss)" using Cons.prems(3,5) j by auto
  then show ?case using Cons.prems Cons.IH [of "i - 1" j'] by (cases i) (auto simp: j sorted_wrt_append)
qed simp

lemma sorted_last: "sorted_wrt R xs \<Longrightarrow> a \<in> set xs \<Longrightarrow> a = last xs \<or> R a (last xs)"
  by (induction xs) (auto split: if_splits)

lemma find_takeWhile:
  "find (\<lambda>e. \<not> p e) es = (let i = length (takeWhile p es) in if i < length es then Some (es ! i) else None)"
  by (induction es) (auto simp: Let_def)

lemma find_append: "find p (xs @ ys) = (case find p xs of Some x \<Rightarrow> Some x | None \<Rightarrow> find p ys)"
  by (induction xs) auto

lemma find_skip: "(\<And>x. x \<in> set xs \<Longrightarrow> \<not> p x) \<Longrightarrow> find p (xs @ ys) = find p ys"
  by (induction xs) auto

section \<open>Reading stored blocks\<close>

locale readable_file =
  fixes rd :: "'f \<Rightarrow> u64 \<Rightarrow> nat \<Rightarrow> status \<times> slice" and fvalid :: "'f \<Rightarrow> bool" and bytes :: "'f \<Rightarrow> byte list"
  assumes read_law: "fvalid f \<Longrightarrow> unat w + n \<le> length (bytes f) \<Longrightarrow> rd f w n = (OK, take n (drop (unat w) (bytes f)))"

lemma compression_code_inject [simp]: "compression_code s = compression_code t \<longleftrightarrow> s = t"
  by (cases s; cases t) (simp_all add: compression_code_def)

text \<open>The parts a table is made of, and what reading relies on.\<close>

locale table_parts = comparator "o_compare opts" "o_separator opts" "o_successor opts" valid + compressor P + checksum crcx
  for opts :: table_options and valid and P and crcx +
  fixes same :: "slice \<Rightarrow> slice \<Rightarrow> bool" and filter_cost :: nat
  assumes filter_law: "o_filter opts = Some (name, create, may) \<Longrightarrow> filter_policy create may \<and> (\<forall>a b f. same a b \<longrightarrow> may a f = may b f) \<and> length name < 2 ^ 16 \<and>
      (\<forall>keys. keys \<noteq> [] \<longrightarrow> length (create keys []) \<le> filter_cost * length keys)"
    and separator_same: "valid a \<Longrightarrow> valid b \<Longrightarrow> valid k \<Longrightarrow> o_compare opts a b < 0 \<Longrightarrow> o_compare opts a k < 0 \<Longrightarrow>
      o_compare opts k (o_separator opts a b) \<le> 0 \<Longrightarrow> \<not> same k b"
    and index_key_length: "length (o_separator opts a b) \<le> length a" "length (o_successor opts a) \<le> length a"

locale table_world = table_parts opts valid P crcx same filter_cost + readable_file rd fvalid bytes
  for opts valid P crcx same filter_cost and rd :: "'f \<Rightarrow> u64 \<Rightarrow> nat \<Rightarrow> status \<times> slice" and fvalid bytes
begin

lemma ReadBlock_contents:
  assumes "stored crcx (bytes f) n contents t"
    and fv: "fvalid f \<and> length (bytes f) < 2 ^ 32"
  shows "ReadBlock P crcx (rd f) verify (handle_of n contents) =
     (if t = kNoCompression then Some (Inr contents)
      else if t = kSnappyCompression
      then Some (case Snappy_GetUncompressedLength P contents of
             None \<Rightarrow> Inl (Corruption (bytes_of ''corrupted snappy compressed block length'') [])
           | Some ulength \<Rightarrow> (case Snappy_Uncompress P contents ulength of
               None \<Rightarrow> Inl (Corruption (bytes_of ''corrupted snappy compressed block contents'') [])
             | Some ubuf \<Rightarrow> Inr ubuf))
      else Some (case Zstd_GetUncompressedLength P contents of
             None \<Rightarrow> Inl (Corruption (bytes_of ''corrupted zstd compressed block length'') [])
           | Some ulength \<Rightarrow> (case Zstd_Uncompress P contents ulength of
               None \<Rightarrow> Inl (Corruption (bytes_of ''corrupted zstd compressed block contents'') [])
             | Some ubuf \<Rightarrow> Inr ubuf)))"
proof -
  let ?n = "length contents" and ?tr = "block_trailer crcx contents t"
  have b: "n + ?n + 5 \<le> length (bytes f)" "take (?n + 5) (drop n (bytes f)) = contents @ ?tr" using assms by (simp_all add: stored_def)
  have u: "unat (of_nat n :: u64) = n" "unat (of_nat ?n :: u64) = ?n" "unat (of_nat ?n + 5 :: u64) = ?n + 5"
  proof -
    have s: "n + ?n + 5 < 2 ^ 64" using b(1) fv by simp
    show "unat (of_nat n :: u64) = n" "unat (of_nat ?n :: u64) = ?n" using s by (simp_all add: unat_of_nat_small del: unsigned_of_nat)
    have "unat (of_nat (?n + 5) :: u64) = ?n + 5" using s by (intro unat_of_nat_small) simp
    then show "unat (of_nat ?n + 5 :: u64) = ?n + 5" by simp
  qed
  have r: "rd f (of_nat n) (?n + 5) = (OK, contents @ ?tr)" using read_law [of f "of_nat n" "?n + 5"] fv b u(1) by (simp add: add.assoc)
  have c: "(contents @ ?tr) ! ?n = compression_code t" "take (?n + 1) (contents @ ?tr) = contents @ [compression_code t]"
    "drop (?n + 1) (contents @ ?tr) = EncodeFixed32 (Mask (crcx (crc_Value crcx contents) [compression_code t]))"
    by (simp_all add: block_trailer_def Let_def nth_append)
  have crc: "crc_Value crcx (contents @ [compression_code t]) = Unmask (DecodeFixed32 (EncodeFixed32 (Mask (crcx (crc_Value crcx contents) [compression_code t]))))"
    using DecodeFixed32_EncodeFixed32 [of _ "[]"] by (simp add: Value_extend)
  show ?thesis
    unfolding ReadBlock_def Let_def handle_of_def
    using r u c crc by (cases t) (simp_all add: kBlockTrailerSize_def del: unsigned_of_nat cong: option.case_cong)
qed

lemma ReadBlock_stored:
  assumes "stored_raw opts P crcx (bytes f) raw h" and "raw \<noteq> []"
    and fv: "fvalid f \<and> length (bytes f) < 2 ^ 32"
  shows "ReadBlock P crcx (rd f) verify h = Some (Inr raw)"
proof -
  from assms(1) obtain n contents t where s: "stored crcx (bytes f) n contents t" "(contents, t) = compress_block opts P raw" "h = handle_of n contents"
    unfolding stored_raw_def by blast
  show ?thesis
    unfolding s(3) ReadBlock_contents [OF s(1) fv]
    using s(2) snappy_law [OF assms(2)] zstd_law [OF assms(2)]
    by (auto simp: compress_block_def split: CompressionType.splits option.splits if_splits)
qed

end

section \<open>The index\<close>

text \<open>The first entry that is not before a key.\<close>

definition first_from :: "(slice \<Rightarrow> slice \<Rightarrow> int) \<Rightarrow> slice \<Rightarrow> (slice \<times> slice) list \<Rightarrow> (slice \<times> slice) option" where
  "first_from cmp k es = find (\<lambda>e. \<not> cmp (fst e) k < 0) es"

definition sorted_entries :: "(slice \<Rightarrow> slice \<Rightarrow> int) \<Rightarrow> (slice \<Rightarrow> bool) \<Rightarrow> (slice \<times> slice) list \<Rightarrow> bool" where
  "sorted_entries cmp valid es \<longleftrightarrow> sorted_wrt (\<lambda>a b. cmp a b < 0) (map fst es) \<and> list_all valid (map fst es)"

context table_parts
begin

lemma block_sorted:
  "sorted_entries (o_compare opts) valid (concat (map d_entries ds)) \<Longrightarrow> d \<in> set ds \<Longrightarrow> sorted_entries (o_compare opts) valid (d_entries d)"
  using sorted_concat_block [of "\<lambda>a b. o_compare opts (fst a) (fst b) < 0" "map d_entries ds" "d_entries d"]
  by (auto simp: sorted_entries_def sorted_wrt_map list_all_iff)

lemma index_between:
  assumes "sorted_entries (o_compare opts) valid (concat (map d_entries ds))" and "\<forall>d\<in>set ds. d_entries d \<noteq> []"
    and "index_ok opts ds seps" and "j < length ds"
  shows "valid (seps ! j)" and "o_compare opts (d_key (ds ! j)) (seps ! j) \<le> 0"
    and "Suc j < length ds \<Longrightarrow> o_compare opts (seps ! j) (fst (hd (d_entries (ds ! Suc j)))) < 0"
    and "Suc j < length ds \<Longrightarrow> o_compare opts (d_key (ds ! j)) (fst (hd (d_entries (ds ! Suc j)))) < 0"
proof -
  have ne: "d_entries (ds ! i) \<noteq> []" if "i < length ds" for i using assms(2) that by simp
  have val: "valid (fst e)" if "i < length ds" "e \<in> set (d_entries (ds ! i))" for i e
    using block_sorted [OF assms(1), of "ds ! i"] that by (auto simp: sorted_entries_def list_all_iff)
  have vl: "valid (d_key (ds ! j))" using val [OF assms(4)] ne [OF assms(4)] by (simp add: d_key_def)
  have hd: "valid (fst (hd (d_entries (ds ! Suc j))))" if "Suc j < length ds" using val [OF that] ne [OF that] by simp
  show lt: "o_compare opts (d_key (ds ! j)) (fst (hd (d_entries (ds ! Suc j)))) < 0" if "Suc j < length ds"
    using sorted_concat_apart [of "\<lambda>a b. o_compare opts (fst a) (fst b) < 0" "map d_entries ds" j "Suc j" "last (d_entries (ds ! j))" "hd (d_entries (ds ! Suc j))"]
      assms(1,4) that ne [OF that] ne [OF assms(4)] by (simp add: sorted_entries_def sorted_wrt_map d_key_def)
  have l: "seps ! j = o_successor opts (d_key (ds ! j))" if "\<not> Suc j < length ds"
  proof -
    have n: "j = length ds - 1" "ds \<noteq> []" "length seps = length ds" using that assms(3,4) by (auto simp: index_ok_def)
    then have "seps \<noteq> []" by auto
    with n have "last seps = seps ! j" "last ds = ds ! j" by (simp_all add: last_conv_nth)
    then show ?thesis using assms(3) n(2) by (simp add: index_ok_def)
  qed
  have m: "seps ! j = o_separator opts (d_key (ds ! j)) (fst (hd (d_entries (ds ! Suc j))))" if "Suc j < length ds"
    using that assms(3) by (simp add: index_ok_def)
  note S = separator_between [OF vl hd lt]
  show "valid (seps ! j)" using S m successor_ge [OF vl] l by (cases "Suc j < length ds") auto
  show "o_compare opts (d_key (ds ! j)) (seps ! j) \<le> 0" using S m successor_ge [OF vl] l by (cases "Suc j < length ds") auto
  show "o_compare opts (seps ! j) (fst (hd (d_entries (ds ! Suc j)))) < 0" if "Suc j < length ds" using S [OF that that] m [OF that] by simp
qed

lemma entries_le_key:
  assumes "sorted_entries (o_compare opts) valid (concat (map d_entries ds))" and "d \<in> set ds" and "e \<in> set (d_entries d)"
  shows "o_compare opts (fst e) (d_key d) \<le> 0" and "valid (fst e)" and "valid (d_key d)"
proof -
  note s = block_sorted [OF assms(1,2)]
  have "last (d_entries d) \<in> set (d_entries d)" using assms(3) by (cases "d_entries d") auto
  with s assms(3) show v: "valid (fst e)" "valid (d_key d)" by (auto simp: sorted_entries_def list_all_iff d_key_def)
  show "o_compare opts (fst e) (d_key d) \<le> 0"
    using sorted_last [of "\<lambda>a b. o_compare opts (fst a) (fst b) < 0" "d_entries d" e] s assms(3) compare_refl [OF v(2)]
    by (auto simp: sorted_entries_def sorted_wrt_map d_key_def)
qed

lemma index_sorted:
  assumes "sorted_entries (o_compare opts) valid (concat (map d_entries ds))" and "\<forall>d\<in>set ds. d_entries d \<noteq> []" and "index_ok opts ds seps"
  shows "sorted_wrt (\<lambda>a b. o_compare opts a b < 0) seps" and "list_all valid seps"
proof -
  have len: "length seps = length ds" using assms(3) by (simp add: index_ok_def)
  note B = index_between [OF assms]
  show "list_all valid seps" using B(1) len by (simp add: list_all_length)
  let ?R = "\<lambda>a b. valid a \<and> valid b \<and> o_compare opts a b < 0"
  have "transp ?R" by (rule transpI) (use compare_trans in blast)
  moreover have "?R (seps ! i) (seps ! Suc i)" if "Suc i < length seps" for i
  proof -
    have i: "i < length ds" "Suc i < length ds" using that len by simp_all
    let ?f = "hd (d_entries (ds ! Suc i))"
    have "?f \<in> set (d_entries (ds ! Suc i))" using assms(2) i(2) by simp
    note f = entries_le_key [OF assms(1) _ this]
    have "o_compare opts (seps ! i) (d_key (ds ! Suc i)) < 0"
      using compare_less_le_trans [OF B(1) [OF i(1)] f(2,3) B(3) [OF i] f(1)] i(2) by simp
    then show ?thesis using compare_less_le_trans [OF B(1) [OF i(1)] f(3) B(1) [OF i(2)] _ B(2) [OF i(2)]] B(1) i by simp
  qed
  ultimately have "sorted_wrt ?R seps" by (simp add: sorted_wrt_iff_nth_Suc_transp)
  then show "sorted_wrt (\<lambda>a b. o_compare opts a b < 0) seps" by (rule sorted_wrt_mono_rel [rotated]) simp
qed

lemma earlier_blocks:
  assumes "sorted_entries (o_compare opts) valid (concat (map d_entries ds))" and "\<forall>d\<in>set ds. d_entries d \<noteq> []" and "index_ok opts ds seps"
    and "valid k" and "j \<le> length (takeWhile (\<lambda>s. o_compare opts s k < 0) seps)"
  shows "first_from (o_compare opts) k (concat (map d_entries ds)) = first_from (o_compare opts) k (concat (map d_entries (drop j ds)))"
proof -
  have len: "length seps = length ds" using assms(3) by (simp add: index_ok_def)
  have "o_compare opts (fst e) k < 0" if "e \<in> set (concat (map d_entries (take j ds)))" for e
  proof -
    from that obtain d where d: "d \<in> set (take j ds)" "e \<in> set (d_entries d)" by auto
    then obtain i where i: "i < j" "i < length ds" "e \<in> set (d_entries (ds ! i))"
      by (auto simp: in_set_conv_nth [of d])
    have "o_compare opts (seps ! i) k < 0"
    proof -
      have "i < length (takeWhile (\<lambda>s. o_compare opts s k < 0) seps)" using i(1) assms(5) by simp
      from nth_mem [OF this] show ?thesis using takeWhile_nth [OF \<open>i < length (takeWhile _ _)\<close>] set_takeWhileD by metis
    qed
    note B = index_between(1,2) [OF assms(1-3) i(2)]
    note f = entries_le_key [OF assms(1) _ i(3)]
    have "o_compare opts (d_key (ds ! i)) k < 0" using compare_le_trans [OF f(3) B(1) assms(4) B(2)] i(2) \<open>o_compare opts (seps ! i) k < 0\<close> by simp
    then show ?thesis using compare_le_trans [OF f(2,3) assms(4) f(1)] i(2) by simp
  qed
  then have "first_from (o_compare opts) k (concat (map d_entries (take j ds)) @ concat (map d_entries (drop j ds))) =
    first_from (o_compare opts) k (concat (map d_entries (drop j ds)))" unfolding first_from_def by (intro find_skip) simp
  then show ?thesis by (simp flip: concat_append map_append)
qed

lemma index_lookup:
  assumes "sorted_entries (o_compare opts) valid (concat (map d_entries ds))" and "\<forall>d\<in>set ds. d_entries d \<noteq> []" and "index_ok opts ds seps"
    and "valid k" and j: "j = length (takeWhile (\<lambda>s. o_compare opts s k < 0) seps)"
  shows "j = length ds \<Longrightarrow> first_from (o_compare opts) k (concat (map d_entries ds)) = None"
    and "j < length ds \<Longrightarrow> first_from (o_compare opts) k (d_entries (ds ! j)) = Some e \<Longrightarrow>
      first_from (o_compare opts) k (concat (map d_entries ds)) = Some e"
    and "j < length ds \<Longrightarrow> first_from (o_compare opts) k (d_entries (ds ! j)) = None \<Longrightarrow>
      first_from (o_compare opts) k (concat (map d_entries ds)) = Some e \<Longrightarrow> \<not> same k (fst e)"
proof -
  have E: "first_from (o_compare opts) k (concat (map d_entries ds)) = first_from (o_compare opts) k (concat (map d_entries (drop j ds)))"
    by (rule earlier_blocks [OF assms(1-4)]) (simp add: j)
  then show "j = length ds \<Longrightarrow> first_from (o_compare opts) k (concat (map d_entries ds)) = None" by (simp add: first_from_def)
  have D: "drop j ds = ds ! j # drop (Suc j) ds" if "j < length ds" using that by (simp add: Cons_nth_drop_Suc)
  show "first_from (o_compare opts) k (concat (map d_entries ds)) = Some e"
    if "j < length ds" "first_from (o_compare opts) k (d_entries (ds ! j)) = Some e"
    using that E by (simp add: D first_from_def find_append)
  assume n: "j < length ds" "first_from (o_compare opts) k (d_entries (ds ! j)) = None" "first_from (o_compare opts) k (concat (map d_entries ds)) = Some e"
  have rest: "first_from (o_compare opts) k (concat (map d_entries (drop (Suc j) ds))) = Some e" using n(2,3) E unfolding D [OF n(1)] by (simp add: first_from_def find_append)
  then have sj: "Suc j < length ds" by (rule_tac ccontr) (simp add: first_from_def)
  let ?f = "hd (d_entries (ds ! Suc j))" and ?l = "last (d_entries (ds ! j))"
  have ne: "d_entries (ds ! Suc j) \<noteq> []" "d_entries (ds ! j) \<noteq> []" using assms(2) sj by simp_all
  note f = entries_le_key(2) [OF assms(1) nth_mem [OF sj] hd_in_set [OF ne(1)]]
  note l = entries_le_key(3) [OF assms(1) nth_mem [OF n(1)] last_in_set [OF ne(2)]]
  note B = index_between [OF assms(1-3) n(1)]
  have len: "length seps = length ds" using assms(3) by (simp add: index_ok_def)
  have "\<not> o_compare opts (seps ! j) k < 0" using nth_length_takeWhile [of "\<lambda>s. o_compare opts s k < 0" seps] n(1) len j by simp
  then have ks: "o_compare opts k (seps ! j) \<le> 0" using compare_flip [OF B(1) assms(4)] by (metis compare_eq compare_total B(1) assms(4) less_imp_le order_refl)
  have "o_compare opts (d_key (ds ! j)) k < 0" using n(2) last_in_set [OF ne(2)] unfolding first_from_def find_None_iff d_key_def by blast
  moreover have "seps ! j = o_separator opts (d_key (ds ! j)) (fst ?f)" using assms(3) sj by (simp add: index_ok_def)
  ultimately have ns: "\<not> same k (fst ?f)" using separator_same [OF l f assms(4) B(4) [OF sj]] ks by simp
  have "o_compare opts k (fst ?f) < 0" using compare_le_trans [OF assms(4) B(1) f ks B(3) [OF sj]] .
  then have "\<not> o_compare opts (fst ?f) k < 0" using compare_flip [OF f assms(4)] by simp
  then have "first_from (o_compare opts) k (concat (map d_entries (drop (Suc j) ds))) = Some ?f"
    using ne(1) sj by (cases "d_entries (ds ! Suc j)") (simp_all add: first_from_def flip: Cons_nth_drop_Suc)
  with rest ns show "\<not> same k (fst e)" by simp
qed

end

section \<open>Opening a table\<close>

definition filter_loaded :: "table_options \<Rightarrow> nat \<Rightarrow> data_block list \<Rightarrow> FilterBlockReader option \<Rightarrow> bool" where
  "filter_loaded opts limit ds ft \<longleftrightarrow> (case o_filter opts of None \<Rightarrow> ft = None
     | Some (name, create, may) \<Rightarrow> (\<exists>w. sorted (map d_offset ds @ [w]) \<and> w < limit \<and>
         length (Finish create (add_blocks create (filter_calls ds (of_nat w) []))) < limit \<and>
         ft = Some (new_reader (Finish create (add_blocks create (filter_calls ds (of_nat w) []))))))"

lemma cursor_over_state: "cursor_over cmp valid es pos \<Longrightarrow> pos i it \<Longrightarrow> it_status it = OK \<and> (blk_Valid it \<longleftrightarrow> i < length es)"
  unfolding cursor_over_def by blast

lemma reader_same: "(\<And>f. may k f = may k' f) \<Longrightarrow> reader_KeyMayMatch may r n k = reader_KeyMayMatch may r n k'"
  by (simp add: reader_KeyMayMatch_def)

context table_world
begin

lemma ReadMeta_loads:
  assumes "1 \<le> o_restart_interval opts" and "filter_ok opts crcx (bytes f) ds fh m"
    and "stored_raw opts P crcx (bytes f) (build_block (o_restart_interval opts) (meta_entries opts fh)) (metaindex_handle footer)" and "t_filter t = None"
    and fv: "fvalid f \<and> length (bytes f) < 2 ^ 32"
  shows "\<exists>ft. ReadMeta opts P crcx (rd f) footer t = Some (t\<lparr> t_filter := ft \<rparr>) \<and> filter_loaded opts (2 ^ 32) ds ft"
proof (cases "o_filter opts")
  case None
  then show ?thesis using assms(4) by (intro exI [of _ None]) (simp add: ReadMeta_def filter_loaded_def)
next
  case (Some p)
  obtain name create may where p: "p = (name, create, may)" by (cases p)
  note F = Some [unfolded p]
  let ?key = "bytes_of ''filter.'' @ name" and ?v = "BlockHandle_EncodeTo fh []"
  have m: "meta_entries opts fh = [(?key, ?v)]" by (simp add: meta_entries_def F)
  have "length ?key < 2 ^ 17" using filter_law [OF F] by (simp add: bytes_of_def)
  then have l: "length (build_block (o_restart_interval opts) [(?key, ?v)]) < 2 ^ 32"
    using build_block_size [of "o_restart_interval opts" "[(?key, ?v)]"] handle_length [of fh] by (simp add: kMaxEncodedLength_def)
  from bytewise.block_cursor [OF assms(1) l] obtain it pos where
    it: "NewIterator (new_Block (build_block (o_restart_interval opts) [(?key, ?v)])) = Inr it" "pos 1 it"
      "cursor_over BytewiseCompare (\<lambda>_. True) [(?key, ?v)] pos" by auto
  from cursor_over_Seek [OF it(3,2), of ?key] bytewise.compare_refl obtain it' where
    it': "blk_Seek BytewiseCompare ?key it = Some it'" "pos 0 it'" by auto
  note e = cursor_over_entry [OF it(3) it'(2)]
  from assms(2) obtain n w where f: "sorted (map d_offset ds @ [w])" "w \<le> length (bytes f)"
    "stored crcx (bytes f) n (Finish create (add_blocks create (filter_calls ds (of_nat w) []))) kNoCompression"
    "fh = handle_of n (Finish create (add_blocks create (filter_calls ds (of_nat w) [])))" by (auto simp: filter_ok_def F)
  let ?F = "Finish create (add_blocks create (filter_calls ds (of_nat w) []))"
  have r: "ReadBlock P crcx (rd f) (o_paranoid_checks opts) fh = Some (Inr ?F)" unfolding f(4) ReadBlock_contents [OF f(3) fv] by simp
  have "ReadFilter opts P crcx (rd f) ?v t = Some (t\<lparr> t_filter := Some (new_reader ?F) \<rparr>)"
    using handle_roundtrip [of fh "[]"] r by (simp add: ReadFilter_def)
  moreover have "filter_loaded opts (2 ^ 32) ds (Some (new_reader ?F))"
    using f(1,2,3) fv by (auto simp: filter_loaded_def F stored_def)
  ultimately show ?thesis
    using ReadBlock_stored [OF assms(3) build_block_nonempty fv, of "o_paranoid_checks opts"] it(1) it'(1) e
    by (intro exI [of _ "Some (new_reader ?F)"]) (simp add: ReadMeta_def F m Let_def)
qed

lemma Open_table:
  assumes "1 \<le> o_restart_interval opts" and "filter_ok opts crcx (bytes f) ds fh m"
    and "stored_raw opts P crcx (bytes f) (build_block (o_restart_interval opts) (meta_entries opts fh)) (metaindex_handle footer)"
    and "stored_raw opts P crcx (bytes f) (build_block 1 ies) (index_handle footer)"
    and "(bytes f) = body_bytes @ Footer_EncodeTo footer []"
    and fv: "fvalid f \<and> length (bytes f) < 2 ^ 32"
  shows "\<exists>t. Table_Open opts P crcx (rd f) (of_nat (length (bytes f))) = Some (Inr t) \<and> t_metaindex t = metaindex_handle footer \<and>
     t_index t = new_Block (build_block 1 ies) \<and> filter_loaded opts (2 ^ 32) ds (t_filter t)"
proof -
  let ?t = "\<lparr> t_metaindex = metaindex_handle footer, t_index = new_Block (build_block 1 ies), t_filter = None \<rparr>"
  have l: "length (bytes f) = length body_bytes + 48" using assms(5) footer_roundtrip [of footer "[]"] by (simp add: kEncodedLength_def kMaxEncodedLength_def)
  have u: "unat (of_nat (length (bytes f)) :: u64) = length (bytes f)" "unat (of_nat (length body_bytes) :: u64) = length body_bytes"
  proof -
    have "length (bytes f) < 2 ^ LENGTH(64)" "length body_bytes < 2 ^ LENGTH(64)" using fv l by simp_all
    then show "unat (of_nat (length (bytes f)) :: u64) = length (bytes f)" "unat (of_nat (length body_bytes) :: u64) = length body_bytes"
      by (simp_all only: unat_of_nat_small)
  qed
  have "\<not> unat (of_nat (length (bytes f)) :: u64) < 48" unfolding u(1) using l by simp
  then have n: "\<not> (of_nat (length (bytes f)) :: u64) < of_nat kEncodedLength" "(of_nat (length (bytes f)) :: u64) - of_nat kEncodedLength = of_nat (length body_bytes)"
    using l by (simp_all add: word_less_nat_alt kEncodedLength_def kMaxEncodedLength_def del: unsigned_of_nat)
  have r: "(rd f) (of_nat (length body_bytes)) kEncodedLength = (OK, Footer_EncodeTo footer [])"
    using read_law [of f "of_nat (length body_bytes)" kEncodedLength] fv u(2) l assms(5) footer_roundtrip [of footer "[]"]
    by (simp add: kEncodedLength_def kMaxEncodedLength_def del: unsigned_of_nat)
  from ReadMeta_loads [OF assms(1-3) _ fv, of ?t] obtain ft where
    ft: "ReadMeta opts P crcx (rd f) footer ?t = Some (?t\<lparr> t_filter := ft \<rparr>)" "filter_loaded opts (2 ^ 32) ds ft" by auto
  show ?thesis
    using ft ReadBlock_stored [OF assms(4) build_block_nonempty fv, of "o_paranoid_checks opts"] footer_roundtrip [of footer "[]"]
    unfolding Table_Open_def n(2) r using n(1) by simp
qed

lemma filter_passes:
  assumes "filter_loaded opts (2 ^ 32) ds (t_filter t)" and "d \<in> set ds" and "e \<in> set (d_entries d)" and "same k (fst e)"
  shows "\<not> filter_skips opts t (BlockHandle_EncodeTo (d_handle d) []) k"
proof (cases "o_filter opts")
  case None
  then show ?thesis by (simp add: filter_skips_def)
next
  case (Some p)
  obtain name create may where p: "p = (name, create, may)" by (cases p)
  note F = Some [unfolded p]
  from assms(1) obtain w where w: "sorted (map d_offset ds @ [w])" "w < 2 ^ 32"
      "length (Finish create (add_blocks create (filter_calls ds (of_nat w) []))) < 2 ^ 32"
      "t_filter t = Some (new_reader (Finish create (add_blocks create (filter_calls ds (of_nat w) []))))"
    by (auto simp: filter_loaded_def F)
  have u: "unat (of_nat n :: u64) = n" if "n \<le> w" for n using that w(2) by (simp add: unat_of_nat_small del: unsigned_of_nat)
  have "map fst (filter_calls ds (of_nat w) []) = map d_offset ds @ [w]"
    using w(1) u by (simp add: filter_calls_def sorted_append del: unsigned_of_nat)
  then have s: "sorted (map fst (filter_calls ds (of_nat w) []))" using w(1) by simp
  have m: "(unat (of_nat (d_offset d) :: u64), map fst (d_entries d)) \<in> set (filter_calls ds (of_nat w) [])" using assms(2) by (auto simp: filter_calls_def)
  have fp: "filter_policy create may" and sm: "\<And>f. may k f = may (fst e) f" using filter_law [OF F] assms(4) by auto
  have "fst e \<in> set (map fst (d_entries d))" using assms(3) by simp
  note may = filter_policy.filter_block_complete [OF fp s m this w(3)]
  have "bh_offset (d_handle d) = of_nat (d_offset d)" by (simp add: d_handle_def handle_of_def)
  with may handle_roundtrip [of "d_handle d" "[]"] show ?thesis
    by (simp add: filter_skips_def F w(4) reader_same [of may k "fst e", OF sm] del: unsigned_of_nat)
qed

end

section \<open>The size of a table\<close>

text \<open>What the filters made so far take, and what the keys collected for the next one will.\<close>

definition filter_load :: "nat \<Rightarrow> FilterBlockBuilder \<Rightarrow> nat" where
  "filter_load c st = length (fb_result st) + c * length (fb_start st)"

context filter_policy
begin

lemma GenerateFilter_load:
  assumes "\<forall>keys. keys \<noteq> [] \<longrightarrow> length (create keys []) \<le> c * length keys"
  shows "filter_load c (GenerateFilter create st) \<le> filter_load c st"
proof -
  have "length (create keys dst) \<le> length dst + c * length keys" if "keys \<noteq> []" for keys dst
    using assms that create_appends [of keys dst] by (metis add_le_cancel_left length_append)
  from this [of "map _ [0..<length (fb_start st)]"] show ?thesis by (auto simp: filter_load_def GenerateFilter_def Let_def)
qed

lemma start_block_load:
  assumes "\<forall>keys. keys \<noteq> [] \<longrightarrow> length (create keys []) \<le> c * length keys"
  shows "filter_load c (start_block_loop create i st) \<le> filter_load c st \<and>
     length (fb_offsets (start_block_loop create i st)) = max i (length (fb_offsets st))"
proof (induction "i - length (fb_offsets st)" arbitrary: st)
  case 0
  then show ?case by (simp add: start_block_loop.simps [of create i st])
next
  case (Suc n)
  have "n = i - length (fb_offsets (GenerateFilter create st))" "length (fb_offsets st) < i" using Suc.hyps(2) by simp_all
  with Suc.hyps(1) [OF this(1)] GenerateFilter_load [OF assms, of st] show ?case
    by (auto simp: start_block_loop.simps [of create i st] max_def)
qed

lemma AddKey_load: "filter_load c (fold AddKey new st) = filter_load c st + c * length new" "fb_offsets (fold AddKey new st) = fb_offsets st"
  by (induction new arbitrary: st) (simp_all add: filter_load_def AddKey_def algebra_simps)

lemma add_blocks_load:
  assumes "\<forall>keys. keys \<noteq> [] \<longrightarrow> length (create keys []) \<le> c * length keys" and "\<forall>b\<in>set blocks. fst b \<le> w"
  shows "filter_load c (fold (\<lambda>(n, new) st. fold AddKey new (StartBlock create n st)) blocks st) \<le> filter_load c st + c * length (concat (map snd blocks)) \<and>
     length (fb_offsets (fold (\<lambda>(n, new) st. fold AddKey new (StartBlock create n st)) blocks st)) \<le> max (w div kFilterBase) (length (fb_offsets st))"
  using assms(2)
proof (induction blocks arbitrary: st)
  case (Cons b blocks)
  obtain n new where b: "b = (n, new)" by (cases b)
  have "n div kFilterBase \<le> w div kFilterBase" using Cons.prems b by (simp add: div_le_mono)
  with Cons.IH [of "fold AddKey new (StartBlock create n st)"] Cons.prems start_block_load [OF assms(1), of "n div kFilterBase" st]
  show ?case by (auto simp: b AddKey_load StartBlock_def algebra_simps)
qed simp

lemma Finish_size:
  assumes "\<forall>keys. keys \<noteq> [] \<longrightarrow> length (create keys []) \<le> c * length keys" and "\<forall>b\<in>set blocks. fst b \<le> w"
  shows "length (Finish create (add_blocks create blocks)) \<le> c * length (concat (map snd blocks)) + w + 9"
proof -
  let ?st = "add_blocks create blocks"
  have len: "length (Finish create st) \<le> filter_load c st + 4 * length (fb_offsets st) + 9" for st
    using GenerateFilter_load [OF assms(1), of st]
    by (auto simp: Finish_def Let_def PutFixed32_length fold_PutFixed32_length filter_load_def)
  have "filter_load c ?st \<le> c * length (concat (map snd blocks))" "length (fb_offsets ?st) \<le> w div kFilterBase"
    using add_blocks_load [OF assms, of new_builder] by (simp_all add: add_blocks_def filter_load_def new_builder_def)
  moreover have "4 * (w div kFilterBase) \<le> w" by (simp add: kFilterBase_def kFilterBaseLg_def)
  ultimately show ?thesis using len [of ?st] by linarith
qed

end

section \<open>Looking up a key\<close>

context table_parts
begin

lemma index_size:
  assumes "index_ok opts ds seps" and "\<forall>d\<in>set ds. d_entries d \<noteq> []"
  shows "entries_size 19 (index_entries seps ds) \<le> entries_size 39 (concat (map d_entries ds))"
proof -
  have len: "length seps = length ds" using assms(1) by (simp add: index_ok_def)
  have "length (seps ! j) \<le> length (d_key (ds ! j))" if j: "j < length ds" for j
  proof (cases "Suc j < length ds")
    case True
    then show ?thesis using assms(1) index_key_length(1) by (simp add: index_ok_def)
  next
    case False
    then have "j = length ds - 1" "ds \<noteq> []" "seps \<noteq> []" using j len by auto
    then have "last seps = seps ! j" "last ds = ds ! j" using len by (simp_all add: last_conv_nth)
    then show ?thesis using assms(1) index_key_length(2) \<open>ds \<noteq> []\<close> by (auto simp: index_ok_def)
  qed
  then have "list_all2 (\<lambda>s d. length s \<le> length (d_key d)) seps ds" using len by (simp add: list_all2_conv_all_nth)
  then show ?thesis using assms(2)
  proof (induction seps ds rule: list_all2_induct)
    case (Cons s seps d ds)
    have "length (d_key d) + 39 \<le> entries_size 39 (d_entries d)" using entry_in_size [of "last (d_entries d)"] Cons.prems by (simp add: d_key_def)
    moreover have "length (BlockHandle_EncodeTo (d_handle d) []) \<le> 20" using handle_length [of "d_handle d"] by (simp add: kMaxEncodedLength_def)
    ultimately show ?case using Cons.hyps Cons.IH Cons.prems by (simp add: index_entries_def)
  qed (simp add: index_entries_def)
qed

lemma table_size:
  assumes "table_file opts P crcx bs es"
  shows "length bs \<le> 3 * entries_size 39 es + filter_cost * length es + 2 ^ 17"
proof -
  from assms obtain ds seps fh m where T: "es = concat (map d_entries ds)" "\<forall>d\<in>set ds. in_file opts P crcx bs d" "index_ok opts ds seps"
      "filter_ok opts crcx bs ds fh m"
      "length bs \<le> entries_size 32 es + m + length (build_block (o_restart_interval opts) (meta_entries opts fh)) + length (build_block 1 (index_entries seps ds)) + 58"
    unfolding table_file_def by blast
  have ne: "\<forall>d\<in>set ds. d_entries d \<noteq> []" using T(2) by (simp add: in_file_def)
  have m: "m \<le> filter_cost * length es + entries_size 32 es + 14 \<and> entries_size 19 (meta_entries opts fh) \<le> 2 ^ 16 + 46"
  proof (cases "o_filter opts")
    case None
    then show ?thesis using T(4) by (simp add: filter_ok_def meta_entries_def)
  next
    case (Some x)
    obtain name create may where x: "x = (name, create, may)" by (cases x)
    note F = filter_law [OF Some [unfolded x]]
    from T(4) obtain w where w: "sorted (map d_offset ds @ [w])" "w \<le> entries_size 32 es"
        "m = length (Finish create (add_blocks create (filter_calls ds (of_nat w) []))) + 5" by (auto simp: filter_ok_def Some x T(1))
    have u: "unat (of_nat n :: u64) \<le> n" for n by (simp add: unsigned_of_nat take_bit_eq_mod)
    have "\<forall>b\<in>set (filter_calls ds (of_nat w) []). fst b \<le> w"
      using w(1) u by (auto simp: filter_calls_def sorted_append simp del: unsigned_of_nat intro: order_trans [OF u])
    then have "length (Finish create (add_blocks create (filter_calls ds (of_nat w) []))) \<le> filter_cost * length (concat (map snd (filter_calls ds (of_nat w) []))) + w + 9"
      using filter_policy.Finish_size [of create may filter_cost] F by blast
    moreover have "length (concat (map snd (filter_calls ds (of_nat w) []))) = length es"
      by (simp add: filter_calls_def T(1) length_concat comp_def)
    moreover have "length (BlockHandle_EncodeTo fh []) \<le> 20" using handle_length [of fh] by (simp add: kMaxEncodedLength_def)
    ultimately show ?thesis using w(2,3) F by (simp add: meta_entries_def Some x bytes_of_def)
  qed
  have "length (build_block 1 (index_entries seps ds)) \<le> entries_size 39 es + 8"
    using build_block_size [of 1 "index_entries seps ds"] index_size [OF T(3) ne] T(1) by simp
  with m T(5) build_block_size [of "o_restart_interval opts" "meta_entries opts fh"] entries_size_mono [of 32 39 es] show ?thesis by simp
qed

text \<open>An iterator over the index block.\<close>

lemma index_cursor:
  assumes "sorted_entries (o_compare opts) valid (concat (map d_entries ds))" and "\<forall>d\<in>set ds. d_entries d \<noteq> []" and "index_ok opts ds seps"
    and "entries_size 39 (concat (map d_entries ds)) + 8 < 2 ^ 32" and "valid k"
  shows "\<exists>it it'. NewIterator (new_Block (build_block 1 (index_entries seps ds))) = Inr it \<and> blk_Seek (o_compare opts) k it = Some it' \<and>
     it_status it' = OK \<and> (let j = length (takeWhile (\<lambda>s. o_compare opts s k < 0) seps) in
       (blk_Valid it' \<longleftrightarrow> j < length ds) \<and> (j < length ds \<longrightarrow> blk_value it' = Some (BlockHandle_EncodeTo (d_handle (ds ! j)) [])))"
proof -
  let ?es = "index_entries seps ds"
  have len: "length seps = length ds" using assms(3) by (simp add: index_ok_def)
  then have f: "map fst ?es = seps" "length ?es = length ds" by (simp_all add: index_entries_def)
  have l: "length (build_block 1 ?es) < 2 ^ 32" using build_block_size [of 1 ?es] index_size [OF assms(3,2)] assms(4) by simp
  note S = index_sorted [OF assms(1-3)]
  from block_cursor [OF _ l, unfolded f(1), OF _ S] obtain it pos where
    it: "NewIterator (new_Block (build_block 1 ?es)) = Inr it" "pos (length ?es) it" "cursor_over (o_compare opts) valid ?es pos" by auto
  have tw: "length (takeWhile (\<lambda>e. o_compare opts (fst e) k < 0) ?es) = length (takeWhile (\<lambda>s. o_compare opts s k < 0) seps)"
    using arg_cong [OF takeWhile_map [of "\<lambda>s. o_compare opts s k < 0" fst ?es], of length] unfolding f(1) by (simp add: comp_def)
  from cursor_over_Seek [OF it(3,2) assms(5)] obtain it' where
    it': "blk_Seek (o_compare opts) k it = Some it'" "pos (length (takeWhile (\<lambda>s. o_compare opts s k < 0) seps)) it'" unfolding tw by blast
  note c = cursor_over_state [OF it(3) it'(2)] cursor_over_entry [OF it(3) it'(2)]
  show ?thesis using it(1) it'(1) c f(2) len by (auto simp: Let_def index_entries_def)
qed

end

context table_world
begin

lemma BlockReader_block:
  assumes "sorted_entries (o_compare opts) valid (d_entries d)" and "in_file opts P crcx (bytes f) d" and "1 \<le> o_restart_interval opts"
    and "entries_size 39 (d_entries d) + 8 < 2 ^ 32" and "valid k"
    and fv: "fvalid f \<and> length (bytes f) < 2 ^ 32"
  shows "\<exists>it it'. BlockReader P crcx (rd f) verify (BlockHandle_EncodeTo (d_handle d) []) = Some (Inr it) \<and> blk_Seek (o_compare opts) k it = Some it' \<and>
     it_status it' = OK \<and> (case first_from (o_compare opts) k (d_entries d) of None \<Rightarrow> \<not> blk_Valid it'
       | Some e \<Rightarrow> blk_Valid it' \<and> it_key it' = fst e \<and> blk_value it' = Some (snd e))"
proof -
  let ?raw = "build_block (o_restart_interval opts) (d_entries d)"
  have l: "length ?raw < 2 ^ 32"
    using build_block_size [of "o_restart_interval opts" "d_entries d"] entries_size_mono [of 19 39 "d_entries d"] assms(4) by simp
  have "stored_raw opts P crcx (bytes f) ?raw (d_handle d)" using assms(2) unfolding stored_raw_def in_file_def d_handle_def by blast
  note R = ReadBlock_stored [OF this build_block_nonempty fv]
  from block_cursor [OF assms(3) l] assms(1) obtain it pos where
    it: "NewIterator (new_Block ?raw) = Inr it" "pos (length (d_entries d)) it" "cursor_over (o_compare opts) valid (d_entries d) pos"
    by (auto simp: sorted_entries_def)
  let ?i = "length (takeWhile (\<lambda>e. o_compare opts (fst e) k < 0) (d_entries d))"
  from cursor_over_Seek [OF it(3,2) assms(5)] obtain it' where
    it': "blk_Seek (o_compare opts) k it = Some it'" "pos ?i it'" by blast
  note c = cursor_over_state [OF it(3) it'(2)] cursor_over_entry [OF it(3) it'(2)]
  have B: "BlockReader P crcx (rd f) verify (BlockHandle_EncodeTo (d_handle d) []) = Some (Inr it)"
    using handle_roundtrip [of "d_handle d" "[]"] R [of verify] it(1) by (simp add: BlockReader_def)
  have "first_from (o_compare opts) k (d_entries d) = (if ?i < length (d_entries d) then Some (d_entries d ! ?i) else None)"
    unfolding first_from_def by (simp add: find_takeWhile Let_def)
  with B it'(1) c show ?thesis by (auto split: if_splits)
qed

lemma InternalGet_table:
  assumes "sorted_entries (o_compare opts) valid (concat (map d_entries ds))" and "\<forall>d\<in>set ds. in_file opts P crcx (bytes f) d" and "index_ok opts ds seps"
    and "entries_size 39 (concat (map d_entries ds)) + 8 < 2 ^ 32" and "1 \<le> o_restart_interval opts"
    and "t_index t = new_Block (build_block 1 (index_entries seps ds))" and "filter_loaded opts (2 ^ 32) ds (t_filter t)" and "valid k"
    and fv: "fvalid f \<and> length (bytes f) < 2 ^ 32"
  shows "\<exists>found. InternalGet opts P crcx (rd f) verify k t = Some (OK, found) \<and>
     (found = first_from (o_compare opts) k (concat (map d_entries ds)) \<or>
      found = None \<and> (\<forall>e. first_from (o_compare opts) k (concat (map d_entries ds)) = Some e \<longrightarrow> \<not> same k (fst e)))"
proof -
  have ne: "\<forall>d\<in>set ds. d_entries d \<noteq> []" using assms(2) by (auto simp: in_file_def)
  define j where "j = length (takeWhile (\<lambda>s. o_compare opts s k < 0) seps)"
  note L = index_lookup [OF assms(1) ne assms(3,8) j_def]
  have jl: "j \<le> length ds" using assms(3) length_takeWhile_le [of _ seps] by (simp add: j_def index_ok_def)
  from index_cursor [OF assms(1) ne assms(3,4,8)] obtain it it' where
    it: "NewIterator (t_index t) = Inr it" "blk_Seek (o_compare opts) k it = Some it'" "it_status it' = OK" "blk_Valid it' \<longleftrightarrow> j < length ds"
      "j < length ds \<Longrightarrow> blk_value it' = Some (BlockHandle_EncodeTo (d_handle (ds ! j)) [])"
    unfolding Let_def j_def [symmetric] assms(6) by blast
  show ?thesis
  proof (cases "j < length ds")
    case False
    then show ?thesis using it L(1) jl by (simp add: InternalGet_def)
  next
    case True
    let ?d = "ds ! j"
    have d: "?d \<in> set ds" using True by simp
    show ?thesis
    proof (cases "filter_skips opts t (BlockHandle_EncodeTo (d_handle ?d) []) k")
      case skip: True
      have "\<not> same k (fst e)" if "first_from (o_compare opts) k (concat (map d_entries ds)) = Some e" for e
      proof (cases "first_from (o_compare opts) k (d_entries ?d)")
        case None
        from L(3) [OF True None that] show ?thesis .
      next
        case (Some e')
        have "e' \<in> set (d_entries ?d)" using Some by (auto simp: first_from_def find_Some_iff)
        then show ?thesis using L(2) [OF True Some] that filter_passes [OF assms(7) d, of e k] skip by auto
      qed
      then show ?thesis using it True skip by (simp add: InternalGet_def)
    next
      case False
      have "entries_size 39 (d_entries ?d) + 8 < 2 ^ 32" using block_in_size [OF d, of 39] assms(4) by simp
      from BlockReader_block [OF block_sorted [OF assms(1) d] _ assms(5) this assms(8) fv, of verify] assms(2) d obtain b b' where
        b: "BlockReader P crcx (rd f) verify (BlockHandle_EncodeTo (d_handle ?d) []) = Some (Inr b)" "blk_Seek (o_compare opts) k b = Some b'" "it_status b' = OK"
          "case first_from (o_compare opts) k (d_entries ?d) of None \<Rightarrow> \<not> blk_Valid b' | Some e \<Rightarrow> blk_Valid b' \<and> it_key b' = fst e \<and> blk_value b' = Some (snd e)"
        by blast
      have "InternalGet opts P crcx (rd f) verify k t = Some (OK, first_from (o_compare opts) k (d_entries ?d))"
        using it True False b by (simp add: InternalGet_def split: option.splits)
      then show ?thesis using L(2,3) [OF True] by (cases "first_from (o_compare opts) k (d_entries ?d)") auto
    qed
  qed
qed

text \<open>Any finished table can be opened, and every lookup in it finds what it should.\<close>

lemma table_lookup:
  assumes "table_file opts P crcx (bytes f) es" and "sorted_entries (o_compare opts) valid es" and "1 \<le> o_restart_interval opts"
    and "3 * entries_size 39 es + filter_cost * length es + 2 ^ 17 < 2 ^ 32" and "fvalid f"
  shows "\<exists>t. Table_Open opts P crcx (rd f) (of_nat (length (bytes f))) = Some (Inr t) \<and>
     (\<forall>k verify. valid k \<longrightarrow> (\<exists>found. InternalGet opts P crcx (rd f) verify k t = Some (OK, found) \<and>
        (found = first_from (o_compare opts) k es \<or>
         found = None \<and> (\<forall>e. first_from (o_compare opts) k es = Some e \<longrightarrow> \<not> same k (fst e)))))"
proof -
  from assms(1) obtain ds seps fh footer m body_bytes where T: "es = concat (map d_entries ds)" "\<forall>d\<in>set ds. in_file opts P crcx (bytes f) d"
      "index_ok opts ds seps" "filter_ok opts crcx (bytes f) ds fh m"
      "stored_raw opts P crcx (bytes f) (build_block (o_restart_interval opts) (meta_entries opts fh)) (metaindex_handle footer)"
      "stored_raw opts P crcx (bytes f) (build_block 1 (index_entries seps ds)) (index_handle footer)"
      "bytes f = body_bytes @ Footer_EncodeTo footer []" unfolding table_file_def by blast
  have sz: "entries_size 39 es + 8 < 2 ^ 32" and fv: "fvalid f \<and> length (bytes f) < 2 ^ 32"
    using table_size [OF assms(1)] assms(4,5) by simp_all
  from Open_table [OF assms(3) T(4-7) fv] obtain t where
    t: "Table_Open opts P crcx (rd f) (of_nat (length (bytes f))) = Some (Inr t)" "t_index t = new_Block (build_block 1 (index_entries seps ds))"
      "filter_loaded opts (2 ^ 32) ds (t_filter t)" by blast
  show ?thesis
    using t(1) InternalGet_table [OF assms(2) [unfolded T(1)] T(2,3) sz [unfolded T(1)] assms(3) t(2,3) _ fv] unfolding T(1) by blast
qed

lemma ApproximateOffsetOf_table:
  assumes "sorted_entries (o_compare opts) valid (concat (map d_entries ds))" and "\<forall>d\<in>set ds. d_entries d \<noteq> []" and "index_ok opts ds seps"
    and "entries_size 39 (concat (map d_entries ds)) + 8 < 2 ^ 32" and "valid k" and "t_index t = new_Block (build_block 1 (index_entries seps ds))"
  shows "ApproximateOffsetOf opts k t =
     (let j = length (takeWhile (\<lambda>s. o_compare opts s k < 0) seps) in
      Some (if j < length ds then of_nat (d_offset (ds ! j)) else bh_offset (t_metaindex t)))"
proof -
  from index_cursor [OF assms(1-5)] obtain it it' where
    it: "NewIterator (t_index t) = Inr it" "blk_Seek (o_compare opts) k it = Some it'"
      "let j = length (takeWhile (\<lambda>s. o_compare opts s k < 0) seps) in
       (blk_Valid it' \<longleftrightarrow> j < length ds) \<and> (j < length ds \<longrightarrow> blk_value it' = Some (BlockHandle_EncodeTo (d_handle (ds ! j)) []))"
    unfolding assms(6) by blast
  moreover have "BlockHandle_DecodeFrom (BlockHandle_EncodeTo (d_handle d) []) = Inr (d_handle d, [])" for d
    using handle_roundtrip [of "d_handle d" "[]"] by simp
  ultimately show ?thesis by (auto simp: ApproximateOffsetOf_def Let_def d_handle_def handle_of_def)
qed

end

end
