(* ===== verification/LogFile.thy ===== *)
theory LogFile
  imports Crc
begin

unbundle bit_operations_syntax

text \<open>
  The write-ahead log: \<^verbatim>\<open>db/log_writer.cc\<close> splits records into fragments that never cross
  a 32 KiB block, \<^verbatim>\<open>db/log_reader.cc\<close> puts them together again. The checksum routine is an
  argument. The operations of a writable file are arguments of the writer; for the reader,
  what the successive calls of \<^verbatim>\<open>Read\<close> return is part of its state. Offsets are 64-bit words.
\<close>

section \<open>Format\<close>

definition kBlockSize :: nat where
  "kBlockSize = 32768"

definition kHeaderSize :: nat where
  "kHeaderSize = 4 + 2 + 1"

datatype RecordType = kZeroType | kFullType | kFirstType | kMiddleType | kLastType

definition record_type_code :: "RecordType \<Rightarrow> nat" where
  "record_type_code t = (case t of kZeroType \<Rightarrow> 0 | kFullType \<Rightarrow> 1 | kFirstType \<Rightarrow> 2 | kMiddleType \<Rightarrow> 3 | kLastType \<Rightarrow> 4)"

definition kEof :: nat where
  "kEof = 5"

definition kBadRecord :: nat where
  "kBadRecord = 6"

section \<open>Writer\<close>

record 'f log_writer =
  dest :: 'f
  block_offset :: nat

text \<open>\<open>fappend\<close> and \<open>fflush\<close> are the operations of the file; they return whether they succeeded.\<close>

definition type_crc :: "(u32 \<Rightarrow> byte list \<Rightarrow> u32) \<Rightarrow> RecordType \<Rightarrow> u32" where
  "type_crc crcx t = crc_Value crcx [of_nat (record_type_code t)]"

definition record_header :: "(u32 \<Rightarrow> byte list \<Rightarrow> u32) \<Rightarrow> RecordType \<Rightarrow> byte list \<Rightarrow> byte list" where
  "record_header crcx t ptr =
     EncodeFixed32 (Mask (crcx (type_crc crcx t) ptr)) @
     [of_nat (length ptr), of_nat (length ptr div 256), of_nat (record_type_code t)]"

definition EmitPhysicalRecord ::
  "(u32 \<Rightarrow> byte list \<Rightarrow> u32) \<Rightarrow> ('f \<Rightarrow> byte list \<Rightarrow> bool \<times> 'f) \<Rightarrow> ('f \<Rightarrow> bool \<times> 'f) \<Rightarrow> RecordType \<Rightarrow> byte list \<Rightarrow>
   'f log_writer \<Rightarrow> bool \<times> 'f log_writer" where
  "EmitPhysicalRecord crcx fappend fflush t ptr w =
     (let (ok1, f1) = fappend (dest w) (record_header crcx t ptr);
          (ok2, f2) = (if ok1 then fappend f1 ptr else (ok1, f1));
          (ok3, f3) = (if ok1 \<and> ok2 then fflush f2 else (False, f2))
      in (ok3, w\<lparr> dest := f3, block_offset := block_offset w + (kHeaderSize + length ptr) \<rparr>))"

text \<open>The start of a round of \<^verbatim>\<open>AddRecord\<close>: a new block if no header fits. The status of the filler is not looked at.\<close>

definition switch_block :: "('f \<Rightarrow> byte list \<Rightarrow> bool \<times> 'f) \<Rightarrow> 'f log_writer \<Rightarrow> 'f log_writer" where
  "switch_block fappend w =
     (let leftover = kBlockSize - block_offset w in
      if leftover < kHeaderSize
      then \<lparr> dest = (if 0 < leftover then snd (fappend (dest w) (replicate leftover 0)) else dest w), block_offset = 0 \<rparr>
      else w)"

definition fragment_type :: "bool \<Rightarrow> bool \<Rightarrow> RecordType" where
  "fragment_type first ends =
     (if first \<and> ends then kFullType else if first then kFirstType else if ends then kLastType else kMiddleType)"

lemma switch_block_offset:
  "block_offset (switch_block fappend w) = (if kBlockSize - block_offset w < kHeaderSize then 0 else block_offset w)"
  by (simp add: switch_block_def Let_def)

lemma EmitPhysicalRecord_offset:
  "EmitPhysicalRecord crcx fappend fflush t ptr w = (ok, w') \<Longrightarrow> block_offset w' = block_offset w + (kHeaderSize + length ptr)"
  by (auto simp: EmitPhysicalRecord_def Let_def split: prod.splits)

text \<open>Bytes left to write count twice: a block with room for just a header takes one more round.\<close>

definition rounds_left :: "nat \<Rightarrow> nat \<Rightarrow> nat" where
  "rounds_left left off = 2 * left + (if kBlockSize - off = kHeaderSize then 1 else 0)"

lemma rounds_decrease:
  assumes "off = (if kBlockSize - off0 < kHeaderSize then 0 else off0)" and "n = min left (kBlockSize - off - kHeaderSize)" and "n < left"
  shows "rounds_left (left - n) (off + (kHeaderSize + n)) < rounds_left left off0"
  using assms by (auto simp: rounds_left_def kBlockSize_def kHeaderSize_def min_def split: if_splits)

function add_fragments ::
  "(u32 \<Rightarrow> byte list \<Rightarrow> u32) \<Rightarrow> ('f \<Rightarrow> byte list \<Rightarrow> bool \<times> 'f) \<Rightarrow> ('f \<Rightarrow> bool \<times> 'f) \<Rightarrow> bool \<Rightarrow> byte list \<Rightarrow>
   'f log_writer \<Rightarrow> bool \<times> 'f log_writer" where
  "add_fragments crcx fappend fflush first ptr w =
     (let w1 = switch_block fappend w;
          avail = kBlockSize - block_offset w1 - kHeaderSize;
          fragment_length = (if length ptr < avail then length ptr else avail);
          (ok, w2) = EmitPhysicalRecord crcx fappend fflush (fragment_type first (length ptr = fragment_length)) (take fragment_length ptr) w1
      in if ok \<and> fragment_length < length ptr then add_fragments crcx fappend fflush False (drop fragment_length ptr) w2
         else (ok, w2))"
  by pat_completeness auto
termination
proof (relation "measure (\<lambda>(crcx, fappend, fflush, first, ptr, w). rounds_left (length ptr) (block_offset w))", goal_cases)
  case (2 crcx fappend fflush first ptr w w1 avail n p ok w2)
  have "block_offset w2 = block_offset w1 + (kHeaderSize + n)"
    using EmitPhysicalRecord_offset [OF trans [OF 2(4) [symmetric] 2(5) [symmetric]]] 2 by (simp split: if_splits)
  with rounds_decrease [of "block_offset w1" "block_offset w" n "length ptr"] 2 show ?case
    by (auto simp: switch_block_offset min_def split: if_splits)
qed simp

definition AddRecord ::
  "(u32 \<Rightarrow> byte list \<Rightarrow> u32) \<Rightarrow> ('f \<Rightarrow> byte list \<Rightarrow> bool \<times> 'f) \<Rightarrow> ('f \<Rightarrow> bool \<times> 'f) \<Rightarrow> byte list \<Rightarrow>
   'f log_writer \<Rightarrow> bool \<times> 'f log_writer" where
  "AddRecord crcx fappend fflush record w = add_fragments crcx fappend fflush True record w"

definition new_writer :: "'f \<Rightarrow> nat \<Rightarrow> 'f log_writer" where
  "new_writer f dest_length = \<lparr> dest = f, block_offset = dest_length mod kBlockSize \<rparr>"

declare add_fragments.simps [simp del]

section \<open>Reader\<close>

text \<open>
  \<open>reads\<close> are the results of the coming calls of \<^verbatim>\<open>Read\<close>: whether they succeed and what they
  return; after the last one they return nothing. \<open>skip_to\<close> is what a call of \<^verbatim>\<open>Skip\<close> does.
\<close>

record log_reader =
  reads :: "(bool \<times> byte list) list"
  skip_to :: "nat \<Rightarrow> bool \<times> (bool \<times> byte list) list"
  has_reporter :: bool
  verify :: bool
  rbuffer :: "byte list"
  eof :: bool
  last_record_offset :: u64
  end_of_buffer_offset :: u64
  initial_offset :: u64
  resyncing :: bool
  reports :: "nat list"

definition new_log_reader :: "(bool \<times> byte list) list \<Rightarrow> (nat \<Rightarrow> bool \<times> (bool \<times> byte list) list) \<Rightarrow> bool \<Rightarrow> bool \<Rightarrow> u64 \<Rightarrow> log_reader" where
  "new_log_reader rs skip reporter crc_check offset =
     \<lparr> reads = rs, skip_to = skip, has_reporter = reporter, verify = crc_check, rbuffer = [], eof = False,
       last_record_offset = 0, end_of_buffer_offset = 0, initial_offset = offset, resyncing = 0 < offset, reports = [] \<rparr>"

definition ReportDrop :: "nat \<Rightarrow> log_reader \<Rightarrow> log_reader" where
  "ReportDrop bytes r =
     (if has_reporter r \<and> initial_offset r \<le> end_of_buffer_offset r - of_nat (length (rbuffer r)) - of_nat bytes
      then r\<lparr> reports := reports r @ [bytes] \<rparr> else r)"

text \<open>\<^verbatim>\<open>header[6]\<close> is a signed character widened to an unsigned integer.\<close>

definition header_type :: "byte \<Rightarrow> nat" where
  "header_type b = (if unat b < 128 then unat b else 2 ^ 32 - 256 + unat b)"

definition header_length :: "byte list \<Rightarrow> nat" where
  "header_length header = unat ((ucast (header ! 4) :: u32) OR push_bit 8 (ucast (header ! 5)))"

text \<open>
  The part of \<^verbatim>\<open>ReadPhysicalRecord\<close> after the buffer holds a header. The result is the type, the
  fragment (unchanged where the code does not assign it) and the reader.
\<close>

definition parse_record :: "(u32 \<Rightarrow> byte list \<Rightarrow> u32) \<Rightarrow> byte list \<Rightarrow> log_reader \<Rightarrow> nat \<times> byte list \<times> log_reader" where
  "parse_record crcx fragment r =
     (let header = rbuffer r; type = header_type (header ! 6); len = header_length header in
      if length header < kHeaderSize + len
      then (let r1 = r\<lparr> rbuffer := [] \<rparr> in
            if \<not> eof r then (kBadRecord, fragment, ReportDrop (length header) r1) else (kEof, fragment, r1))
      else if type = record_type_code kZeroType \<and> len = 0 then (kBadRecord, fragment, r\<lparr> rbuffer := [] \<rparr>)
      else if verify r \<and> crc_Value crcx (take (1 + len) (drop 6 header)) \<noteq> Unmask (DecodeFixed32 header)
      then (kBadRecord, fragment, ReportDrop (length header) (r\<lparr> rbuffer := [] \<rparr>))
      else (let r1 = r\<lparr> rbuffer := drop (kHeaderSize + len) header \<rparr> in
            if end_of_buffer_offset r1 - of_nat (length (rbuffer r1)) - of_nat kHeaderSize - of_nat len < initial_offset r1
            then (kBadRecord, [], r1)
            else (type, take len (drop kHeaderSize header), r1)))"

text \<open>
  The loop of \<^verbatim>\<open>ReadPhysicalRecord\<close> goes round at most once more: after a read the buffer holds a
  whole block, or the end of the file was reached.
\<close>

definition ReadPhysicalRecord :: "(u32 \<Rightarrow> byte list \<Rightarrow> u32) \<Rightarrow> byte list \<Rightarrow> log_reader \<Rightarrow> nat \<times> byte list \<times> log_reader" where
  "ReadPhysicalRecord crcx fragment r =
     (if length (rbuffer r) < kHeaderSize
      then (if \<not> eof r
            then (let (ok, data, rest) = (case reads r of [] \<Rightarrow> (True, [], []) | (ok, data) # rest \<Rightarrow> (ok, data, rest));
                      r1 = r\<lparr> reads := rest, rbuffer := data, end_of_buffer_offset := end_of_buffer_offset r + of_nat (length data) \<rparr>
                  in if \<not> ok then (kEof, fragment, (ReportDrop kBlockSize (r1\<lparr> rbuffer := [] \<rparr>))\<lparr> eof := True \<rparr>)
                     else (let r2 = r1\<lparr> eof := (length data < kBlockSize) \<rparr> in
                           if length data < kHeaderSize then (kEof, fragment, r2\<lparr> rbuffer := [] \<rparr>)
                           else parse_record crcx fragment r2))
            else (kEof, fragment, r\<lparr> rbuffer := [] \<rparr>))
      else parse_record crcx fragment r)"

text \<open>What is left to read; every physical record takes something from it.\<close>

definition unread :: "log_reader \<Rightarrow> nat" where
  "unread r = length (rbuffer r) + sum_list (map (\<lambda>(ok, data). Suc (length data)) (reads r))"

lemma ReportDrop_sel [simp]:
  "reads (ReportDrop n r) = reads r" "rbuffer (ReportDrop n r) = rbuffer r" "resyncing (ReportDrop n r) = resyncing r"
  by (simp_all add: ReportDrop_def)

lemma parse_record_unread:
  assumes "parse_record crcx fragment r = (t, f, r')" and "0 < length (rbuffer r)"
  shows "unread r' < unread r"
  using assms by (auto simp: parse_record_def Let_def unread_def kHeaderSize_def split: if_splits)

lemma ReadPhysicalRecord_unread:
  assumes "ReadPhysicalRecord crcx fragment r = (t, f, r')" and "t \<noteq> kEof"
  shows "unread r' < unread r"
proof (cases "length (rbuffer r) < kHeaderSize")
  case True
  with assms have e: "\<not> eof r" by (auto simp: ReadPhysicalRecord_def)
  obtain ok data rest where rd: "(case reads r of [] \<Rightarrow> (True, [], []) | (ok, data) # rest \<Rightarrow> (ok, data, rest)) = (ok, data, rest)"
    by (metis prod_cases3)
  define r2 where "r2 = r\<lparr> reads := rest, rbuffer := data, end_of_buffer_offset := end_of_buffer_offset r + of_nat (length data),
      eof := (length data < kBlockSize) \<rparr>"
  have p: "ok" "\<not> length data < kHeaderSize" "parse_record crcx fragment r2 = (t, f, r')"
    using assms True e rd by (auto simp: ReadPhysicalRecord_def Let_def r2_def split: if_splits)
  have "0 < length (rbuffer r2)" using p(2) by (cases data) (simp_all add: r2_def kHeaderSize_def)
  then have "unread r' < unread r2" by (rule parse_record_unread [OF p(3)])
  also have "unread r2 \<le> unread r" using rd p(2) by (auto simp: unread_def r2_def kHeaderSize_def split: list.splits)
  finally show ?thesis .
next
  case False
  with assms(1) have "parse_record crcx fragment r = (t, f, r')" by (simp add: ReadPhysicalRecord_def)
  moreover have "0 < length (rbuffer r)" using False by (cases "rbuffer r") (simp_all add: kHeaderSize_def)
  ultimately show ?thesis by (rule parse_record_unread)
qed

lemma unread_resyncing [simp]: "unread (r\<lparr> resyncing := b \<rparr>) = unread r" "unread (ReportDrop n r) = unread r"
  by (simp_all add: unread_def)

text \<open>
  The loop of \<^verbatim>\<open>ReadRecord\<close>. \<open>frag\<close> says that the first part of a record was seen, \<open>start\<close> is the
  offset of that part. The result is the record, if one was found.
\<close>

function read_loop ::
  "(u32 \<Rightarrow> byte list \<Rightarrow> u32) \<Rightarrow> byte list \<Rightarrow> bool \<Rightarrow> byte list \<Rightarrow> u64 \<Rightarrow> log_reader \<Rightarrow> byte list option \<times> log_reader" where
  "read_loop crcx fragment0 in_frag scratch start r0 =
     (let (type, fragment, r) = ReadPhysicalRecord crcx fragment0 r0;
          offset = end_of_buffer_offset r - of_nat (length (rbuffer r)) - of_nat kHeaderSize - of_nat (length fragment)
      in if type = kEof then (None, r\<lparr> resyncing := False \<rparr>)
         else if resyncing r \<and> type = record_type_code kMiddleType then read_loop crcx fragment in_frag scratch start r
         else if resyncing r \<and> type = record_type_code kLastType
         then read_loop crcx fragment in_frag scratch start (r\<lparr> resyncing := False \<rparr>)
         else (let r = r\<lparr> resyncing := False \<rparr> in
               if type = record_type_code kFullType
               then (let r = (if in_frag \<and> scratch \<noteq> [] then ReportDrop (length scratch) r else r)
                     in (Some fragment, r\<lparr> last_record_offset := offset \<rparr>))
               else if type = record_type_code kFirstType
               then (let r = (if in_frag \<and> scratch \<noteq> [] then ReportDrop (length scratch) r else r)
                     in read_loop crcx fragment True fragment offset r)
               else if type = record_type_code kMiddleType
               then (if \<not> in_frag then read_loop crcx fragment in_frag scratch start (ReportDrop (length fragment) r)
                     else read_loop crcx fragment in_frag (scratch @ fragment) start r)
               else if type = record_type_code kLastType
               then (if \<not> in_frag then read_loop crcx fragment in_frag scratch start (ReportDrop (length fragment) r)
                     else (Some (scratch @ fragment), r\<lparr> last_record_offset := start \<rparr>))
               else if type = kBadRecord
               then (if in_frag then read_loop crcx fragment False [] start (ReportDrop (length scratch) r)
                     else read_loop crcx fragment in_frag scratch start r)
               else read_loop crcx fragment False [] start
                      (ReportDrop (length fragment + (if in_frag then length scratch else 0)) r)))"
  by pat_completeness auto

termination
  by (relation "measure (\<lambda>(crcx, fragment, in_frag, scratch, start, r). unread r)")
    (auto dest!: ReadPhysicalRecord_unread [OF sym])

declare read_loop.simps [simp del]

definition SkipToInitialBlock :: "log_reader \<Rightarrow> bool \<times> log_reader" where
  "SkipToInitialBlock r =
     (let offset_in_block = unat (initial_offset r) mod kBlockSize;
          block_start_location0 = unat (initial_offset r) - offset_in_block;
          block_start_location = (if kBlockSize - 6 < offset_in_block then block_start_location0 + kBlockSize else block_start_location0);
          r1 = r\<lparr> end_of_buffer_offset := of_nat block_start_location \<rparr>
      in if 0 < block_start_location
         then (let (ok, rest) = skip_to r block_start_location; r2 = r1\<lparr> reads := rest \<rparr> in
               if \<not> ok then (False, ReportDrop block_start_location r2) else (True, r2))
         else (True, r1))"

definition ReadRecord :: "(u32 \<Rightarrow> byte list \<Rightarrow> u32) \<Rightarrow> log_reader \<Rightarrow> byte list option \<times> log_reader" where
  "ReadRecord crcx r =
     (if last_record_offset r < initial_offset r
      then (case SkipToInitialBlock r of (True, r1) \<Rightarrow> read_loop crcx [] False [] 0 r1 | (False, r1) \<Rightarrow> (None, r1))
      else read_loop crcx [] False [] 0 r)"

section \<open>Reading back one physical record\<close>

text \<open>What reading a file block by block returns.\<close>

function file_reads :: "byte list \<Rightarrow> (bool \<times> byte list) list" where
  "file_reads xs = (if xs = [] then [] else (True, take kBlockSize xs) # file_reads (drop kBlockSize xs))"
  by auto
termination by (relation "measure length") (auto simp: kBlockSize_def)

declare file_reads.simps [simp del]

lemma file_reads_small: "length xs \<le> kBlockSize \<Longrightarrow> file_reads xs = (if xs = [] then [] else [(True, xs)])"
  by (subst file_reads.simps) (simp add: file_reads.simps [of "[]"])

definition frame :: "(u32 \<Rightarrow> byte list \<Rightarrow> u32) \<Rightarrow> RecordType \<Rightarrow> byte list \<Rightarrow> byte list" where
  "frame crcx t ptr = record_header crcx t ptr @ ptr"

definition filler :: "nat \<Rightarrow> byte list" where
  "filler off = (if kBlockSize - off < kHeaderSize then replicate (kBlockSize - off) 0 else [])"

definition next_offset :: "nat \<Rightarrow> nat" where
  "next_offset off = (if kBlockSize - off < kHeaderSize then 0 else off)"

text \<open>The reader has \<open>B\<close> before it, starting at offset \<open>off\<close> of a block.\<close>

definition at_pos :: "byte list \<Rightarrow> nat \<Rightarrow> log_reader \<Rightarrow> bool" where
  "at_pos B off r \<longleftrightarrow> off \<le> kBlockSize \<and> rbuffer r = take (kBlockSize - off) B \<and> reads r = file_reads (drop (kBlockSize - off) B) \<and>
     eof r = (off + length B < kBlockSize) \<and> initial_offset r = 0 \<and> \<not> resyncing r \<and> reports r = []"

lemma at_pos_offset [simp]: "at_pos B off (r\<lparr> last_record_offset := m \<rparr>) = at_pos B off r"
  by (simp add: at_pos_def)

lemma header_length_back:
  assumes "n < 65536"
  shows "unat ((ucast (of_nat n :: byte) :: u32) OR push_bit 8 (ucast (of_nat (n div 256) :: byte))) = n"
proof -
  let ?v = "of_nat n :: u32"
  have b: "of_nat n = (ucast ?v :: byte)" "of_nat (n div 256) = (ucast (drop_bit 8 ?v) :: byte)"
    using assms ucast_down_of_nat [where 'a = 32 and 'b = 8, of n] ucast_drop_bit [of 8 ?v] by (simp_all add: unat_of_nat_small del: unsigned_of_nat)
  have "ucast (of_nat n :: byte) OR push_bit 8 (ucast (of_nat (n div 256) :: byte)) = take_bit 16 ?v"
    unfolding b using take_bit_next_byte [of 8 ?v] by (simp add: take_bit_first_byte)
  then show ?thesis using assms by (simp only: unat_take_bit) (simp add: unat_of_nat_small del: unsigned_of_nat)
qed

lemma frame_length: "length (frame crcx t ptr) = kHeaderSize + length ptr"
  by (simp add: frame_def record_header_def kHeaderSize_def)

lemma type_byte: "unat (of_nat (record_type_code t) :: byte) = record_type_code t" "record_type_code t < 5"
  by (cases t; simp add: record_type_code_def)+

text \<open>The in-memory file of \<^verbatim>\<open>helpers/memenv\<close>: its operations never fail.\<close>

definition mem_append :: "byte list \<Rightarrow> byte list \<Rightarrow> bool \<times> byte list" where
  "mem_append f xs = (True, f @ xs)"

definition mem_flush :: "byte list \<Rightarrow> bool \<times> byte list" where
  "mem_flush f = (True, f)"

lemma emit_mem:
  "EmitPhysicalRecord crcx mem_append mem_flush t ptr w =
     (True, w\<lparr> dest := dest w @ frame crcx t ptr, block_offset := block_offset w + (kHeaderSize + length ptr) \<rparr>)"
  by (simp add: EmitPhysicalRecord_def mem_append_def mem_flush_def frame_def)

lemma switch_mem:
  "switch_block mem_append w = w\<lparr> dest := dest w @ filler (block_offset w), block_offset := next_offset (block_offset w) \<rparr>"
  by (simp add: switch_block_def mem_append_def filler_def next_offset_def Let_def)

text \<open>Writing some records, and reading a number of times.\<close>

definition write_records :: "(u32 \<Rightarrow> byte list \<Rightarrow> u32) \<Rightarrow> byte list list \<Rightarrow> byte list log_writer \<Rightarrow> byte list log_writer" where
  "write_records crcx rs w = fold (\<lambda>rec w. snd (AddRecord crcx mem_append mem_flush rec w)) rs w"

primrec read_records :: "nat \<Rightarrow> (u32 \<Rightarrow> byte list \<Rightarrow> u32) \<Rightarrow> log_reader \<Rightarrow> byte list option list \<times> log_reader" where
  "read_records 0 crcx r = ([], r)"
| "read_records (Suc n) crcx r =
     (let (x, r1) = ReadRecord crcx r; (xs, r2) = read_records n crcx r1 in (x # xs, r2))"

lemma read_records_Suc:
  "ReadRecord crcx r = (x, r1) \<Longrightarrow> read_records n crcx r1 = (xs, r2) \<Longrightarrow> read_records (Suc n) crcx r = (x # xs, r2)"
  by simp

lemma ReadRecord_start: "at_pos B off r \<Longrightarrow> ReadRecord crcx r = read_loop crcx [] False [] 0 r"
  by (simp add: ReadRecord_def at_pos_def)

text \<open>A writer at the start of a block writes what one at the end of a block does.\<close>

lemma AddRecord_block_start:
  "AddRecord crcx mem_append mem_flush rec (w\<lparr> block_offset := 0 \<rparr>) =
   AddRecord crcx mem_append mem_flush rec (w\<lparr> block_offset := kBlockSize \<rparr>)"
  unfolding AddRecord_def
  by (subst (1 2) add_fragments.simps) (simp add: switch_mem filler_def next_offset_def kBlockSize_def kHeaderSize_def)

lemma write_records_start:
  "dest (write_records crcx rs (new_writer [] 0)) = dest (write_records crcx rs \<lparr> dest = [], block_offset = kBlockSize \<rparr>)"
  using AddRecord_block_start [of crcx _ "\<lparr> dest = [], block_offset = kBlockSize \<rparr>"]
  by (cases rs) (simp_all add: write_records_def new_writer_def)

lemma reader_start: "at_pos bytes kBlockSize (new_log_reader (file_reads bytes) skip reporter verify_crc 0)"
  by (simp add: at_pos_def new_log_reader_def)

text \<open>\<open>reads_back ext first ptr bytes off off'\<close>: a reader at offset \<open>off\<close> of a block reads \<open>bytes\<close> as the (rest of the) record \<open>ptr\<close>
  and is then at offset \<open>off'\<close>; if the bytes are cut off, it reads no record.\<close>

definition reads_back :: "(32 word \<Rightarrow> byte list \<Rightarrow> 32 word) \<Rightarrow> bool \<Rightarrow> byte list \<Rightarrow> byte list \<Rightarrow> nat \<Rightarrow> nat \<Rightarrow> bool" where
  "reads_back ext first ptr bytes off off' \<longleftrightarrow>
     (\<forall>B r fragment scratch start. at_pos (bytes @ B) off r \<longrightarrow> (first \<longrightarrow> scratch = []) \<longrightarrow>
        (\<exists>r'. read_loop ext fragment (\<not> first) scratch start r = (Some (scratch @ ptr), r') \<and> at_pos B off' r')) \<and>
     (\<forall>k r fragment scratch start. k < length bytes \<longrightarrow> at_pos (take k bytes) off r \<longrightarrow> (first \<longrightarrow> scratch = []) \<longrightarrow>
        (\<exists>r'. read_loop ext fragment (\<not> first) scratch start r = (None, r') \<and> reports r' = []))"

lemma reads_back_read:
  "reads_back ext first ptr bytes off off' \<Longrightarrow> at_pos (bytes @ B) off r \<Longrightarrow> (first \<longrightarrow> scratch = []) \<Longrightarrow>
     \<exists>r'. read_loop ext fragment (\<not> first) scratch start r = (Some (scratch @ ptr), r') \<and> at_pos B off' r'"
  unfolding reads_back_def by blast

lemma reads_back_cut:
  "reads_back ext first ptr bytes off off' \<Longrightarrow> k < length bytes \<Longrightarrow> at_pos (take k bytes) off r \<Longrightarrow> (first \<longrightarrow> scratch = []) \<Longrightarrow>
     \<exists>r'. read_loop ext fragment (\<not> first) scratch start r = (None, r') \<and> reports r' = []"
  unfolding reads_back_def by blast

context checksum
begin

lemma parse_frame:
  assumes "rbuffer r = frame extend t ptr @ rest" and "t \<noteq> kZeroType" and "length ptr < 65536" and "initial_offset r = 0"
  shows "parse_record extend fragment r = (record_type_code t, ptr, r\<lparr> rbuffer := rest \<rparr>)"
proof -
  let ?h = "rbuffer r"
  have ix: "?h ! 4 = of_nat (length ptr)" "?h ! 5 = of_nat (length ptr div 256)" "?h ! 6 = of_nat (record_type_code t)"
    using assms(1) by (simp_all add: frame_def record_header_def nth_append)
  have len: "header_length ?h = length ptr" unfolding header_length_def ix by (rule header_length_back [OF assms(3)])
  have ty: "header_type (?h ! 6) = record_type_code t" unfolding ix header_type_def type_byte(1) using type_byte(2) [of t] by simp
  have "drop 6 ?h = of_nat (record_type_code t) # ptr @ rest" "drop kHeaderSize ?h = ptr @ rest"
    using assms(1) by (simp_all add: frame_def record_header_def kHeaderSize_def)
  moreover have "DecodeFixed32 ?h = Mask (extend (type_crc extend t) ptr)" using assms(1) by (simp add: frame_def record_header_def)
  moreover have "extend (type_crc extend t) ptr = crc_Value extend (of_nat (record_type_code t) # ptr)"
    using Value_extend [of "[of_nat (record_type_code t)]" ptr] by (simp add: type_crc_def)
  moreover have "length ?h = kHeaderSize + length ptr + length rest" using assms(1) by (simp add: frame_length)
  moreover have "drop (kHeaderSize + length ptr) ?h = rest" using assms(1) frame_length [of extend t ptr] by simp
  moreover have "record_type_code t \<noteq> 0" using assms(2) by (cases t) (simp_all add: record_type_code_def)
  ultimately show ?thesis
    unfolding parse_record_def Let_def ty len using assms(4) by (simp add: record_type_code_def)
qed

lemma read_frame:
  assumes pos: "at_pos (filler off @ frame extend t ptr @ B) off r" and t: "t \<noteq> kZeroType"
    and fits: "next_offset off + (kHeaderSize + length ptr) \<le> kBlockSize"
  shows "\<exists>r'. ReadPhysicalRecord extend fragment r = (record_type_code t, ptr, r') \<and>
     at_pos B (next_offset off + (kHeaderSize + length ptr)) r'"
proof -
  let ?F = "frame extend t ptr @ B" and ?o = "next_offset off" and ?n = "kHeaderSize + length ptr"
  have short: "length ptr < 65536" using fits by (simp add: kBlockSize_def)
  have F: "take (kBlockSize - ?o) ?F = frame extend t ptr @ take (kBlockSize - (?o + ?n)) B"
    "drop (kBlockSize - ?o) ?F = drop (kBlockSize - (?o + ?n)) B"
    using fits frame_length [of extend t ptr] by (simp_all add: diff_diff_add)
  have fl: "length (frame extend t ptr) = ?n" by (rule frame_length)
  show ?thesis
  proof (cases "kBlockSize - off < kHeaderSize")
    case True
    then have o: "?o = 0" "filler off = replicate (kBlockSize - off) 0" by (simp_all add: next_offset_def filler_def)
    have buf: "rbuffer r = replicate (kBlockSize - off) 0" "reads r = file_reads ?F" "\<not> eof r" "off \<le> kBlockSize"
      using pos o by (simp_all add: at_pos_def)
    have "?F \<noteq> []" using fl by (auto simp: kHeaderSize_def)
    then have rd: "reads r = (True, take kBlockSize ?F) # file_reads (drop kBlockSize ?F)" using buf(2) file_reads.simps [of ?F] by simp
    define r2 where "r2 = r\<lparr> reads := file_reads (drop kBlockSize ?F), rbuffer := take kBlockSize ?F,
        end_of_buffer_offset := end_of_buffer_offset r + of_nat (length (take kBlockSize ?F)), eof := (length (take kBlockSize ?F) < kBlockSize) \<rparr>"
    have big: "kHeaderSize \<le> length (take kBlockSize ?F)" using fl by (simp add: kBlockSize_def kHeaderSize_def)
    have p: "ReadPhysicalRecord extend fragment r = parse_record extend fragment r2"
      using True buf(1,3) rd big by (simp add: ReadPhysicalRecord_def Let_def r2_def)
    have b2: "rbuffer r2 = frame extend t ptr @ take (kBlockSize - ?n) B" using F(1) o(1) unfolding r2_def by simp
    have "initial_offset r2 = 0" using pos by (simp add: at_pos_def r2_def)
    then have "ReadPhysicalRecord extend fragment r = (record_type_code t, ptr, r2\<lparr> rbuffer := take (kBlockSize - ?n) B \<rparr>)"
      unfolding p by (rule parse_frame [OF b2 t short])
    moreover have "at_pos B ?n (r2\<lparr> rbuffer := take (kBlockSize - ?n) B \<rparr>)"
      using pos F(2) o(1) fits fl by (auto simp: at_pos_def r2_def)
    ultimately show ?thesis using o(1) by simp
  next
    case False
    then have o: "?o = off" "filler off = []" by (simp_all add: next_offset_def filler_def)
    have buf: "rbuffer r = frame extend t ptr @ take (kBlockSize - (off + ?n)) B" using pos F(1) o by (simp add: at_pos_def)
    then have "ReadPhysicalRecord extend fragment r = parse_record extend fragment r"
      using fl by (simp add: ReadPhysicalRecord_def)
    also have "\<dots> = (record_type_code t, ptr, r\<lparr> rbuffer := take (kBlockSize - (off + ?n)) B \<rparr>)"
      using parse_frame [OF buf t short] pos by (simp add: at_pos_def)
    finally show ?thesis using pos o F(2) fits fl by (auto simp: at_pos_def)
  qed
qed

text \<open>A file that ends inside a physical record, or inside the filler before it, just ends.\<close>

lemma parse_cut:
  assumes "rbuffer r = take j (frame extend t ptr)" and "kHeaderSize \<le> j" and "j < kHeaderSize + length ptr"
    and "length ptr < 65536" and "eof r"
  shows "parse_record extend fragment r = (kEof, fragment, r\<lparr> rbuffer := [] \<rparr>)"
proof -
  let ?h = "rbuffer r"
  have ix: "?h ! 4 = of_nat (length ptr)" "?h ! 5 = of_nat (length ptr div 256)"
    using assms(1,2) by (simp_all add: frame_def record_header_def nth_append kHeaderSize_def)
  have "header_length ?h = length ptr" unfolding header_length_def ix by (rule header_length_back [OF assms(4)])
  moreover have "length ?h = j" using assms(1,3) by (simp add: frame_length)
  ultimately show ?thesis using assms(3,5) by (simp add: parse_record_def Let_def)
qed

lemma read_cut:
  assumes pos: "at_pos (take k (filler off @ frame extend t ptr)) off r" and k: "k < length (filler off @ frame extend t ptr)"
    and fits: "next_offset off + (kHeaderSize + length ptr) \<le> kBlockSize"
  shows "\<exists>r'. ReadPhysicalRecord extend fragment r = (kEof, fragment, r') \<and> reports r' = []"
proof -
  have short: "length ptr < 65536" using fits by (simp add: kBlockSize_def)
  have fl: "length (frame extend t ptr) = kHeaderSize + length ptr" by (rule frame_length)
  note A = pos [unfolded at_pos_def]
  have rep: "reports r = []" using A by blast
  show ?thesis
  proof (cases "kBlockSize - off < kHeaderSize \<and> kBlockSize - off \<le> k")
    case True
    define j where "j = k - (kBlockSize - off)"
    let ?P = "take j (frame extend t ptr)"
    have f: "filler off = replicate (kBlockSize - off) 0" "next_offset off = 0" using True by (simp_all add: filler_def next_offset_def)
    have lf: "length (filler off) = kBlockSize - off" using f(1) by simp
    have P: "take k (filler off @ frame extend t ptr) = filler off @ ?P" using True lf by (simp add: j_def)
    have j: "j < kHeaderSize + length ptr" using k True lf fl by (simp add: j_def less_diff_conv2)
    have r: "rbuffer r = filler off" "reads r = file_reads ?P" "\<not> eof r"
      using pos [unfolded P] lf unfolding at_pos_def by simp_all
    have lp: "length ?P = j" using j fl by simp
    have rd: "(case reads r of [] \<Rightarrow> (True, [], []) | (ok, data) # rest \<Rightarrow> (ok, data, rest)) = (True, ?P, [])"
      using r(2) file_reads_small [of ?P] lp j fits f(2) by (auto split: if_splits)
    let ?r = "r\<lparr> reads := [], rbuffer := ?P, end_of_buffer_offset := end_of_buffer_offset r + of_nat (length ?P), eof := True \<rparr>"
    have sm: "length ?P < kBlockSize" using lp j fits f(2) by linarith
    have "ReadPhysicalRecord extend fragment r =
        (if j < kHeaderSize then (kEof, fragment, ?r\<lparr> rbuffer := [] \<rparr>) else parse_record extend fragment ?r)"
      unfolding ReadPhysicalRecord_def rd using True r(1,3) f(1) sm lp by (simp add: Let_def)
    moreover have "parse_record extend fragment ?r = (kEof, fragment, ?r\<lparr> rbuffer := [] \<rparr>)" if "\<not> j < kHeaderSize"
      by (rule parse_cut [OF _ _ j short]) (use that in simp_all)
    ultimately show ?thesis using rep by simp
  next
    case False
    have "k < kBlockSize - off"
    proof (cases "kBlockSize - off < kHeaderSize")
      case True
      with False show ?thesis by simp
    next
      case False
      with k fl fits show ?thesis by (simp add: filler_def next_offset_def)
    qed
    then have e: "eof r" "rbuffer r = take k (filler off @ frame extend t ptr)" using A k by simp_all
    show ?thesis
    proof (cases "length (rbuffer r) < kHeaderSize")
      case True
      with e(1) rep show ?thesis by (simp add: ReadPhysicalRecord_def)
    next
      case big: False
      have "\<not> kBlockSize - off < kHeaderSize"
      proof
        assume "kBlockSize - off < kHeaderSize"
        with False have "k < kBlockSize - off" by simp
        with \<open>kBlockSize - off < kHeaderSize\<close> big e(2) show False by simp
      qed
      then have f: "filler off = []" by (simp add: filler_def)
      have "parse_record extend fragment r = (kEof, fragment, r\<lparr> rbuffer := [] \<rparr>)"
        by (rule parse_cut [OF e(2) [unfolded f append_Nil] _ _ short e(1)]) (use big e(2) k f fl in simp_all)
      with big rep show ?thesis by (simp add: ReadPhysicalRecord_def)
    qed
  qed
qed

lemma read_end: "at_pos [] off r \<Longrightarrow> \<exists>r'. ReadPhysicalRecord extend fragment r = (kEof, fragment, r') \<and> reports r' = []"
  by (auto simp: at_pos_def ReadPhysicalRecord_def file_reads.simps kHeaderSize_def)

lemma read_loop_eof:
  "ReadPhysicalRecord extend fragment r = (kEof, fragment, r') \<Longrightarrow> reports r' = [] \<Longrightarrow>
     \<exists>r'. read_loop extend fragment in_frag scratch start r = (None, r') \<and> reports r' = []"
  by (subst read_loop.simps) simp

lemma read_loop_frame:
  assumes "ReadPhysicalRecord extend fragment0 r = (record_type_code (fragment_type first ends), ptr, r')"
    and "\<not> resyncing r'" and "first \<Longrightarrow> scratch = []"
  shows "\<exists>n start'. read_loop extend fragment0 (\<not> first) scratch start r =
     (if ends then (Some (scratch @ ptr), r'\<lparr> last_record_offset := n \<rparr>) else read_loop extend ptr True (scratch @ ptr) start' r')"
proof -
  have e: "r'\<lparr> resyncing := False \<rparr> = r'" using assms(2) by simp
  show ?thesis
    using assms by (subst read_loop.simps)
      (cases first; cases ends; auto simp: e fragment_type_def record_type_code_def kEof_def Let_def)
qed

text \<open>One round of \<^verbatim>\<open>ReadRecord\<close> takes in one round of \<^verbatim>\<open>AddRecord\<close>.\<close>

lemma read_round:
  assumes "at_pos ((filler off @ frame extend (fragment_type first ends) ptr) @ B) off r" and "first \<Longrightarrow> scratch = []"
    and "next_offset off + (kHeaderSize + length ptr) \<le> kBlockSize"
  shows "\<exists>r' m start'. at_pos B (next_offset off + (kHeaderSize + length ptr)) r' \<and>
      read_loop extend fragment (\<not> first) scratch start r =
      (if ends then (Some (scratch @ ptr), r'\<lparr> last_record_offset := m \<rparr>) else read_loop extend ptr True (scratch @ ptr) start' r')"
proof -
  have "fragment_type first ends \<noteq> kZeroType" by (simp add: fragment_type_def)
  from read_frame [OF assms(1) [unfolded append_assoc] this assms(3), of fragment] obtain r' where
    r': "ReadPhysicalRecord extend fragment r = (record_type_code (fragment_type first ends), ptr, r')"
      "at_pos B (next_offset off + (kHeaderSize + length ptr)) r'" by blast
  have "\<not> resyncing r'" using r'(2) by (simp add: at_pos_def)
  from read_loop_frame [OF r'(1) this, of scratch start] assms(2) obtain m start' where
    "read_loop extend fragment (\<not> first) scratch start r =
      (if ends then (Some (scratch @ ptr), r'\<lparr> last_record_offset := m \<rparr>) else read_loop extend ptr True (scratch @ ptr) start' r')"
    by blast
  with r'(2) show ?thesis by blast
qed

lemma cut_round:
  assumes "at_pos (take k (filler off @ frame extend t ptr)) off r" and "k < length (filler off @ frame extend t ptr)"
    and "next_offset off + (kHeaderSize + length ptr) \<le> kBlockSize"
  shows "\<exists>r'. read_loop extend fragment in_frag scratch start r = (None, r') \<and> reports r' = []"
  using read_cut [OF assms] read_loop_eof by metis

lemma reads_back_last:
  assumes "next_offset off + (kHeaderSize + length ptr) \<le> kBlockSize"
  shows "reads_back extend first ptr (filler off @ frame extend (fragment_type first True) ptr) off (next_offset off + (kHeaderSize + length ptr))"
proof -
  have "\<exists>r'. read_loop extend fragment (\<not> first) scratch start r = (Some (scratch @ ptr), r') \<and>
      at_pos B (next_offset off + (kHeaderSize + length ptr)) r'"
    if p: "at_pos ((filler off @ frame extend (fragment_type first True) ptr) @ B) off r" and f: "first \<longrightarrow> scratch = []"
    for B r fragment scratch start
  proof -
    from read_round [OF p _ assms, of scratch fragment start] f obtain r' m where
      "at_pos B (next_offset off + (kHeaderSize + length ptr)) r'"
      "read_loop extend fragment (\<not> first) scratch start r = (Some (scratch @ ptr), r'\<lparr> last_record_offset := m \<rparr>)" by auto
    then show ?thesis by (auto simp: at_pos_def)
  qed
  with cut_round [OF _ _ assms] show ?thesis unfolding reads_back_def by blast
qed

lemma reads_back_more:
  assumes "next_offset off + (kHeaderSize + length ptr) \<le> kBlockSize"
    and more: "reads_back extend False rest bytes (next_offset off + (kHeaderSize + length ptr)) off'"
  shows "reads_back extend first (ptr @ rest) ((filler off @ frame extend (fragment_type first False) ptr) @ bytes) off off'"
    (is "reads_back _ _ _ (?P @ _) _ _")
proof -
  have one: "\<exists>r' start'. at_pos B (next_offset off + (kHeaderSize + length ptr)) r' \<and>
      read_loop extend fragment (\<not> first) scratch start r = read_loop extend ptr True (scratch @ ptr) start' r'"
    if "at_pos (?P @ B) off r" "first \<longrightarrow> scratch = []" for B r fragment scratch start
    using read_round [where ends = False, OF that(1) _ assms(1), of scratch fragment start] that(2) by auto
  have "\<exists>r'. read_loop extend fragment (\<not> first) scratch start r = (Some (scratch @ ptr @ rest), r') \<and> at_pos B off' r'"
    if p: "at_pos ((?P @ bytes) @ B) off r" and f: "first \<longrightarrow> scratch = []" for B r fragment scratch start
  proof -
    from one [OF p [unfolded append_assoc [of ?P]] f, of fragment start] obtain r' start' where
      "at_pos (bytes @ B) (next_offset off + (kHeaderSize + length ptr)) r'"
      "read_loop extend fragment (\<not> first) scratch start r = read_loop extend ptr True (scratch @ ptr) start' r'" by blast
    with reads_back_read [OF more this(1), of "scratch @ ptr" ptr start'] show ?thesis by simp
  qed
  moreover have "\<exists>r'. read_loop extend fragment (\<not> first) scratch start r = (None, r') \<and> reports r' = []"
    if k: "k < length (?P @ bytes)" and p: "at_pos (take k (?P @ bytes)) off r" and f: "first \<longrightarrow> scratch = []"
    for k r fragment scratch start
  proof (cases "k < length ?P")
    case True
    with p have "at_pos (take k ?P) off r" by simp
    from cut_round [OF this True assms(1)] show ?thesis .
  next
    case False
    then have e: "take k (?P @ bytes) = ?P @ take (k - length ?P) bytes" "k - length ?P < length bytes" using k by auto
    from one [OF p [unfolded e(1)] f, of fragment start] obtain r' start' where
      "at_pos (take (k - length ?P) bytes) (next_offset off + (kHeaderSize + length ptr)) r'"
      "read_loop extend fragment (\<not> first) scratch start r = read_loop extend ptr True (scratch @ ptr) start' r'" by auto
    with reads_back_cut [OF more e(2) this(1), of "scratch @ ptr" ptr start'] show ?thesis by simp
  qed
  ultimately show ?thesis unfolding reads_back_def by blast
qed

text \<open>What \<^verbatim>\<open>AddRecord\<close> writes is what \<^verbatim>\<open>ReadRecord\<close> consumes, from any block offset.\<close>

lemma write_read_fragments:
  assumes "block_offset w \<le> kBlockSize"
  shows "\<exists>bytes w'. add_fragments extend mem_append mem_flush first ptr w = (True, w') \<and> dest w' = dest w @ bytes \<and>
     block_offset w' \<le> kBlockSize \<and> reads_back extend first ptr bytes (block_offset w) (block_offset w')"
  using assms
proof (induction "rounds_left (length ptr) (block_offset w)" arbitrary: first ptr w rule: less_induct)
  case less
  define off where "off = next_offset (block_offset w)"
  define n where "n = min (length ptr) (kBlockSize - off - kHeaderSize)"
  let ?P = "filler (block_offset w) @ frame extend (fragment_type first (length ptr = n)) (take n ptr)"
  define w2 where "w2 = w\<lparr> dest := dest w @ ?P, block_offset := off + (kHeaderSize + n) \<rparr>"
  have len: "length (take n ptr) = n" by (simp add: n_def)
  have fits: "off + (kHeaderSize + n) \<le> kBlockSize"
    using less.prems by (auto simp: off_def next_offset_def n_def kBlockSize_def kHeaderSize_def split: if_splits)
  have step: "add_fragments extend mem_append mem_flush first ptr w =
      (if n < length ptr then add_fragments extend mem_append mem_flush False (drop n ptr) w2 else (True, w2))"
    by (subst add_fragments.simps) (auto simp: switch_mem emit_mem Let_def off_def [symmetric] n_def w2_def min_def)
  show ?case
  proof (cases "n < length ptr")
    case False
    then have "length ptr = n" "take n ptr = ptr" by (simp_all add: n_def)
    with reads_back_last [of "block_offset w" ptr first] fits
    have "reads_back extend first ptr ?P (block_offset w) (block_offset w2)" by (simp add: w2_def off_def [symmetric])
    with step False fits show ?thesis by (intro exI [of _ ?P] exI [of _ w2]) (simp add: w2_def)
  next
    case True
    have "rounds_left (length (drop n ptr)) (block_offset w2) < rounds_left (length ptr) (block_offset w)"
      using rounds_decrease [of off "block_offset w" n "length ptr"] True by (simp add: off_def next_offset_def n_def w2_def)
    from less.hyps [OF this, of False] fits obtain bytes w' where
      I: "add_fragments extend mem_append mem_flush False (drop n ptr) w2 = (True, w')" "dest w' = dest w2 @ bytes"
        "block_offset w' \<le> kBlockSize" "reads_back extend False (drop n ptr) bytes (block_offset w2) (block_offset w')"
      unfolding w2_def by auto
    from reads_back_more [of "block_offset w" "take n ptr" "drop n ptr" bytes "block_offset w'" first] I(4) fits True
    have "reads_back extend first ptr (?P @ bytes) (block_offset w) (block_offset w')" by (simp add: w2_def off_def [symmetric] len)
    with I(1-3) step True show ?thesis by (intro exI [of _ "?P @ bytes"] exI [of _ w']) (simp add: w2_def)
  qed
qed

lemma write_read_record:
  assumes "block_offset w \<le> kBlockSize"
  obtains bytes w' where "AddRecord extend mem_append mem_flush rec w = (True, w')" "dest w' = dest w @ bytes" "block_offset w' \<le> kBlockSize"
    "\<And>B r. at_pos (bytes @ B) (block_offset w) r \<Longrightarrow> \<exists>r'. ReadRecord extend r = (Some rec, r') \<and> at_pos B (block_offset w') r'"
    "\<And>k r. k < length bytes \<Longrightarrow> at_pos (take k bytes) (block_offset w) r \<Longrightarrow> \<exists>r'. ReadRecord extend r = (None, r') \<and> reports r' = []"
  using write_read_fragments [OF assms, of True rec] ReadRecord_start unfolding AddRecord_def reads_back_def by fastforce

text \<open>Reading a file cut off after \<open>k\<close> bytes gives the records before the cut, then the end.\<close>

lemma write_read_records:
  assumes "block_offset w \<le> kBlockSize"
  shows "\<exists>bytes. dest (write_records extend rs w) = dest w @ bytes \<and>
     (\<forall>k r. k \<le> length bytes \<longrightarrow> at_pos (take k bytes) (block_offset w) r \<longrightarrow>
        (\<exists>m r'. m \<le> length rs \<and> read_records (Suc m) extend r = (map Some (take m rs) @ [None], r') \<and> reports r' = [] \<and>
           length (dest (write_records extend (take m rs) w)) \<le> length (dest w) + k \<and>
           (m < length rs \<longrightarrow> length (dest w) + k < length (dest (write_records extend (take (Suc m) rs) w)))))"
  using assms
proof (induction rs arbitrary: w)
  case Nil
  have "\<exists>r'. ReadRecord extend r = (None, r') \<and> reports r' = []" if "at_pos [] off r" for off r
    using read_end [OF that] read_loop_eof ReadRecord_start [OF that] by metis
  then show ?case by (fastforce simp: write_records_def)
next
  case (Cons rec rs)
  obtain bytes w' where A: "AddRecord extend mem_append mem_flush rec w = (True, w')" "dest w' = dest w @ bytes" "block_offset w' \<le> kBlockSize"
    "\<And>B r. at_pos (bytes @ B) (block_offset w) r \<Longrightarrow> \<exists>r'. ReadRecord extend r = (Some rec, r') \<and> at_pos B (block_offset w') r'"
    "\<And>k r. k < length bytes \<Longrightarrow> at_pos (take k bytes) (block_offset w) r \<Longrightarrow> \<exists>r'. ReadRecord extend r = (None, r') \<and> reports r' = []"
    by (rule write_read_record [OF Cons.prems]) blast
  from Cons.IH [OF A(3)] obtain more where I: "dest (write_records extend rs w') = dest w' @ more"
    "\<And>k r. k \<le> length more \<Longrightarrow> at_pos (take k more) (block_offset w') r \<Longrightarrow>
        \<exists>m r'. m \<le> length rs \<and> read_records (Suc m) extend r = (map Some (take m rs) @ [None], r') \<and> reports r' = [] \<and>
           length (dest (write_records extend (take m rs) w')) \<le> length (dest w') + k \<and>
           (m < length rs \<longrightarrow> length (dest w') + k < length (dest (write_records extend (take (Suc m) rs) w')))" by blast
  have "\<exists>m r'. m \<le> length (rec # rs) \<and> read_records (Suc m) extend r = (map Some (take m (rec # rs)) @ [None], r') \<and> reports r' = [] \<and>
      length (dest (write_records extend (take m (rec # rs)) w)) \<le> length (dest w) + k \<and>
      (m < length (rec # rs) \<longrightarrow> length (dest w) + k < length (dest (write_records extend (take (Suc m) (rec # rs)) w)))"
    if k: "k \<le> length (bytes @ more)" and p: "at_pos (take k (bytes @ more)) (block_offset w) r" for k r
  proof (cases "k < length bytes")
    case True
    with p A(5) [of k r] obtain r' where "ReadRecord extend r = (None, r')" "reports r' = []" by auto
    with True A(1,2) show ?thesis by (intro exI [of _ 0]) (simp add: write_records_def)
  next
    case False
    with p A(4) [of "take (k - length bytes) more" r] obtain r1 where
      r1: "ReadRecord extend r = (Some rec, r1)" "at_pos (take (k - length bytes) more) (block_offset w') r1" by auto
    have "k - length bytes \<le> length more" using k False by simp
    from I(2) [OF this r1(2)] obtain m r' where m: "m \<le> length rs" "read_records (Suc m) extend r1 = (map Some (take m rs) @ [None], r')" "reports r' = []"
      "length (dest (write_records extend (take m rs) w')) \<le> length (dest w') + (k - length bytes)"
      "m < length rs \<longrightarrow> length (dest w') + (k - length bytes) < length (dest (write_records extend (take (Suc m) rs) w'))" by blast
    from read_records_Suc [OF r1(1) m(2)] m(1,3,4,5) False A(1,2) show ?thesis
      by (intro exI [of _ "Suc m"] exI [of _ r']) (auto simp: write_records_def)
  qed
  with A I(1) show ?case by (intro exI [of _ "bytes @ more"]) (simp add: write_records_def)
qed

text \<open>Reading the whole file gives all records.\<close>

lemma write_read_all:
  assumes "block_offset w \<le> kBlockSize"
  shows "\<exists>bytes. dest (write_records extend rs w) = dest w @ bytes \<and>
     (\<forall>r. at_pos bytes (block_offset w) r \<longrightarrow>
        (\<exists>r'. read_records (Suc (length rs)) extend r = (map Some rs @ [None], r') \<and> reports r' = []))"
  using assms
proof (induction rs arbitrary: w)
  case Nil
  have "\<exists>r'. ReadRecord extend r = (None, r') \<and> reports r' = []" if "at_pos [] off r" for off r
    using read_end [OF that] read_loop_eof ReadRecord_start [OF that] by metis
  then show ?case by (fastforce simp: write_records_def)
next
  case (Cons rec rs)
  obtain bytes w' where A: "AddRecord extend mem_append mem_flush rec w = (True, w')" "dest w' = dest w @ bytes" "block_offset w' \<le> kBlockSize"
    "\<And>B r. at_pos (bytes @ B) (block_offset w) r \<Longrightarrow> \<exists>r'. ReadRecord extend r = (Some rec, r') \<and> at_pos B (block_offset w') r'"
    by (rule write_read_record [OF Cons.prems]) blast
  from Cons.IH [OF A(3)] obtain more where I: "dest (write_records extend rs w') = dest w' @ more"
    "\<And>r. at_pos more (block_offset w') r \<Longrightarrow> \<exists>r'. read_records (Suc (length rs)) extend r = (map Some rs @ [None], r') \<and> reports r' = []" by blast
  have "\<exists>r'. read_records (Suc (length (rec # rs))) extend r = (map Some (rec # rs) @ [None], r') \<and> reports r' = []"
    if p: "at_pos (bytes @ more) (block_offset w) r" for r
  proof -
    from A(4) [OF p] obtain r1 where r1: "ReadRecord extend r = (Some rec, r1)" "at_pos more (block_offset w') r1" by blast
    from I(2) [OF r1(2)] obtain r' where r': "read_records (Suc (length rs)) extend r1 = (map Some rs @ [None], r')" "reports r' = []" by blast
    from read_records_Suc [OF r1(1) r'(1)] r'(2) show ?thesis by (metis append_Cons length_Cons list.simps(9))
  qed
  with A(1,2) I(1) show ?case by (intro exI [of _ "bytes @ more"]) (simp add: write_records_def)
qed

end

section \<open>Properties\<close>

text \<open>
  C27. The log survives a crash of its writer. Whatever records are written to an empty log, with
  fragments, fillers, headers and masked checksums, and wherever the file is cut off afterwards,
  a reader of the log returns the records that were written completely before the cut, in order
  and unchanged, then reports the end of the log, and never a corruption. In particular a log that
  was not cut off is read back completely.
\<close>

theorem log_roundtrip:
  assumes "file = dest (write_records crc_Extend rs (new_writer [] 0))" and "k \<le> length file"
  shows "\<exists>m r. m \<le> length rs \<and>
     read_records (Suc m) crc_Extend (new_log_reader (file_reads (take k file)) skip reporter verify_crc 0) = (map Some (take m rs) @ [None], r) \<and>
     reports r = [] \<and> length (dest (write_records crc_Extend (take m rs) (new_writer [] 0))) \<le> k \<and>
     (m < length rs \<longrightarrow> k < length (dest (write_records crc_Extend (take (Suc m) rs) (new_writer [] 0))))"
proof -
  let ?w = "\<lparr> dest = [], block_offset = kBlockSize \<rparr> :: byte list log_writer"
  note w = write_records_start
  from crc32c.write_read_records [of ?w rs] assms obtain bytes where b: "file = bytes"
    "\<And>r. at_pos (take k bytes) kBlockSize r \<Longrightarrow>
        \<exists>m r'. m \<le> length rs \<and> read_records (Suc m) crc_Extend r = (map Some (take m rs) @ [None], r') \<and> reports r' = [] \<and>
           length (dest (write_records crc_Extend (take m rs) ?w)) \<le> k \<and>
           (m < length rs \<longrightarrow> k < length (dest (write_records crc_Extend (take (Suc m) rs) ?w)))" unfolding w by auto
  have "at_pos (take k bytes) kBlockSize (new_log_reader (file_reads (take k file)) skip reporter verify_crc 0)"
    unfolding b(1) by (rule reader_start)
  from b(2) [OF this] show ?thesis unfolding w .
qed

theorem log_roundtrip_witness:
  "\<exists>m r. read_records (Suc m) crc_Extend
       (new_log_reader (file_reads (take 5 (dest (write_records crc_Extend [[1, 2, 3]] (new_writer [] 0))))) (\<lambda>_. (False, [])) True True 0) =
     (map Some (take m [[1, 2, 3]]) @ [None], r) \<and> reports r = []"
proof -
  have "length (dest (write_records crc_Extend [[1, 2, 3]] (new_writer [] 0))) = 10"
    by (simp add: write_records_def new_writer_def AddRecord_def add_fragments.simps switch_mem emit_mem frame_length
        filler_def next_offset_def kBlockSize_def kHeaderSize_def)
  with log_roundtrip [OF refl, of 5 "[[1, 2, 3]]" "\<lambda>_. (False, [])" True True] show ?thesis by (simp only:) fastforce
qed

end
