(* ===== verification/MemEnv.thy ===== *)
theory MemEnv
  imports Status Keys "HOL-Library.Monad_Syntax"
begin

text \<open>
  The in-memory file system of \<^verbatim>\<open>leveldb/helpers/memenv/memenv.cc\<close>. Files are reference-counted objects on
  a heap, made of blocks of 8192 bytes; names and open files point to them. The heap is explicit: an
  operation that would follow a null or a dangling pointer, index a vector out of its range or
  read memory nobody wrote has the value \<^term>\<open>None\<close>. The theory proves that the operations implement a
  simple file system of byte sequences and keep the reference counts exact, and shows the two
  operations that do not.
\<close>

section \<open>Files\<close>

definition mem_block_size :: nat where
  "mem_block_size = 8 * 1024"

text \<open>A cell of a block is \<^term>\<open>None\<close> until it is written.\<close>

record FileState =
  refs :: int
  blocks :: "byte option list list"
  fsize :: nat

definition new_FileState :: FileState where
  "new_FileState = \<lparr> refs = 0, blocks = [], fsize = 0 \<rparr>"

definition FileState_Truncate :: "FileState \<Rightarrow> FileState" where
  "FileState_Truncate f = f\<lparr> blocks := [], fsize := 0 \<rparr>"

function copy_loop :: "byte option list list \<Rightarrow> nat \<Rightarrow> nat \<Rightarrow> nat \<Rightarrow> byte list option" where
  "copy_loop bs block block_offset bytes_to_copy =
     (if 0 < bytes_to_copy
      then (if block < length bs
            then (let avail = min (mem_block_size - block_offset) bytes_to_copy in
                  do { xs \<leftarrow> those (take avail (drop block_offset (bs ! block)));
                       ys \<leftarrow> copy_loop bs (block + 1) 0 (bytes_to_copy - avail);
                       Some (xs @ ys) })
            else None)
      else Some [])"
  by pat_completeness auto
termination
  by (relation "measure (\<lambda>(bs, block, block_offset, bytes_to_copy). length bs - block)") auto

declare copy_loop.simps [simp del]

text \<open>The second component is \<^term>\<open>None\<close> if the result is not assigned.\<close>

definition FileState_Read :: "FileState \<Rightarrow> nat \<Rightarrow> nat \<Rightarrow> (status \<times> byte list option) option" where
  "FileState_Read f offset n =
     (if fsize f < offset then Some (IOError (bytes_of ''Offset greater than file size.'') [], None)
      else (let available = fsize f - offset; n = (if available < n then available else n) in
            if n = 0 then Some (OK, Some [])
            else do { xs \<leftarrow> copy_loop (blocks f) (offset div mem_block_size) (offset mod mem_block_size) n;
                      Some (OK, Some xs) }))"

definition memcpy :: "byte option list \<Rightarrow> nat \<Rightarrow> byte list \<Rightarrow> byte option list" where
  "memcpy dst offset src = take offset dst @ map Some src @ drop (offset + length src) dst"

function FileState_Append :: "FileState \<Rightarrow> byte list \<Rightarrow> FileState" where
  "FileState_Append f src =
     (if 0 < length src
      then (let offset = fsize f mod mem_block_size;
                bs = (if offset \<noteq> 0 then blocks f else blocks f @ [replicate mem_block_size None]);
                avail = min (if offset \<noteq> 0 then mem_block_size - offset else mem_block_size) (length src)
            in FileState_Append (f\<lparr> blocks := butlast bs @ [memcpy (last bs) offset (take avail src)], fsize := fsize f + avail \<rparr>)
                 (drop avail src))
      else f)"
  by pat_completeness auto
termination
  by (relation "measure (\<lambda>(f, src). length src)") (auto simp: mem_block_size_def)

declare FileState_Append.simps [simp del]

section \<open>The environment\<close>

datatype file_obj = SequentialFile nat nat | RandomAccessFile nat | WritableFile nat

primrec obj_addr :: "file_obj \<Rightarrow> nat" where
  "obj_addr (SequentialFile a pos) = a"
| "obj_addr (RandomAccessFile a) = a"
| "obj_addr (WritableFile a) = a"

text \<open>
  \<open>heap\<close> holds the \<^verbatim>\<open>FileState\<close> objects that were not deleted, \<open>file_map\<close> the names in their order with
  pointers that may be null, \<open>files\<close> the file objects handed to callers (\<^term>\<open>None\<close>: deleted again).
\<close>

record mem_env =
  heap :: "nat \<rightharpoonup> FileState"
  next_addr :: nat
  file_map :: "(byte list \<times> nat option) list"
  files :: "file_obj option list"

definition new_env :: mem_env where
  "new_env = \<lparr> heap = Map.empty, next_addr = 0, file_map = [], files = [] \<rparr>"

text \<open>\<^verbatim>\<open>std::map\<close>: assignment, erasure and the access that inserts a null pointer.\<close>

fun fm_put :: "byte list \<Rightarrow> nat option \<Rightarrow> (byte list \<times> nat option) list \<Rightarrow> (byte list \<times> nat option) list" where
  "fm_put k v [] = [(k, v)]"
| "fm_put k v ((k', v') # m) =
     (if k < k' then (k, v) # (k', v') # m else if k = k' then (k, v) # m else (k', v') # fm_put k v m)"

definition fm_erase :: "byte list \<Rightarrow> (byte list \<times> nat option) list \<Rightarrow> (byte list \<times> nat option) list" where
  "fm_erase k m = filter (\<lambda>(k', v). k' \<noteq> k) m"

definition fm_at :: "byte list \<Rightarrow> (byte list \<times> nat option) list \<Rightarrow> nat option \<times> (byte list \<times> nat option) list" where
  "fm_at k m = (case map_of m k of Some p \<Rightarrow> (p, m) | None \<Rightarrow> (None, fm_put k None m))"

subsection \<open>Reference counts\<close>

definition Ref :: "nat \<Rightarrow> mem_env \<Rightarrow> mem_env option" where
  "Ref a e = do { f \<leftarrow> heap e a; Some (e\<lparr> heap := (heap e)(a \<mapsto> f\<lparr> refs := refs f + 1 \<rparr>) \<rparr>) }"

definition Unref :: "nat \<Rightarrow> mem_env \<Rightarrow> mem_env option" where
  "Unref a e = do { f \<leftarrow> heap e a;
     Some (if refs f - 1 \<le> 0 then e\<lparr> heap := (heap e)(a := None) \<rparr>
           else e\<lparr> heap := (heap e)(a \<mapsto> f\<lparr> refs := refs f - 1 \<rparr>) \<rparr>) }"

definition alloc :: "mem_env \<Rightarrow> nat \<times> mem_env" where
  "alloc e = (next_addr e, e\<lparr> heap := (heap e)(next_addr e \<mapsto> new_FileState), next_addr := next_addr e + 1 \<rparr>)"

subsection \<open>File objects\<close>

definition new_file :: "(nat \<Rightarrow> file_obj) \<Rightarrow> nat option \<Rightarrow> mem_env \<Rightarrow> (nat \<times> mem_env) option" where
  "new_file mk p e = do { a \<leftarrow> p; e \<leftarrow> Ref a e; Some (length (files e), e\<lparr> files := files e @ [Some (mk a)] \<rparr>) }"

definition file_at :: "nat \<Rightarrow> mem_env \<Rightarrow> file_obj option" where
  "file_at h e = (if h < length (files e) then files e ! h else None)"

definition delete_file :: "nat \<Rightarrow> mem_env \<Rightarrow> mem_env option" where
  "delete_file h e = do { x \<leftarrow> file_at h e; e \<leftarrow> Unref (obj_addr x) e; Some (e\<lparr> files := (files e)[h := None] \<rparr>) }"

definition SequentialFile_Read :: "nat \<Rightarrow> nat \<Rightarrow> mem_env \<Rightarrow> (status \<times> byte list option \<times> mem_env) option" where
  "SequentialFile_Read h n e = (case file_at h e of
     Some (SequentialFile a pos) \<Rightarrow>
       do { f \<leftarrow> heap e a; (s, r) \<leftarrow> FileState_Read f pos n;
            Some (s, r, if ok s then e\<lparr> files := (files e)[h := Some (SequentialFile a (pos + length (the r)))] \<rparr> else e) }
   | _ \<Rightarrow> None)"

definition SequentialFile_Skip :: "nat \<Rightarrow> nat \<Rightarrow> mem_env \<Rightarrow> (status \<times> mem_env) option" where
  "SequentialFile_Skip h n e = (case file_at h e of
     Some (SequentialFile a pos) \<Rightarrow>
       do { f \<leftarrow> heap e a;
            if fsize f < pos then Some (IOError (bytes_of ''pos_ > file_->Size()'') [], e)
            else (let available = fsize f - pos; n = (if available < n then available else n) in
                  Some (OK, e\<lparr> files := (files e)[h := Some (SequentialFile a (pos + n))] \<rparr>)) }
   | _ \<Rightarrow> None)"

definition RandomAccessFile_Read :: "nat \<Rightarrow> nat \<Rightarrow> nat \<Rightarrow> mem_env \<Rightarrow> (status \<times> byte list option) option" where
  "RandomAccessFile_Read h offset n e = (case file_at h e of
     Some (RandomAccessFile a) \<Rightarrow> do { f \<leftarrow> heap e a; FileState_Read f offset n }
   | _ \<Rightarrow> None)"

definition WritableFile_Append :: "nat \<Rightarrow> byte list \<Rightarrow> mem_env \<Rightarrow> (status \<times> mem_env) option" where
  "WritableFile_Append h data e = (case file_at h e of
     Some (WritableFile a) \<Rightarrow> do { f \<leftarrow> heap e a; Some (OK, e\<lparr> heap := (heap e)(a \<mapsto> FileState_Append f data) \<rparr>) }
   | _ \<Rightarrow> None)"

subsection \<open>Operations on names\<close>

definition file_not_found :: "byte list \<Rightarrow> status" where
  "file_not_found fname = IOError fname (bytes_of ''File not found'')"

definition NewSequentialFile :: "byte list \<Rightarrow> mem_env \<Rightarrow> (status \<times> nat option \<times> mem_env) option" where
  "NewSequentialFile fname e = (case map_of (file_map e) fname of
     None \<Rightarrow> Some (file_not_found fname, None, e)
   | Some p \<Rightarrow> do { (h, e) \<leftarrow> new_file (\<lambda>a. SequentialFile a 0) p e; Some (OK, Some h, e) })"

definition NewRandomAccessFile :: "byte list \<Rightarrow> mem_env \<Rightarrow> (status \<times> nat option \<times> mem_env) option" where
  "NewRandomAccessFile fname e = (case map_of (file_map e) fname of
     None \<Rightarrow> Some (file_not_found fname, None, e)
   | Some p \<Rightarrow> do { (h, e) \<leftarrow> new_file RandomAccessFile p e; Some (OK, Some h, e) })"

definition NewWritableFile :: "byte list \<Rightarrow> mem_env \<Rightarrow> (status \<times> nat option \<times> mem_env) option" where
  "NewWritableFile fname e = (case map_of (file_map e) fname of
     None \<Rightarrow> (let (a, e) = alloc e in
       do { e \<leftarrow> Ref a e;
            (h, e) \<leftarrow> new_file WritableFile (Some a) (e\<lparr> file_map := fm_put fname (Some a) (file_map e) \<rparr>);
            Some (OK, Some h, e) })
   | Some p \<Rightarrow> do { a \<leftarrow> p; f \<leftarrow> heap e a;
            (h, e) \<leftarrow> new_file WritableFile p (e\<lparr> heap := (heap e)(a \<mapsto> FileState_Truncate f) \<rparr>);
            Some (OK, Some h, e) })"

definition NewAppendableFile :: "byte list \<Rightarrow> mem_env \<Rightarrow> (status \<times> nat option \<times> mem_env) option" where
  "NewAppendableFile fname e =
     (let (p, m) = fm_at fname (file_map e); e = e\<lparr> file_map := m \<rparr> in
      case p of
        None \<Rightarrow> (let (a, e) = alloc e in
          do { e \<leftarrow> Ref a e; (h, e) \<leftarrow> new_file WritableFile (Some a) e; Some (OK, Some h, e) })
      | Some a \<Rightarrow> do { (h, e) \<leftarrow> new_file WritableFile (Some a) e; Some (OK, Some h, e) })"

definition FileExists :: "byte list \<Rightarrow> mem_env \<Rightarrow> bool" where
  "FileExists fname e \<longleftrightarrow> map_of (file_map e) fname \<noteq> None"

definition is_child :: "byte list \<Rightarrow> byte list \<Rightarrow> bool" where
  "is_child dir filename \<longleftrightarrow>
     length dir + 1 \<le> length filename \<and> filename ! length dir = of_char CHR ''/'' \<and> starts_with filename dir"

definition GetChildren :: "byte list \<Rightarrow> mem_env \<Rightarrow> byte list list" where
  "GetChildren dir e = map (\<lambda>(filename, p). drop (length dir + 1) filename) (filter (\<lambda>(filename, p). is_child dir filename) (file_map e))"

definition RemoveFileInternal :: "byte list \<Rightarrow> mem_env \<Rightarrow> mem_env option" where
  "RemoveFileInternal fname e = (case map_of (file_map e) fname of
     None \<Rightarrow> Some e
   | Some p \<Rightarrow> do { a \<leftarrow> p; e \<leftarrow> Unref a e; Some (e\<lparr> file_map := fm_erase fname (file_map e) \<rparr>) })"

definition RemoveFile :: "byte list \<Rightarrow> mem_env \<Rightarrow> (status \<times> mem_env) option" where
  "RemoveFile fname e = (case map_of (file_map e) fname of
     None \<Rightarrow> Some (file_not_found fname, e)
   | Some p \<Rightarrow> do { e \<leftarrow> RemoveFileInternal fname e; Some (OK, e) })"

definition GetFileSize :: "byte list \<Rightarrow> mem_env \<Rightarrow> (status \<times> nat option) option" where
  "GetFileSize fname e = (case map_of (file_map e) fname of
     None \<Rightarrow> Some (file_not_found fname, None)
   | Some p \<Rightarrow> do { a \<leftarrow> p; f \<leftarrow> heap e a; Some (OK, Some (fsize f)) })"

definition RenameFile :: "byte list \<Rightarrow> byte list \<Rightarrow> mem_env \<Rightarrow> (status \<times> mem_env) option" where
  "RenameFile src target e = (case map_of (file_map e) src of
     None \<Rightarrow> Some (file_not_found src, e)
   | Some _ \<Rightarrow> do { e \<leftarrow> RemoveFileInternal target e;
       let (p, m) = fm_at src (file_map e) in
       Some (OK, e\<lparr> file_map := fm_erase src (fm_put target p m) \<rparr>) })"

text \<open>The destructor of the environment.\<close>

fun unref_all :: "(byte list \<times> nat option) list \<Rightarrow> mem_env \<Rightarrow> mem_env option" where
  "unref_all [] e = Some e"
| "unref_all ((k, p) # m) e = do { a \<leftarrow> p; e \<leftarrow> Unref a e; unref_all m e }"

definition delete_env :: "mem_env \<Rightarrow> mem_env option" where
  "delete_env e = unref_all (file_map e) e"

section \<open>Files are byte sequences\<close>

lemma those_some: "None \<notin> set xs \<Longrightarrow> those xs = Some (map the xs)"
  by (induction xs) (auto split: option.splits simp: eq_commute [of None])

definition cells :: "FileState \<Rightarrow> byte option list" where
  "cells f = concat (blocks f)"

definition content :: "FileState \<Rightarrow> byte list" where
  "content f = map the (take (fsize f) (cells f))"

definition file_ok :: "FileState \<Rightarrow> bool" where
  "file_ok f \<longleftrightarrow> (\<forall>b\<in>set (blocks f). length b = mem_block_size) \<and> fsize f \<le> length (cells f) \<and>
     length (cells f) < fsize f + mem_block_size \<and> None \<notin> set (take (fsize f) (cells f))"

lemma block_size_pos [simp]: "0 < mem_block_size"
  by (simp add: mem_block_size_def)

lemma concat_length: "\<forall>b\<in>set bs. length b = n \<Longrightarrow> length (concat bs) = length bs * n"
  by (induction bs) simp_all

lemma concat_drop: "\<forall>b\<in>set bs. length b = n \<Longrightarrow> drop (i * n) (concat bs) = concat (drop i bs)"
proof (induction bs arbitrary: i)
  case (Cons b bs)
  then show ?case by (cases i) simp_all
qed simp

lemma copy_loop_cells:
  assumes "\<forall>b\<in>set bs. length b = mem_block_size" and "k < mem_block_size"
    and "block * mem_block_size + k + n \<le> length (concat bs)"
    and "None \<notin> set (take n (drop (block * mem_block_size + k) (concat bs)))"
  shows "copy_loop bs block k n = Some (map the (take n (drop (block * mem_block_size + k) (concat bs))))"
  using assms
proof (induction bs block k n rule: copy_loop.induct)
  case (1 bs block k n)
  let ?B = mem_block_size
  show ?case
  proof (cases "n = 0")
    case True
    then show ?thesis by (simp add: copy_loop.simps)
  next
    case False
    define avail where "avail = min (?B - k) n"
    have len: "length (concat bs) = length bs * ?B" using concat_length "1.prems"(1) by blast
    have "block * ?B < length bs * ?B" using "1.prems"(3) False len by linarith
    then have bl: "block < length bs" by simp
    have b: "length (bs ! block) = ?B" using bl "1.prems"(1) by simp
    have "drop (block * ?B + k) (concat bs) = drop k (concat (drop block bs))"
      using concat_drop [OF "1.prems"(1), of block] by (metis add.commute drop_drop)
    also have "drop block bs = bs ! block # drop (Suc block) bs" by (rule Cons_nth_drop_Suc [OF bl, symmetric])
    finally have d: "drop (block * ?B + k) (concat bs) = drop k (bs ! block) @ concat (drop (Suc block) bs)"
      using b "1.prems"(2) by simp
    have d': "concat (drop (Suc block) bs) = drop ((block + 1) * ?B + 0) (concat bs)"
      using concat_drop [OF "1.prems"(1), of "Suc block"] by simp
    have split: "take n (drop (block * ?B + k) (concat bs)) = take avail (drop k (bs ! block)) @ take (n - avail) (concat (drop (Suc block) bs))"
      unfolding d using b by (auto simp: avail_def min_def)
    have ini: "None \<notin> set (take avail (drop k (bs ! block)))" "None \<notin> set (take (n - avail) (concat (drop (Suc block) bs)))"
      using "1.prems"(4) unfolding split by simp_all
    have "copy_loop bs (block + 1) 0 (n - avail) = Some (map the (take (n - avail) (concat (drop (Suc block) bs))))"
      unfolding d'
    proof (rule "1.IH" [OF _ bl avail_def those_some [OF ini(1)]])
      have "(block + 1) * ?B \<le> length bs * ?B" using bl by (intro mult_right_mono) simp_all
      then show "(block + 1) * ?B + 0 + (n - avail) \<le> length (concat bs)"
        using "1.prems"(2,3) len by (auto simp: avail_def min_def)
    qed (use "1.prems"(1) ini(2) False d' in simp_all)
    then show ?thesis unfolding split using False bl those_some [OF ini(1)]
      by (subst copy_loop.simps) (simp add: Let_def avail_def [symmetric])
  qed
qed

lemma file_ok_Read:
  assumes "file_ok f"
  shows "FileState_Read f offset n =
    Some (if fsize f < offset then (IOError (bytes_of ''Offset greater than file size.'') [], None)
          else (OK, Some (take n (drop offset (content f)))))"
proof -
  define m where "m = min n (fsize f - offset)"
  have c: "take n (drop offset (content f)) = map the (take m (drop offset (cells f)))"
    by (simp add: content_def m_def take_map drop_map drop_take min.commute)
  have copy: "copy_loop (blocks f) (offset div mem_block_size) (offset mod mem_block_size) m = Some (map the (take m (drop offset (cells f))))"
    if "offset \<le> fsize f"
  proof -
    have e: "offset div mem_block_size * mem_block_size + offset mod mem_block_size = offset" by simp
    have "take m (drop offset (cells f)) = take n (drop offset (take (fsize f) (cells f)))"
      by (simp add: m_def drop_take)
    then have "set (take m (drop offset (cells f))) \<subseteq> set (take (fsize f) (cells f))"
      by (metis set_drop_subset set_take_subset subset_trans)
    moreover have "offset + m \<le> fsize f" using that unfolding m_def by linarith
    ultimately show ?thesis using assms that
      using copy_loop_cells [of "blocks f" "offset mod mem_block_size" "offset div mem_block_size" m]
      unfolding e cells_def [symmetric] by (auto simp: file_ok_def)
  qed
  have "(if fsize f - offset < n then fsize f - offset else n) = m" by (simp add: m_def)
  then have "FileState_Read f offset n =
      (if fsize f < offset then Some (IOError (bytes_of ''Offset greater than file size.'') [], None)
       else if m = 0 then Some (OK, Some [])
       else do { xs \<leftarrow> copy_loop (blocks f) (offset div mem_block_size) (offset mod mem_block_size) m; Some (OK, Some xs) })"
    by (simp only: FileState_Read_def Let_def)
  then show ?thesis unfolding c using copy by auto
qed

text \<open>Appending in pieces, block after block.\<close>

lemma block_count:
  assumes "q * B + k \<le> n * B" and "n * B < q * B + k + B" and "k < (B::nat)"
  shows "n = (if k = 0 then q else Suc q)"
proof (cases "k = 0")
  case True
  then have "q * B \<le> n * B" "n * B < Suc q * B" using assms by simp_all
  then show ?thesis using True assms(3) by (metis le_antisym less_Suc_eq_le mult_le_cancel2 mult_less_cancel2)
next
  case False
  then have "q * B < n * B" "n * B < Suc (Suc q) * B" using assms unfolding mult_Suc by linarith+
  then have "q < n" "n < Suc (Suc q)" using mult_less_cancel2 by blast+
  then show ?thesis using False by simp
qed

lemma append_step:
  assumes "file_ok f" and "n \<le> length src" and "fsize f mod mem_block_size + n \<le> mem_block_size" and "0 < n"
    and bs: "bs = (if fsize f mod mem_block_size \<noteq> 0 then blocks f else blocks f @ [replicate mem_block_size None])"
  defines "g \<equiv> f\<lparr> blocks := butlast bs @ [memcpy (last bs) (fsize f mod mem_block_size) (take n src)], fsize := fsize f + n \<rparr>"
  shows "file_ok g \<and> content g = content f @ take n src"
proof -
  let ?B = mem_block_size and ?o = "fsize f mod mem_block_size" and ?q = "fsize f div mem_block_size"
  have F: "\<forall>b\<in>set (blocks f). length b = ?B" "fsize f \<le> length (cells f)" "length (cells f) < fsize f + ?B"
    "None \<notin> set (take (fsize f) (cells f))" using assms(1) by (auto simp: file_ok_def)
  have "length (blocks f) = (if ?o = 0 then ?q else Suc ?q)"
    using F(2,3) concat_length [OF F(1)] by (intro block_count [where B = ?B]) (simp_all add: cells_def)
  then have lb: "length bs = Suc ?q" by (simp add: bs)
  have Bs: "\<forall>b\<in>set bs. length b = ?B" using F(1) by (auto simp: bs)
  then have lp: "length (concat (butlast bs)) = ?q * ?B" using concat_length [of "butlast bs" ?B] lb by (auto dest: in_set_butlastD)
  have ll: "length (last bs) = ?B" using Bs lb by (metis Zero_not_Suc last_in_set list.size(3))
  have cb: "concat bs = concat (butlast bs) @ last bs" using lb
    by (metis append_butlast_last_id concat_append concat.simps append_Nil2 list.size(3) nat.distinct(1))
  have "take (fsize f) (cells f) = take (fsize f) (concat bs)" using F(2) by (simp add: bs cells_def)
  also have "\<dots> = concat (butlast bs) @ take ?o (last bs)" unfolding cb using lp by (simp add: minus_div_mult_eq_mod)
  finally have pre: "take (fsize f) (cells f) = concat (butlast bs) @ take ?o (last bs)" .
  have gc: "cells g = (take (fsize f) (cells f) @ map Some (take n src)) @ drop (?o + n) (last bs)"
    using assms(2) by (simp add: g_def cells_def memcpy_def pre [unfolded cells_def])
  have lg: "length (take (fsize f) (cells f) @ map Some (take n src)) = fsize g" using F(2) assms(2) by (simp add: g_def)
  then have tg: "take (fsize g) (cells g) = take (fsize f) (cells f) @ map Some (take n src)" unfolding gc by (metis append_eq_conv_conj)
  have "content g = content f @ take n src" unfolding content_def tg by (simp add: comp_def)
  moreover have "length (cells g) = fsize g + (?B - (?o + n))" unfolding gc using lg ll by simp
  then have "fsize g \<le> length (cells g)" "length (cells g) < fsize g + ?B" using assms(4) by simp_all
  moreover have "\<forall>b\<in>set (blocks g). length b = ?B"
    using Bs ll assms(2,3) by (auto simp: g_def memcpy_def dest: in_set_butlastD)
  moreover have "None \<notin> set (take (fsize g) (cells g))" unfolding tg using F(4) by auto
  ultimately have "file_ok g" "content g = content f @ take n src" unfolding file_ok_def by blast+
  then show ?thesis by blast
qed

lemma file_ok_Append: "file_ok f \<Longrightarrow> file_ok (FileState_Append f src) \<and> content (FileState_Append f src) = content f @ src"
proof (induction f src rule: FileState_Append.induct)
  case (1 f src)
  show ?case
  proof (cases "src = []")
    case True
    with 1 show ?thesis by (simp add: FileState_Append.simps)
  next
    case False
    let ?o = "fsize f mod mem_block_size"
    define n where "n = min (if ?o \<noteq> 0 then mem_block_size - ?o else mem_block_size) (length src)"
    define bs where "bs = (if ?o \<noteq> 0 then blocks f else blocks f @ [replicate mem_block_size None])"
    let ?g = "f\<lparr> blocks := butlast bs @ [memcpy (last bs) ?o (take n src)], fsize := fsize f + n \<rparr>"
    have g: "file_ok ?g \<and> content ?g = content f @ take n src"
      by (rule append_step [OF 1(2) _ _ _ bs_def]) (use False in \<open>auto simp: n_def min_def\<close>)
    have "FileState_Append f src = FileState_Append ?g (drop n src)"
      using False by (subst FileState_Append.simps) (simp only: Let_def n_def [symmetric] bs_def [symmetric] length_greater_0_conv if_True simp_thms)
    with 1(1) [OF _ refl bs_def n_def] g False show ?thesis by simp
  qed
qed

lemma Append_refs [simp]: "refs (FileState_Append f src) = refs f"
proof (induction f src rule: FileState_Append.induct)
  case (1 f src)
  show ?case
  proof (cases "src = []")
    case False
    with 1 [OF _ refl refl refl] show ?thesis by (simp add: FileState_Append.simps [of f src] Let_def)
  qed (simp add: FileState_Append.simps)
qed

lemma file_ok_Truncate: "file_ok (FileState_Truncate f)" "content (FileState_Truncate f) = []" "refs (FileState_Truncate f) = refs f"
  by (simp_all add: file_ok_def FileState_Truncate_def cells_def content_def)

lemma file_ok_new: "file_ok new_FileState" "content new_FileState = []"
  by (simp_all add: file_ok_def new_FileState_def cells_def content_def)

lemma file_ok_refs [simp]: "file_ok (f\<lparr> refs := n \<rparr>) = file_ok f" "content (f\<lparr> refs := n \<rparr>) = content f"
  by (simp_all add: file_ok_def content_def cells_def)

lemma fsize_content: "file_ok f \<Longrightarrow> fsize f = length (content f)"
  by (simp add: file_ok_def content_def)

section \<open>The file system they implement\<close>

text \<open>
  The specification: names are bound to file numbers, every file is a byte sequence, an open file
  keeps its file whatever happens to the name.
\<close>

record file_system =
  names :: "byte list \<rightharpoonup> nat"
  contents :: "nat \<Rightarrow> byte list"
  opened :: "file_obj option list"
  next_id :: nat

datatype env_op =
    OpenSequential "byte list" | OpenRandom "byte list" | Create "byte list" | OpenAppend "byte list"
  | Exists "byte list" | Children "byte list" | Remove "byte list" | FileSize "byte list" | Rename "byte list" "byte list"
  | ReadNext nat nat | SkipNext nat nat | ReadAt nat nat nat | Append nat "byte list" | Close nat

datatype env_res =
    Done status | Opened status "nat option" | Bytes status "byte list option" | Answer bool | Names "byte list list" | Sized status "nat option"

definition empty_fs :: file_system where
  "empty_fs = \<lparr> names = Map.empty, contents = (\<lambda>_. []), opened = [], next_id = 0 \<rparr>"

definition open_obj :: "file_obj \<Rightarrow> file_system \<Rightarrow> env_res \<times> file_system" where
  "open_obj x s = (Opened OK (Some (length (opened s))), s\<lparr> opened := opened s @ [Some x] \<rparr>)"

definition spec_create :: "byte list \<Rightarrow> file_system \<Rightarrow> env_res \<times> file_system" where
  "spec_create k s = open_obj (WritableFile (next_id s))
     (s\<lparr> names := (names s)(k \<mapsto> next_id s), contents := (contents s)(next_id s := []), next_id := next_id s + 1 \<rparr>)"

definition spec_read :: "byte list \<Rightarrow> nat \<Rightarrow> nat \<Rightarrow> status \<times> byte list option" where
  "spec_read xs pos n = (if length xs < pos then (IOError (bytes_of ''Offset greater than file size.'') [], None) else (OK, Some (take n (drop pos xs))))"

definition spec_open :: "(nat \<Rightarrow> file_obj) \<Rightarrow> byte list \<Rightarrow> file_system \<Rightarrow> env_res \<times> file_system" where
  "spec_open mk k s = (case names s k of None \<Rightarrow> (Opened (file_not_found k) None, s) | Some a \<Rightarrow> open_obj (mk a) s)"

fun spec_op :: "env_op \<Rightarrow> file_system \<Rightarrow> env_res \<times> file_system" where
  "spec_op (OpenSequential k) s = spec_open (\<lambda>a. SequentialFile a 0) k s"
| "spec_op (OpenRandom k) s = spec_open RandomAccessFile k s"
| "spec_op (Create k) s = (case names s k of None \<Rightarrow> spec_create k s
     | Some a \<Rightarrow> open_obj (WritableFile a) (s\<lparr> contents := (contents s)(a := []) \<rparr>))"
| "spec_op (OpenAppend k) s = (case names s k of None \<Rightarrow> spec_create k s | Some a \<Rightarrow> open_obj (WritableFile a) s)"
| "spec_op (Exists k) s = (Answer (k \<in> dom (names s)), s)"
| "spec_op (Children d) s = (Names (sorted_list_of_set {x. d @ [of_char CHR ''/''] @ x \<in> dom (names s)}), s)"
| "spec_op (Remove k) s = (case names s k of None \<Rightarrow> (Done (file_not_found k), s) | Some a \<Rightarrow> (Done OK, s\<lparr> names := (names s)(k := None) \<rparr>))"
| "spec_op (FileSize k) s = (Sized (case names s k of None \<Rightarrow> file_not_found k | Some a \<Rightarrow> OK) (map_option (\<lambda>a. length (contents s a)) (names s k)), s)"
| "spec_op (Rename src target) s = (case names s src of None \<Rightarrow> (Done (file_not_found src), s)
     | Some a \<Rightarrow> (Done OK, if src = target then s else s\<lparr> names := (names s)(target \<mapsto> a, src := None) \<rparr>))"
| "spec_op (ReadNext h n) s = (case opened s ! h of Some (SequentialFile a pos) \<Rightarrow>
     (let (st, r) = spec_read (contents s a) pos n in
      (Bytes st r, if ok st then s\<lparr> opened := (opened s)[h := Some (SequentialFile a (pos + length (the r)))] \<rparr> else s)))"
| "spec_op (SkipNext h n) s = (case opened s ! h of Some (SequentialFile a pos) \<Rightarrow>
     if length (contents s a) < pos then (Done (IOError (bytes_of ''pos_ > file_->Size()'') []), s)
     else (Done OK, s\<lparr> opened := (opened s)[h := Some (SequentialFile a (min (pos + n) (length (contents s a))))] \<rparr>))"
| "spec_op (ReadAt h pos n) s = (case opened s ! h of Some (RandomAccessFile a) \<Rightarrow>
     (let (st, r) = spec_read (contents s a) pos n in (Bytes st r, s)))"
| "spec_op (Append h xs) s = (case opened s ! h of Some (WritableFile a) \<Rightarrow> (Done OK, s\<lparr> contents := (contents s)(a := contents s a @ xs) \<rparr>))"
| "spec_op (Close h) s = (Done OK, s\<lparr> opened := (opened s)[h := None] \<rparr>)"

text \<open>The operation uses an open file of the right kind, and is none of the two that fail their specification.\<close>

definition kind_at :: "nat \<Rightarrow> file_obj option list \<Rightarrow> file_obj option" where
  "kind_at h fs = (if h < length fs then fs ! h else None)"

fun allowed :: "env_op \<Rightarrow> file_system \<Rightarrow> bool" where
  "allowed (OpenAppend k) s \<longleftrightarrow> names s k \<noteq> None"
| "allowed (Rename src target) s \<longleftrightarrow> src \<noteq> target \<or> names s src = None"
| "allowed (ReadNext h n) s \<longleftrightarrow> (case kind_at h (opened s) of Some (SequentialFile _ _) \<Rightarrow> True | _ \<Rightarrow> False)"
| "allowed (SkipNext h n) s \<longleftrightarrow> (case kind_at h (opened s) of Some (SequentialFile _ _) \<Rightarrow> True | _ \<Rightarrow> False)"
| "allowed (ReadAt h pos n) s \<longleftrightarrow> (case kind_at h (opened s) of Some (RandomAccessFile _) \<Rightarrow> True | _ \<Rightarrow> False)"
| "allowed (Append h xs) s \<longleftrightarrow> (case kind_at h (opened s) of Some (WritableFile _) \<Rightarrow> True | _ \<Rightarrow> False)"
| "allowed (Close h) s \<longleftrightarrow> kind_at h (opened s) \<noteq> None"
| "allowed _ s \<longleftrightarrow> True"

fun run_op :: "env_op \<Rightarrow> mem_env \<Rightarrow> (env_res \<times> mem_env) option" where
  "run_op (OpenSequential k) e = do { (st, h, e) \<leftarrow> NewSequentialFile k e; Some (Opened st h, e) }"
| "run_op (OpenRandom k) e = do { (st, h, e) \<leftarrow> NewRandomAccessFile k e; Some (Opened st h, e) }"
| "run_op (Create k) e = do { (st, h, e) \<leftarrow> NewWritableFile k e; Some (Opened st h, e) }"
| "run_op (OpenAppend k) e = do { (st, h, e) \<leftarrow> NewAppendableFile k e; Some (Opened st h, e) }"
| "run_op (Exists k) e = Some (Answer (FileExists k e), e)"
| "run_op (Children d) e = Some (Names (GetChildren d e), e)"
| "run_op (Remove k) e = do { (st, e) \<leftarrow> RemoveFile k e; Some (Done st, e) }"
| "run_op (FileSize k) e = do { (st, n) \<leftarrow> GetFileSize k e; Some (Sized st n, e) }"
| "run_op (Rename src target) e = do { (st, e) \<leftarrow> RenameFile src target e; Some (Done st, e) }"
| "run_op (ReadNext h n) e = do { (st, r, e) \<leftarrow> SequentialFile_Read h n e; Some (Bytes st r, e) }"
| "run_op (SkipNext h n) e = do { (st, e) \<leftarrow> SequentialFile_Skip h n e; Some (Done st, e) }"
| "run_op (ReadAt h pos n) e = do { (st, r) \<leftarrow> RandomAccessFile_Read h pos n e; Some (Bytes st r, e) }"
| "run_op (Append h xs) e = do { (st, e) \<leftarrow> WritableFile_Append h xs e; Some (Done st, e) }"
| "run_op (Close h) e = do { e \<leftarrow> delete_file h e; Some (Done OK, e) }"

fun run_ops :: "env_op list \<Rightarrow> mem_env \<Rightarrow> (env_res list \<times> mem_env) option" where
  "run_ops [] e = Some ([], e)"
| "run_ops (p # ps) e = do { (r, e) \<leftarrow> run_op p e; (rs, e) \<leftarrow> run_ops ps e; Some (r # rs, e) }"

fun spec_ops :: "env_op list \<Rightarrow> file_system \<Rightarrow> env_res list \<times> file_system" where
  "spec_ops [] s = ([], s)"
| "spec_ops (p # ps) s = (let (r, s) = spec_op p s; (rs, s) = spec_ops ps s in (r # rs, s))"

fun all_allowed :: "env_op list \<Rightarrow> file_system \<Rightarrow> bool" where
  "all_allowed [] s \<longleftrightarrow> True"
| "all_allowed (p # ps) s \<longleftrightarrow> allowed p s \<and> all_allowed ps (snd (spec_op p s))"

section \<open>Invariant\<close>

text \<open>Every pointer leads to a file, every file is counted by its pointers, and none is kept without one.\<close>

definition name_refs :: "(byte list \<times> nat option) list \<Rightarrow> nat \<Rightarrow> nat" where
  "name_refs m a = length (filter (\<lambda>(k, p). p = Some a) m)"

definition file_refs :: "file_obj option list \<Rightarrow> nat \<Rightarrow> nat" where
  "file_refs fs a = length (filter (\<lambda>x. map_option obj_addr x = Some a) fs)"

definition heap_ok :: "(nat \<rightharpoonup> FileState) \<Rightarrow> nat \<Rightarrow> (nat \<Rightarrow> nat) \<Rightarrow> bool" where
  "heap_ok h n c \<longleftrightarrow> (\<forall>a. case h a of None \<Rightarrow> c a = 0 | Some f \<Rightarrow> a < n \<and> file_ok f \<and> refs f = int (c a) \<and> 0 < c a)"

definition pointers :: "mem_env \<Rightarrow> nat \<Rightarrow> nat" where
  "pointers e a = name_refs (file_map e) a + file_refs (files e) a"

definition env_ok :: "mem_env \<Rightarrow> bool" where
  "env_ok e \<longleftrightarrow> sorted_wrt (<) (map fst (file_map e)) \<and> None \<notin> snd ` set (file_map e) \<and>
     heap_ok (heap e) (next_addr e) (pointers e)"

definition models :: "mem_env \<Rightarrow> file_system \<Rightarrow> bool" where
  "models e s \<longleftrightarrow> env_ok e \<and> map_of (file_map e) = (\<lambda>k. map_option Some (names s k)) \<and> files e = opened s \<and>
     next_addr e = next_id s \<and> (\<forall>a f. heap e a = Some f \<longrightarrow> content f = contents s a)"

subsection \<open>Counting\<close>

lemma refs_simps [simp]:
  "file_refs [] a = 0" "file_refs (x # fs) a = (if map_option obj_addr x = Some a then 1 else 0) + file_refs fs a"
  "name_refs [] a = 0" "name_refs ((k, p) # m) a = (if p = Some a then 1 else 0) + name_refs m a"
  by (simp_all add: file_refs_def name_refs_def)

lemma file_refs_snoc: "file_refs (fs @ [Some x]) a = file_refs fs a + (if a = obj_addr x then 1 else 0)"
  by (induction fs) auto

lemma file_refs_update:
  "h < length fs \<Longrightarrow> file_refs (fs[h := y]) a + (if map_option obj_addr (fs ! h) = Some a then 1 else 0) =
     file_refs fs a + (if map_option obj_addr y = Some a then 1 else 0)"
proof (induction fs arbitrary: h)
  case (Cons x fs)
  show ?case
  proof (cases h)
    case (Suc h')
    with Cons.IH [of h'] Cons.prems show ?thesis by simp
  qed simp
qed simp

lemma name_refs_put:
  "map_of m k = None \<Longrightarrow> name_refs (fm_put k (Some b) m) a = name_refs m a + (if a = b then 1 else 0)"
  by (induction k "Some b" m rule: fm_put.induct) (auto split: if_splits)

lemma map_of_put: "sorted_wrt (<) (map fst m) \<Longrightarrow> map_of (fm_put k v m) = (map_of m)(k \<mapsto> v)"
proof (induction k v m rule: fm_put.induct)
  case (2 k v k' v' m)
  then show ?case by (cases "k < k'"; cases "k = k'") (auto simp: fun_eq_iff)
qed simp

lemma keys_put: "fst ` set (fm_put k v m) = insert k (fst ` set m)"
  by (induction k v m rule: fm_put.induct) auto

lemma sorted_put: "sorted_wrt (<) (map fst m) \<Longrightarrow> sorted_wrt (<) (map fst (fm_put k v m))"
proof (induction k v m rule: fm_put.induct)
  case (2 k v k' v' m)
  then show ?case using keys_put [of k v m] by (force simp: image_iff)
qed simp

lemma values_put: "snd ` set (fm_put k v m) \<subseteq> insert v (snd ` set m)"
  by (induction k v m rule: fm_put.induct) auto

lemma map_of_erase: "map_of (fm_erase k m) = (map_of m)(k := None)"
  by (induction m) (auto simp: fm_erase_def fun_eq_iff)

lemma erase_keeps: "sorted_wrt (<) (map fst m) \<Longrightarrow> sorted_wrt (<) (map fst (fm_erase k m))" "snd ` set (fm_erase k m) \<subseteq> snd ` set m"
  by (induction m) (auto simp: fm_erase_def)

lemma name_refs_erase:
  "sorted_wrt (<) (map fst m) \<Longrightarrow> map_of m k = Some (Some b) \<Longrightarrow> name_refs (fm_erase k m) a + (if a = b then 1 else 0) = name_refs m a"
proof (induction m)
  case (Cons kv m)
  obtain k' v' where kv: "kv = (k', v')" by fastforce
  show ?case
  proof (cases "k' = k")
    case True
    have "fm_erase k m = m" unfolding fm_erase_def filter_id_conv using Cons.prems(1) kv True by fastforce
    then show ?thesis using Cons.prems(2) kv True by (simp add: fm_erase_def)
  next
    case False
    with Cons kv show ?thesis by (simp add: fm_erase_def)
  qed
qed simp

subsection \<open>The heap\<close>

lemma heap_okD:
  "heap_ok h n c \<Longrightarrow> h a = Some f \<Longrightarrow> a < n \<and> file_ok f \<and> refs f = int (c a) \<and> 0 < c a"
  "heap_ok h n c \<Longrightarrow> h a = None \<Longrightarrow> c a = 0"
  unfolding heap_ok_def by (drule spec [of _ a], simp)+

lemma heap_ok_live: "heap_ok h n c \<Longrightarrow> 0 < c a \<Longrightarrow> \<exists>f. h a = Some f"
  using heap_okD(2) by fastforce

lemma heap_ok_upd:
  assumes "heap_ok h n c" and "\<And>b. b \<noteq> a \<Longrightarrow> c' b = c b" and "n \<le> n'"
    and "case v of None \<Rightarrow> c' a = 0 | Some f \<Rightarrow> a < n' \<and> file_ok f \<and> refs f = int (c' a) \<and> 0 < c' a"
  shows "heap_ok (h(a := v)) n' c'"
  unfolding heap_ok_def
proof
  fix b
  show "case (h(a := v)) b of None \<Rightarrow> c' b = 0 | Some f \<Rightarrow> b < n' \<and> file_ok f \<and> refs f = int (c' b) \<and> 0 < c' b"
  proof (cases "b = a")
    case True
    show ?thesis using assms(4) unfolding True by simp
  next
    case False
    with assms(2) have "c' b = c b" by blast
    with False heap_okD [OF assms(1), of b] assms(3) show ?thesis by (cases "h b") auto
  qed
qed

lemma heap_ok_change:
  assumes "heap_ok h n c" and "h a = Some f" and "file_ok g" and "refs g = refs f"
  shows "heap_ok (h(a \<mapsto> g)) n c"
  by (rule heap_ok_upd [OF assms(1)]) (use assms heap_okD(1) [OF assms(1,2)] in simp_all)

lemma heap_ok_Ref:
  assumes "heap_ok h n c" and "h a = Some f" and "\<And>b. c' b = c b + (if b = a then 1 else 0)"
  shows "heap_ok (h(a \<mapsto> f\<lparr> refs := refs f + 1 \<rparr>)) n c'"
  by (rule heap_ok_upd [OF assms(1)]) (use assms(3) heap_okD(1) [OF assms(1,2)] in simp_all)

lemma heap_ok_Unref:
  assumes "heap_ok h n c" and "h a = Some f" and "\<And>b. c' b + (if b = a then 1 else 0) = c b"
  shows "heap_ok (if refs f - 1 \<le> 0 then h(a := None) else h(a \<mapsto> f\<lparr> refs := refs f - 1 \<rparr>)) n c'"
proof -
  have c': "c' b = c b" if "b \<noteq> a" for b using assms(3) [of b] that by simp
  have "c a = Suc (c' a)" using assms(3) [of a] by simp
  then show ?thesis
    using heap_okD(1) [OF assms(1,2)] by (auto intro!: heap_ok_upd [OF assms(1) c'])
qed

lemma heap_ok_alloc:
  assumes "heap_ok h n c" and "\<And>b. c' b = c b + (if b = n then 2 else 0)"
  shows "heap_ok (h(n \<mapsto> new_FileState\<lparr> refs := 2 \<rparr>)) (n + 1) c'"
proof -
  have "h n = None" using heap_okD(1) [OF assms(1), of n] by (cases "h n") auto
  then have "c n = 0" by (rule heap_okD(2) [OF assms(1)])
  with assms(2) show ?thesis by (intro heap_ok_upd [OF assms(1)]) (simp_all add: file_ok_new)
qed

subsection \<open>Every operation\<close>

lemma name_refs_pos: "map_of m k = Some (Some a) \<Longrightarrow> 0 < name_refs m a"
  by (induction m) (auto split: if_splits)

lemma file_refs_pos:
  assumes "kind_at h fs = Some x"
  shows "0 < file_refs fs (obj_addr x)"
proof -
  have "Some x \<in> set fs" using assms by (auto simp: kind_at_def split: if_splits dest: nth_mem)
  then show ?thesis by (induction fs) auto
qed

lemma models_name:
  assumes "models e s" and "names s k = Some a"
  shows "\<exists>f. heap e a = Some f \<and> file_ok f \<and> content f = contents s a \<and> map_of (file_map e) k = Some (Some a)"
proof -
  have m: "map_of (file_map e) k = Some (Some a)" and h: "heap_ok (heap e) (next_addr e) (pointers e)"
    using assms unfolding models_def env_ok_def by (simp, blast)
  with name_refs_pos [OF m] heap_ok_live [OF h, of a] obtain f where f: "heap e a = Some f" by (auto simp: pointers_def)
  with heap_okD(1) [OF h f] assms(1) m show ?thesis by (auto simp: models_def)
qed

lemma models_file:
  assumes "models e s" and "kind_at i (opened s) = Some x"
  shows "\<exists>f. heap e (obj_addr x) = Some f \<and> file_ok f \<and> content f = contents s (obj_addr x) \<and> file_at i e = Some x"
proof -
  have fs: "files e = opened s" and h: "heap_ok (heap e) (next_addr e) (pointers e)"
    using assms unfolding models_def env_ok_def by blast+
  from file_refs_pos [OF assms(2)] fs heap_ok_live [OF h, of "obj_addr x"] obtain f where f: "heap e (obj_addr x) = Some f"
    by (auto simp: pointers_def)
  have "file_at i e = Some x" using assms(2) fs by (simp add: file_at_def kind_at_def split: if_splits)
  with heap_okD(1) [OF h f] assms(1) f show ?thesis by (auto simp: models_def)
qed

lemma models_no_name: "models e s \<Longrightarrow> names s k = None \<Longrightarrow> map_of (file_map e) k = None"
  by (simp add: models_def)

lemma pointers_heap [simp]: "pointers (e\<lparr> heap := h \<rparr>) = pointers e"
  by (simp add: pointers_def fun_eq_iff)

lemma models_write:
  assumes "models e s" and "heap e a = Some f" and "file_ok g" and "refs g = refs f"
  shows "models (e\<lparr> heap := (heap e)(a \<mapsto> g) \<rparr>) (s\<lparr> contents := (contents s)(a := content g) \<rparr>)"
proof -
  have "heap_ok (heap e) (next_addr e) (pointers e)" using assms(1) unfolding models_def env_ok_def by blast
  from heap_ok_change [OF this assms(2-4)] assms(1) show ?thesis by (auto simp: models_def env_ok_def)
qed

lemma models_open:
  assumes "models e s" and "heap e a = Some f" and "obj_addr (mk a) = a"
  shows "\<exists>e'. new_file mk (Some a) e = Some (length (opened s), e') \<and> models e' (snd (open_obj (mk a) s))"
proof -
  let ?e = "e\<lparr> heap := (heap e)(a \<mapsto> f\<lparr> refs := refs f + 1 \<rparr>), files := files e @ [Some (mk a)] \<rparr>"
  have "heap_ok (heap e) (next_addr e) (pointers e)" using assms(1) unfolding models_def env_ok_def by blast
  from heap_ok_Ref [OF this assms(2), of "pointers ?e"] have "heap_ok (heap ?e) (next_addr ?e) (pointers ?e)"
    using assms(3) by (simp add: pointers_def file_refs_snoc)
  then have "models ?e (snd (open_obj (mk a) s))"
    using assms by (auto simp: models_def env_ok_def open_obj_def)
  moreover have "new_file mk (Some a) e = Some (length (files e), ?e)" using assms(2) by (simp add: new_file_def Ref_def)
  moreover have "files e = opened s" using assms(1) by (simp add: models_def)
  ultimately show ?thesis by metis
qed

lemma models_create:
  assumes "models e s" and "names s k = None"
  shows "\<exists>e'. NewWritableFile k e = Some (OK, Some (length (opened s)), e') \<and> models e' (snd (spec_create k s))"
proof -
  let ?n = "next_addr e"
  let ?e = "e\<lparr> heap := (heap e)(?n \<mapsto> new_FileState\<lparr> refs := 2 \<rparr>), next_addr := ?n + 1,
      file_map := fm_put k (Some ?n) (file_map e), files := files e @ [Some (WritableFile ?n)] \<rparr>"
  have m: "map_of (file_map e) k = None" by (rule models_no_name [OF assms])
  have E: "env_ok e" "map_of (file_map e) = (\<lambda>k. map_option Some (names s k))" "files e = opened s" "next_addr e = next_id s"
    "\<And>a f. heap e a = Some f \<Longrightarrow> content f = contents s a" using assms(1) by (auto simp: models_def)
  have run: "NewWritableFile k e = Some (OK, Some (length (opened s)), ?e)"
    by (simp add: NewWritableFile_def m alloc_def Ref_def new_file_def E(3) new_FileState_def)
  have "heap_ok (heap e) (next_addr e) (pointers e)" using E(1) by (simp add: env_ok_def)
  from heap_ok_alloc [OF this, of "pointers ?e"] have "heap_ok (heap ?e) (next_addr ?e) (pointers ?e)"
    by (simp add: pointers_def name_refs_put [OF m] file_refs_snoc)
  then have "env_ok ?e"
    using E(1) values_put [of k "Some ?n" "file_map e"] by (auto simp: env_ok_def sorted_put)
  then have "models ?e (snd (spec_create k s))"
    using E by (auto simp: models_def spec_create_def open_obj_def map_of_put env_ok_def file_ok_new fun_eq_iff)
  with run show ?thesis by blast
qed

lemma models_unname:
  assumes "models e s"
  shows "\<exists>e'. RemoveFileInternal k e = Some e' \<and> models e' (s\<lparr> names := (names s)(k := None) \<rparr>)"
proof (cases "names s k")
  case None
  then have "(names s)(k := None) = names s" by auto
  with models_no_name [OF assms None] assms show ?thesis by (simp add: RemoveFileInternal_def)
next
  case (Some a)
  from models_name [OF assms Some] obtain f where f: "heap e a = Some f" "map_of (file_map e) k = Some (Some a)" by blast
  have E: "env_ok e" "map_of (file_map e) = (\<lambda>k. map_option Some (names s k))" "files e = opened s" "next_addr e = next_id s"
    "\<And>a f. heap e a = Some f \<Longrightarrow> content f = contents s a" using assms by (auto simp: models_def)
  define h where "h = (if refs f - 1 \<le> 0 then (heap e)(a := None) else (heap e)(a \<mapsto> f\<lparr> refs := refs f - 1 \<rparr>))"
  let ?e = "e\<lparr> heap := h, file_map := fm_erase k (file_map e) \<rparr>"
  have run: "RemoveFileInternal k e = Some ?e"
    by (simp add: RemoveFileInternal_def f Unref_def h_def)
  have ok: "heap_ok (heap e) (next_addr e) (pointers e)" "sorted_wrt (<) (map fst (file_map e))" using E(1) by (simp_all add: env_ok_def)
  have "heap_ok h (next_addr e) (pointers ?e)"
    unfolding h_def by (rule heap_ok_Unref [OF ok(1) f(1)]) (simp add: pointers_def name_refs_erase [OF ok(2) f(2), symmetric])
  then have "env_ok ?e"
    using E(1) erase_keeps(1) [of "file_map e" k] erase_keeps(2) [of k "file_map e"] by (auto simp: env_ok_def)
  moreover have "content g = contents s b" if "h b = Some g" for b g
    using that E(5) [OF f(1)] E(5) [of b g] by (auto simp: h_def split: if_splits)
  ultimately have "models ?e (s\<lparr> names := (names s)(k := None) \<rparr>)"
    using E(2-4) by (auto simp: models_def map_of_erase)
  with run show ?thesis by blast
qed

lemma models_rename:
  assumes "models e s" and "names s src = Some a" and "src \<noteq> target"
  shows "\<exists>e'. RenameFile src target e = Some (OK, e') \<and> models e' (s\<lparr> names := (names s)(target \<mapsto> a, src := None) \<rparr>)"
proof -
  from models_unname [OF assms(1), of target] obtain e1 where
    e1: "RemoveFileInternal target e = Some e1" "models e1 (s\<lparr> names := (names s)(target := None) \<rparr>)" (is "models _ ?s") by blast
  have m: "map_of (file_map e1) src = Some (Some a)" "map_of (file_map e1) target = None"
    using e1(2) assms(2,3) by (simp_all add: models_def)
  have E: "env_ok e1" "map_of (file_map e1) = (\<lambda>k. map_option Some (names ?s k))" "files e1 = opened s" "next_addr e1 = next_id s"
    "\<And>a f. heap e1 a = Some f \<Longrightarrow> content f = contents s a" using e1(2) by (auto simp: models_def)
  let ?m = "fm_put target (Some a) (file_map e1)"
  have so: "sorted_wrt (<) (map fst ?m)" using E(1) sorted_put by (auto simp: env_ok_def)
  have mp: "map_of ?m = (map_of (file_map e1))(target \<mapsto> Some a)" using E(1) map_of_put by (auto simp: env_ok_def)
  then have "map_of ?m src = Some (Some a)" using m(1) assms(3) by simp
  then have "name_refs (fm_erase src ?m) b = name_refs (file_map e1) b" for b
    using name_refs_erase [OF so, of src a b] name_refs_put [OF m(2), of a b] by simp
  then have "pointers (e1\<lparr> file_map := fm_erase src ?m \<rparr>) = pointers e1" by (simp add: pointers_def fun_eq_iff)
  then have "env_ok (e1\<lparr> file_map := fm_erase src ?m \<rparr>)"
    using E(1) erase_keeps(1) [OF so, of src] erase_keeps(2) [of src ?m] values_put [of target "Some a" "file_map e1"] by (auto simp: env_ok_def)
  then have "models (e1\<lparr> file_map := fm_erase src ?m \<rparr>) (s\<lparr> names := (names s)(target \<mapsto> a, src := None) \<rparr>)"
    using E by (auto simp: models_def map_of_erase mp)
  moreover have "RenameFile src target e = Some (OK, e1\<lparr> file_map := fm_erase src ?m \<rparr>)"
    using models_name [OF assms(1,2)] by (auto simp: RenameFile_def e1(1) fm_at_def m(1))
  ultimately show ?thesis by blast
qed

lemma models_close:
  assumes "models e s" and "kind_at i (opened s) = Some x"
  shows "\<exists>e'. delete_file i e = Some e' \<and> models e' (s\<lparr> opened := (opened s)[i := None] \<rparr>)"
proof -
  from models_file [OF assms] obtain f where f: "heap e (obj_addr x) = Some f" "file_at i e = Some x" by blast
  have E: "env_ok e" "map_of (file_map e) = (\<lambda>k. map_option Some (names s k))" "files e = opened s" "next_addr e = next_id s"
    "\<And>a f. heap e a = Some f \<Longrightarrow> content f = contents s a" using assms(1) by (auto simp: models_def)
  have i: "i < length (files e)" "files e ! i = Some x" using assms(2) E(3) by (auto simp: kind_at_def split: if_splits)
  define h where "h = (if refs f - 1 \<le> 0 then (heap e)(obj_addr x := None) else (heap e)(obj_addr x \<mapsto> f\<lparr> refs := refs f - 1 \<rparr>))"
  let ?e = "e\<lparr> heap := h, files := (files e)[i := None] \<rparr>"
  have run: "delete_file i e = Some ?e" by (simp add: delete_file_def f Unref_def h_def)
  have ok: "heap_ok (heap e) (next_addr e) (pointers e)" using E(1) by (simp add: env_ok_def)
  have "pointers ?e b + (if b = obj_addr x then 1 else 0) = pointers e b" for b
    using file_refs_update [OF i(1), of None b] i(2) by (auto simp: pointers_def split: if_splits)
  then have "heap_ok h (next_addr e) (pointers ?e)" unfolding h_def by (rule heap_ok_Unref [OF ok f(1)])
  then have "env_ok ?e" using E(1) by (simp add: env_ok_def)
  moreover have "content g = contents s b" if "h b = Some g" for b g
    using that E(5) [OF f(1)] E(5) [of b g] by (auto simp: h_def split: if_splits)
  ultimately have "models ?e (s\<lparr> opened := (opened s)[i := None] \<rparr>)" using E(2-4) by (simp add: models_def)
  with run show ?thesis by blast
qed

text \<open>Moving the position of an open file moves no pointer.\<close>

lemma models_move:
  assumes "models e s" and "kind_at i (opened s) = Some x" and "obj_addr y = obj_addr x"
  shows "models (e\<lparr> files := (files e)[i := Some y] \<rparr>) (s\<lparr> opened := (opened s)[i := Some y] \<rparr>)"
proof -
  have E: "files e = opened s" using assms(1) by (simp add: models_def)
  have i: "i < length (files e)" "files e ! i = Some x" using assms(2) E by (auto simp: kind_at_def split: if_splits)
  have "file_refs ((files e)[i := Some y]) a = file_refs (files e) a" for a
    using file_refs_update [OF i(1), of "Some y" a] i(2) assms(3) by (auto split: if_splits)
  then have "pointers (e\<lparr> files := (files e)[i := Some y] \<rparr>) = pointers e" by (simp add: pointers_def fun_eq_iff)
  with assms(1) show ?thesis by (auto simp: models_def env_ok_def)
qed

text \<open>The names below a directory, in order.\<close>

lemma is_child_iff: "is_child dir k \<longleftrightarrow> (\<exists>x. k = dir @ [of_char CHR ''/''] @ x)"
proof
  assume "is_child dir k"
  then have "k = dir @ drop (length dir) k" "length dir < length k" "k ! length dir = of_char CHR ''/''"
    by (auto simp: is_child_def starts_with_iff) (metis append_take_drop_id)
  then show "\<exists>x. k = dir @ [of_char CHR ''/''] @ x"
    by (metis Cons_nth_drop_Suc append_Cons append_Nil)
next
  assume "\<exists>x. k = dir @ [of_char CHR ''/''] @ x"
  then show "is_child dir k" by (auto simp: is_child_def starts_with_iff nth_append)
qed

lemma sorted_strip: "sorted_wrt (<) (map (\<lambda>x. d @ x) xs) \<longleftrightarrow> sorted_wrt (<) (xs :: byte list list)"
proof -
  have "d @ x < d @ y \<longleftrightarrow> x < (y :: byte list)" for x y by (induction d) simp_all
  then show ?thesis by (simp add: sorted_wrt_map)
qed

lemma GetChildren_sorted:
  assumes "sorted_wrt (<) (map fst (file_map e))"
  shows "GetChildren dir e = sorted_list_of_set {x. dir @ [of_char CHR ''/''] @ x \<in> fst ` set (file_map e)}"
proof -
  let ?d = "dir @ [of_char CHR ''/'']"
  let ?ks = "filter (is_child dir) (map fst (file_map e))"
  have g: "GetChildren dir e = map (drop (length ?d)) ?ks"
    by (simp add: GetChildren_def case_prod_unfold filter_map comp_def)
  have child: "?d @ drop (length ?d) k = k" if "is_child dir k" for k
    using that unfolding is_child_iff by auto
  then have "map (\<lambda>x. ?d @ x) (map (drop (length ?d)) ?ks) = ?ks"
    unfolding map_map by (intro map_idI) simp
  moreover have "sorted_wrt (<) ?ks" using assms by (rule sorted_wrt_filter)
  ultimately have "sorted_wrt (<) (map (\<lambda>x. ?d @ x) (GetChildren dir e))" unfolding g by simp
  then have so: "sorted_wrt (<) (GetChildren dir e)" unfolding sorted_strip .
  have "set (GetChildren dir e) = {x. ?d @ x \<in> fst ` set (file_map e)}"
  proof (intro set_eqI iffI)
    fix x assume "x \<in> set (GetChildren dir e)"
    then show "x \<in> {x. ?d @ x \<in> fst ` set (file_map e)}" unfolding g using child by force
  next
    fix x assume "x \<in> {x. ?d @ x \<in> fst ` set (file_map e)}"
    then have "?d @ x \<in> set ?ks" by (simp add: is_child_iff)
    then have "drop (length ?d) (?d @ x) \<in> set (GetChildren dir e)" unfolding g by (metis image_eqI set_map)
    then show "x \<in> set (GetChildren dir e)" by simp
  qed
  then have "{x. dir @ [of_char CHR ''/''] @ x \<in> fst ` set (file_map e)} = set (GetChildren dir e)" by simp
  with so show ?thesis by (simp add: sorted_list_of_set.idem_if_sorted_distinct strict_sorted_iff)
qed

subsection \<open>Simulation\<close>

lemma models_dom: "models e s \<Longrightarrow> fst ` set (file_map e) = dom (names s)"
  by (simp add: models_def flip: dom_map_of_conv_image_fst) (auto simp: dom_def)

lemma spec_read_Read: "file_ok f \<Longrightarrow> FileState_Read f pos n = Some (spec_read (content f) pos n)"
  by (simp add: file_ok_Read spec_read_def fsize_content)

lemma run_open:
  assumes "models e s" and "\<And>a. obj_addr (mk a) = a"
  shows "\<exists>e'. (case map_of (file_map e) k of None \<Rightarrow> Some (file_not_found k, None, e)
       | Some p \<Rightarrow> do { (h, e) \<leftarrow> new_file mk p e; Some (OK, Some h, e) }) \<bind> (\<lambda>(st, h, e). Some (Opened st h, e)) =
     Some (fst (spec_open mk k s), e') \<and> models e' (snd (spec_open mk k s))"
proof (cases "names s k")
  case None
  with models_no_name [OF assms(1) None] assms(1) show ?thesis by (simp add: spec_open_def)
next
  case (Some a)
  from models_name [OF assms(1) Some] obtain f where f: "heap e a = Some f" "map_of (file_map e) k = Some (Some a)" by blast
  from models_open [OF assms(1) f(1), of mk] assms(2) f(2) Some show ?thesis by (auto simp: spec_open_def open_obj_def)
qed

lemma run_create:
  assumes "models e s"
  shows "\<exists>e'. run_op (Create k) e = Some (fst (spec_op (Create k) s), e') \<and> models e' (snd (spec_op (Create k) s))"
proof (cases "names s k")
  case None
  with models_create [OF assms None] show ?thesis by (auto simp: spec_create_def open_obj_def)
next
  case (Some a)
  from models_name [OF assms Some] obtain f where f: "heap e a = Some f" "map_of (file_map e) k = Some (Some a)" by blast
  let ?e = "e\<lparr> heap := (heap e)(a \<mapsto> FileState_Truncate f) \<rparr>"
  have "models ?e (s\<lparr> contents := (contents s)(a := []) \<rparr>)"
    using models_write [OF assms f(1) file_ok_Truncate(1,3)] by (simp add: file_ok_Truncate)
  from models_open [OF this, of a "FileState_Truncate f" WritableFile] f Some show ?thesis
    by (auto simp: NewWritableFile_def open_obj_def)
qed

lemma run_append_open:
  assumes "models e s" and "names s k = Some a"
  shows "\<exists>e'. run_op (OpenAppend k) e = Some (fst (spec_op (OpenAppend k) s), e') \<and> models e' (snd (spec_op (OpenAppend k) s))"
proof -
  from models_name [OF assms] obtain f where f: "heap e a = Some f" "map_of (file_map e) k = Some (Some a)" by blast
  from models_open [OF assms(1) f(1), of WritableFile] f assms(2) show ?thesis
    by (auto simp: NewAppendableFile_def fm_at_def open_obj_def)
qed

lemma run_remove:
  assumes "models e s"
  shows "\<exists>e'. run_op (Remove k) e = Some (fst (spec_op (Remove k) s), e') \<and> models e' (snd (spec_op (Remove k) s))"
proof (cases "names s k")
  case None
  with models_no_name [OF assms None] assms show ?thesis by (simp add: RemoveFile_def)
next
  case (Some a)
  with models_unname [OF assms, of k] models_name [OF assms Some] show ?thesis by (auto simp: RemoveFile_def)
qed

lemma run_size:
  assumes "models e s"
  shows "run_op (FileSize k) e = Some (fst (spec_op (FileSize k) s), e)"
proof (cases "names s k")
  case None
  with models_no_name [OF assms None] show ?thesis by (simp add: GetFileSize_def)
next
  case (Some a)
  with models_name [OF assms Some] show ?thesis by (auto simp: GetFileSize_def fsize_content)
qed

lemma run_rename:
  assumes "models e s" and "allowed (Rename src target) s"
  shows "\<exists>e'. run_op (Rename src target) e = Some (fst (spec_op (Rename src target) s), e') \<and> models e' (snd (spec_op (Rename src target) s))"
proof (cases "names s src")
  case None
  with models_no_name [OF assms(1) None] assms(1) show ?thesis by (simp add: RenameFile_def)
next
  case (Some a)
  with assms(2) models_rename [OF assms(1) Some, of target] show ?thesis by auto
qed

lemma kind_nth: "kind_at i fs = Some x \<Longrightarrow> fs ! i = Some x"
  by (simp add: kind_at_def split: if_splits)

lemma run_read_next:
  assumes "models e s" and "allowed (ReadNext i n) s"
  shows "\<exists>e'. run_op (ReadNext i n) e = Some (fst (spec_op (ReadNext i n) s), e') \<and> models e' (snd (spec_op (ReadNext i n) s))"
proof -
  obtain a pos where k: "kind_at i (opened s) = Some (SequentialFile a pos)"
    using assms(2) by (auto split: option.splits file_obj.splits)
  from models_file [OF assms(1) k] obtain f where
    f: "heap e a = Some f" "file_ok f" "content f = contents s a" "file_at i e = Some (SequentialFile a pos)" by auto
  obtain st r where r: "spec_read (contents s a) pos n = (st, r)" by fastforce
  let ?y = "SequentialFile a (pos + length (the r))"
  have "models (e\<lparr> files := (files e)[i := Some ?y] \<rparr>) (s\<lparr> opened := (opened s)[i := Some ?y] \<rparr>)"
    by (rule models_move [OF assms(1) k]) simp
  then show ?thesis using assms(1)
    by (cases "ok st") (simp_all add: SequentialFile_Read_def f spec_read_Read kind_nth [OF k] r)
qed

lemma run_skip_next:
  assumes "models e s" and "allowed (SkipNext i n) s"
  shows "\<exists>e'. run_op (SkipNext i n) e = Some (fst (spec_op (SkipNext i n) s), e') \<and> models e' (snd (spec_op (SkipNext i n) s))"
proof -
  obtain a pos where k: "kind_at i (opened s) = Some (SequentialFile a pos)"
    using assms(2) by (auto split: option.splits file_obj.splits)
  from models_file [OF assms(1) k] obtain f where
    f: "heap e a = Some f" "file_ok f" "content f = contents s a" "file_at i e = Some (SequentialFile a pos)" by auto
  define l where "l = length (contents s a)"
  have size: "fsize f = l" using f(2,3) by (simp add: fsize_content l_def)
  show ?thesis
  proof (cases "l < pos")
    case True
    with assms(1) f size show ?thesis by (simp add: SequentialFile_Skip_def kind_nth [OF k] l_def)
  next
    case False
    let ?y = "SequentialFile a (min (pos + n) l)"
    have "pos + (if l - pos < n then l - pos else n) = min (pos + n) l" using False by simp
    then have "run_op (SkipNext i n) e = Some (Done OK, e\<lparr> files := (files e)[i := Some ?y] \<rparr>)"
      using False by (simp add: SequentialFile_Skip_def f(1,4) size Let_def del: if_split)
    moreover have "models (e\<lparr> files := (files e)[i := Some ?y] \<rparr>) (s\<lparr> opened := (opened s)[i := Some ?y] \<rparr>)"
      by (rule models_move [OF assms(1) k]) simp
    ultimately show ?thesis using False by (simp add: kind_nth [OF k] flip: l_def)
  qed
qed

lemma run_read_at:
  assumes "models e s" and "allowed (ReadAt i pos n) s"
  shows "run_op (ReadAt i pos n) e = Some (fst (spec_op (ReadAt i pos n) s), e) \<and> snd (spec_op (ReadAt i pos n) s) = s"
proof -
  obtain a where k: "kind_at i (opened s) = Some (RandomAccessFile a)"
    using assms(2) by (auto split: option.splits file_obj.splits)
  from models_file [OF assms(1) k] obtain f where
    f: "heap e a = Some f" "file_ok f" "content f = contents s a" "file_at i e = Some (RandomAccessFile a)" by auto
  show ?thesis by (simp add: RandomAccessFile_Read_def f spec_read_Read kind_nth [OF k] split: prod.split)
qed

lemma run_append:
  assumes "models e s" and "allowed (Append i xs) s"
  shows "\<exists>e'. run_op (Append i xs) e = Some (fst (spec_op (Append i xs) s), e') \<and> models e' (snd (spec_op (Append i xs) s))"
proof -
  obtain a where k: "kind_at i (opened s) = Some (WritableFile a)"
    using assms(2) by (auto split: option.splits file_obj.splits)
  from models_file [OF assms(1) k] obtain f where
    f: "heap e a = Some f" "file_ok f" "content f = contents s a" "file_at i e = Some (WritableFile a)" by auto
  from models_write [OF assms(1) f(1), of "FileState_Append f xs"] file_ok_Append [OF f(2), of xs] show ?thesis
    by (simp add: WritableFile_Append_def f kind_nth [OF k])
qed

lemma run_op_models:
  assumes "models e s" and "allowed p s"
  shows "\<exists>e'. run_op p e = Some (fst (spec_op p s), e') \<and> models e' (snd (spec_op p s))"
proof (cases p)
  case (OpenSequential k)
  with run_open [OF assms(1), of "\<lambda>a. SequentialFile a 0" k] show ?thesis by (simp add: NewSequentialFile_def)
next
  case (OpenRandom k)
  with run_open [OF assms(1), of RandomAccessFile k] show ?thesis by (simp add: NewRandomAccessFile_def)
next
  case (Exists k)
  with assms(1) show ?thesis by (auto simp: FileExists_def models_def)
next
  case (Children d)
  have "sorted_wrt (<) (map fst (file_map e))" using assms(1) unfolding models_def env_ok_def by blast
  from GetChildren_sorted [OF this, of d] models_dom [OF assms(1)] assms(1) Children show ?thesis by simp
next
  case (FileSize k)
  with run_size [OF assms(1), of k] assms(1) show ?thesis by simp
next
  case (OpenAppend k)
  with run_append_open [OF assms(1)] assms(2) show ?thesis by auto
next
  case (Close i)
  with models_close [OF assms(1), of i] assms(2) show ?thesis by auto
next
  case (Create k)
  show ?thesis unfolding Create by (rule run_create [OF assms(1)])
next
  case (Remove k)
  show ?thesis unfolding Remove by (rule run_remove [OF assms(1)])
next
  case (Rename src target)
  show ?thesis unfolding Rename by (rule run_rename [OF assms(1) assms(2) [unfolded Rename]])
next
  case (ReadNext i n)
  show ?thesis unfolding ReadNext by (rule run_read_next [OF assms(1) assms(2) [unfolded ReadNext]])
next
  case (SkipNext i n)
  show ?thesis unfolding SkipNext by (rule run_skip_next [OF assms(1) assms(2) [unfolded SkipNext]])
next
  case (ReadAt i pos n)
  from run_read_at [OF assms(1) assms(2) [unfolded ReadAt]] assms(1) show ?thesis unfolding ReadAt by metis
next
  case (Append i xs)
  show ?thesis unfolding Append by (rule run_append [OF assms(1) assms(2) [unfolded Append]])
qed

lemma models_new: "models new_env empty_fs"
  by (simp add: models_def env_ok_def new_env_def empty_fs_def heap_ok_def pointers_def)

lemma run_ops_models:
  "models e s \<Longrightarrow> all_allowed ps s \<Longrightarrow> \<exists>e'. run_ops ps e = Some (fst (spec_ops ps s), e') \<and> models e' (snd (spec_ops ps s))"
proof (induction ps arbitrary: e s)
  case (Cons p ps)
  from run_op_models [OF Cons.prems(1), of p] Cons.prems(2) obtain e1 where
    e1: "run_op p e = Some (fst (spec_op p s), e1)" "models e1 (snd (spec_op p s))" by auto
  from Cons.IH [OF e1(2)] Cons.prems(2) e1(1) show ?case by (auto split: prod.split)
qed simp

subsection \<open>The end of an environment\<close>

lemma unref_all_ok:
  "heap_ok (heap e) n (name_refs m) \<Longrightarrow> None \<notin> snd ` set m \<Longrightarrow> \<exists>e'. unref_all m e = Some e' \<and> heap_ok (heap e') n (\<lambda>_. 0)"
proof (induction m arbitrary: e)
  case Nil
  have "name_refs [] = (\<lambda>_. 0)" by (simp add: fun_eq_iff)
  with Nil show ?case by simp
next
  case (Cons kp m)
  then have "snd kp \<noteq> None" by auto
  then obtain k a where kp: "kp = (k, Some a)" by (metis not_None_eq prod.collapse)
  obtain f where f: "heap e a = Some f" using heap_ok_live [OF Cons.prems(1), of a] kp by auto
  define e1 where "e1 = e\<lparr> heap := (if refs f - 1 \<le> 0 then (heap e)(a := None) else (heap e)(a \<mapsto> f\<lparr> refs := refs f - 1 \<rparr>)) \<rparr>"
  have "Unref a e = Some e1" by (simp add: Unref_def f e1_def)
  moreover have "heap_ok (heap e1) n (name_refs m)"
    using heap_ok_Unref [OF Cons.prems(1) f, of "name_refs m"] by (simp add: kp e1_def)
  ultimately show ?case using Cons.IH [of e1] Cons.prems(2) kp by simp
qed

lemma delete_env_ok:
  assumes "env_ok e" and "\<forall>i. kind_at i (files e) = None"
  shows "\<exists>e'. delete_env e = Some e' \<and> heap e' = Map.empty"
proof -
  have "x = None" if "x \<in> set (files e)" for x
    using that assms(2) by (auto simp: in_set_conv_nth kind_at_def split: if_splits)
  then have "file_refs (files e) a = 0" for a by (induction "files e") (auto simp: file_refs_def filter_empty_conv)
  then have "pointers e = name_refs (file_map e)" by (simp add: pointers_def fun_eq_iff)
  with assms(1) have "heap_ok (heap e) (next_addr e) (name_refs (file_map e))" "None \<notin> snd ` set (file_map e)"
    by (simp_all add: env_ok_def)
  from unref_all_ok [OF this] obtain e' where e': "delete_env e = Some e'" "heap_ok (heap e') (next_addr e) (\<lambda>_. 0)"
    by (auto simp: delete_env_def)
  have "heap e' a = None" for a using heap_okD(1) [OF e'(2), of a] by (cases "heap e' a") auto
  then have "heap e' = Map.empty" by blast
  with e'(1) show ?thesis by blast
qed

text \<open>What the two excluded operations do instead.\<close>

lemma appendable_file_lost:
  assumes "models e s" and "names s k = None"
  shows "\<exists>e'. NewAppendableFile k e = Some (OK, Some (length (files e)), e') \<and> FileExists k e' \<and>
     GetFileSize k e' = None \<and> NewSequentialFile k e' = None"
proof -
  have so: "sorted_wrt (<) (map fst (file_map e))" using assms(1) unfolding models_def env_ok_def by blast
  have m: "map_of (file_map e) k = None" by (rule models_no_name [OF assms])
  have "map_of (fm_put k None (file_map e)) k = Some None" by (simp add: map_of_put [OF so])
  then show ?thesis
    by (simp add: NewAppendableFile_def fm_at_def m alloc_def Ref_def new_file_def FileExists_def GetFileSize_def NewSequentialFile_def)
qed

lemma rename_to_itself_removes:
  assumes "models e s" and "names s k = Some a"
  shows "\<exists>e'. RenameFile k k e = Some (OK, e') \<and> \<not> FileExists k e'"
proof -
  from models_unname [OF assms(1), of k] obtain e1 where e1: "RemoveFileInternal k e = Some e1" by blast
  obtain p m where "fm_at k (file_map e1) = (p, m)" by fastforce
  then show ?thesis using models_name [OF assms] by (auto simp: RenameFile_def e1 FileExists_def map_of_erase)
qed

lemma unref_all_null: "None \<in> snd ` set m \<Longrightarrow> unref_all m e = None"
  by (induction m e rule: unref_all.induct) (auto split: bind_splits)

lemma appendable_file_null:
  assumes "sorted_wrt (<) (map fst (file_map e))" and "map_of (file_map e) k = None"
    and "run_op (OpenAppend k) e = Some (r, e')"
  shows "delete_env e' = None"
proof -
  have "file_map e' = fm_put k None (file_map e)"
    using assms(2,3) by (auto simp: NewAppendableFile_def fm_at_def alloc_def Ref_def new_file_def split: bind_splits)
  moreover have "map_of (fm_put k None (file_map e)) k = Some None" by (simp add: map_of_put [OF assms(1)])
  ultimately have "(k, None) \<in> set (file_map e')" by (metis map_of_SomeD)
  then have "None \<in> snd ` set (file_map e')" by force
  then show ?thesis by (simp add: delete_env_def unref_all_null)
qed

section \<open>Properties\<close>

text \<open>
  C29. The in-memory environment implements a file system, but for two calls. Take any sequence of
  calls (opening, creating, appending to, reading, removing and renaming files) that uses only
  handles that are open and of the right kind, never opens a missing file for appending, and never
  renames a file to itself. Then no call follows a null or dangling pointer or reads
  uninitialised memory, every call returns what the file system of byte sequences returns, and at
  the end every name leads to a file with the bytes it has there. A file that was removed or
  renamed stays readable through its open handles. The two calls go wrong in every such state:
  opening a missing file for appending reports success but leaves a name whose pointer is null, so
  that asking for its size or reading it crashes; renaming a file to itself removes it.
\<close>

theorem memenv_refines:
  assumes "all_allowed ps empty_fs" and "spec_ops ps empty_fs = (results, s)"
  shows "\<exists>e. run_ops ps new_env = Some (results, e) \<and>
     (\<forall>k. map_of (file_map e) k = map_option Some (names s k)) \<and>
     (\<forall>k a. names s k = Some a \<longrightarrow> (\<exists>f. heap e a = Some f \<and> content f = contents s a)) \<and>
     (\<forall>k. names s k = None \<longrightarrow> (\<exists>e'. NewAppendableFile k e = Some (OK, Some (length (files e)), e') \<and>
        FileExists k e' \<and> GetFileSize k e' = None \<and> NewSequentialFile k e' = None)) \<and>
     (\<forall>k a. names s k = Some a \<longrightarrow> (\<exists>e'. RenameFile k k e = Some (OK, e') \<and> \<not> FileExists k e'))"
proof -
  from run_ops_models [OF models_new assms(1)] assms(2) obtain e where
    e: "run_ops ps new_env = Some (results, e)" "models e s" by auto
  have "map_of (file_map e) k = map_option Some (names s k)" for k using e(2) by (simp add: models_def)
  moreover have "\<exists>f. heap e a = Some f \<and> content f = contents s a" if "names s k = Some a" for k a
    using models_name [OF e(2) that] by blast
  ultimately show ?thesis
    using e(1) appendable_file_lost [OF e(2)] rename_to_itself_removes [OF e(2)] by blast
qed

theorem memenv_refines_witness:
  "\<exists>e. run_ops [Create [97], Append 0 [1, 2, 3], OpenSequential [97], Rename [97] [98], ReadNext 1 2, Remove [98], ReadNext 1 9, Exists [98]] new_env =
     Some ([Opened OK (Some 0), Done OK, Opened OK (Some 1), Done OK, Bytes OK (Some [1, 2]), Done OK, Bytes OK (Some [3]), Answer False], e)"
proof -
  let ?ps = "[Create [97], Append 0 [1, 2, 3], OpenSequential [97], Rename [97] [98], ReadNext 1 2, Remove [98], ReadNext 1 9, Exists [98]]"
  let ?rs = "[Opened OK (Some 0), Done OK, Opened OK (Some 1), Done OK, Bytes OK (Some [1, 2]), Done OK, Bytes OK (Some [3]), Answer False]"
  note defs = empty_fs_def spec_create_def spec_open_def open_obj_def spec_read_def kind_at_def dom_def
  have "all_allowed ?ps empty_fs" by (simp add: defs)
  moreover have "fst (spec_ops ?ps empty_fs) = ?rs" by (simp add: defs)
  ultimately have "spec_ops ?ps empty_fs = (?rs, snd (spec_ops ?ps empty_fs))" by (metis prod.collapse)
  from memenv_refines [OF \<open>all_allowed ?ps empty_fs\<close> this] show ?thesis by blast
qed

text \<open>
  C30. The heap of the in-memory environment is well typed at every moment: the pointers of all
  names and of all open files lead to live file objects, every live file object has whole blocks
  that cover its size with initialised bytes, its reference count is the number of the names and
  open files that point to it, and it is live only as long as there is one. When the client has
  closed its files, deleting the environment frees everything. As before, the calls made are those
  on open handles of the right kind, without opening a missing file for appending or renaming a
  file to itself; the former call breaks the invariant from any such state: whenever it is made,
  deleting the environment afterwards follows a null pointer.
\<close>

theorem memenv_well_typed:
  assumes "all_allowed ps empty_fs"
  shows "\<exists>results e. run_ops ps new_env = Some (results, e) \<and>
     (\<forall>k p. (k, p) \<in> set (file_map e) \<longrightarrow> (\<exists>a f. p = Some a \<and> heap e a = Some f)) \<and>
     (\<forall>i x. kind_at i (files e) = Some x \<longrightarrow> (\<exists>f. heap e (obj_addr x) = Some f)) \<and>
     (\<forall>a f. heap e a = Some f \<longrightarrow> file_ok f \<and> refs f = int (pointers e a) \<and> 0 < pointers e a) \<and>
     ((\<forall>i. kind_at i (files e) = None) \<longrightarrow> (\<exists>e'. delete_env e = Some e' \<and> heap e' = Map.empty)) \<and>
     (\<forall>k r e'. map_of (file_map e) k = None \<and> run_op (OpenAppend k) e = Some (r, e') \<longrightarrow> delete_env e' = None)"
proof -
  from run_ops_models [OF models_new assms] obtain e s where
    e: "run_ops ps new_env = Some (fst (spec_ops ps empty_fs), e)" "models e s" by blast
  have ok: "env_ok e" "sorted_wrt (<) (map fst (file_map e))" "heap_ok (heap e) (next_addr e) (pointers e)"
    "None \<notin> snd ` set (file_map e)" "files e = opened s" "map_of (file_map e) = (\<lambda>k. map_option Some (names s k))"
    using e(2) unfolding models_def env_ok_def by blast+
  have "\<exists>a f. p = Some a \<and> heap e a = Some f" if kp: "(k, p) \<in> set (file_map e)" for k p
  proof -
    have "map_of (file_map e) k = Some p" using kp ok(2) by (simp add: strict_sorted_iff)
    moreover obtain a where "p = Some a" using kp ok(4) by (cases p) (auto simp: image_iff)
    ultimately show ?thesis using models_name [OF e(2), of k a] ok(6) by fastforce
  qed
  moreover have "\<exists>f. heap e (obj_addr x) = Some f" if "kind_at i (files e) = Some x" for i x
    using models_file [OF e(2)] that ok(5) by auto
  moreover have "file_ok f \<and> refs f = int (pointers e a) \<and> 0 < pointers e a" if "heap e a = Some f" for a f
    using heap_okD(1) [OF ok(3) that] by blast
  moreover have "delete_env e' = None" if "map_of (file_map e) k = None" "run_op (OpenAppend k) e = Some (r, e')" for k r e'
    using appendable_file_null [OF ok(2) that] .
  ultimately show ?thesis using e(1) delete_env_ok [OF ok(1)] by blast
qed

theorem memenv_well_typed_witness:
  "\<exists>results e. run_ops [Create [97], Append 0 [1, 2, 3], Remove [97]] new_env = Some (results, e) \<and>
     (\<forall>a f. heap e a = Some f \<longrightarrow> file_ok f \<and> refs f = int (pointers e a) \<and> 0 < pointers e a)"
proof -
  have "all_allowed [Create [97], Append 0 [1, 2, 3], Remove [97]] empty_fs"
    by (simp add: empty_fs_def spec_create_def open_obj_def kind_at_def)
  from memenv_well_typed [OF this] show ?thesis by blast
qed

end
