(* ===== verification/MemLog.thy ===== *)
theory MemLog
  imports LogFile MemEnv
begin

text \<open>
  The write-ahead log on the files of the in-memory environment: the writer of \<^verbatim>\<open>db/log_writer.cc\<close> needs
  from a file only that it grows by what is appended, which the files of \<^verbatim>\<open>helpers/memenv\<close> do, and
  the reader of \<^verbatim>\<open>db/log_reader.cc\<close> reads such a file block by block.
\<close>

section \<open>What the writer needs from a file\<close>

definition view :: "('f \<Rightarrow> byte list) \<Rightarrow> 'f log_writer \<Rightarrow> byte list log_writer" where
  "view bytes w = \<lparr> dest = bytes (dest w), block_offset = block_offset w \<rparr>"

lemma view_sel [simp]: "dest (view bytes w) = bytes (dest w)" "block_offset (view bytes w) = block_offset w"
  by (simp_all add: view_def)

definition write_log ::
  "(u32 \<Rightarrow> byte list \<Rightarrow> u32) \<Rightarrow> ('f \<Rightarrow> byte list \<Rightarrow> bool \<times> 'f) \<Rightarrow> ('f \<Rightarrow> bool \<times> 'f) \<Rightarrow> byte list list \<Rightarrow> 'f log_writer \<Rightarrow> 'f log_writer" where
  "write_log crcx fappend fflush rs w = fold (\<lambda>rec w. snd (AddRecord crcx fappend fflush rec w)) rs w"

locale growing_file =
  fixes fappend :: "'f \<Rightarrow> byte list \<Rightarrow> bool \<times> 'f"
    and fflush :: "'f \<Rightarrow> bool \<times> 'f"
    and valid :: "'f \<Rightarrow> bool"
    and bytes :: "'f \<Rightarrow> byte list"
  assumes append_law: "valid f \<Longrightarrow> \<exists>f'. fappend f xs = (True, f') \<and> valid f' \<and> bytes f' = bytes f @ xs"
    and flush_law: "valid f \<Longrightarrow> \<exists>f'. fflush f = (True, f') \<and> valid f' \<and> bytes f' = bytes f"
begin

lemma switch_view:
  assumes "valid (dest w)"
  shows "valid (dest (switch_block fappend w)) \<and> view bytes (switch_block fappend w) = switch_block mem_append (view bytes w)"
  using assms append_law [OF assms, of "replicate (kBlockSize - block_offset w) 0"]
  by (auto simp: switch_block_def view_def mem_append_def Let_def)

lemma emit_view:
  assumes "valid (dest w)"
  shows "\<exists>w'. EmitPhysicalRecord crcx fappend fflush t ptr w = (True, w') \<and> valid (dest w') \<and>
     EmitPhysicalRecord crcx mem_append mem_flush t ptr (view bytes w) = (True, view bytes w')"
proof -
  obtain f1 where f1: "fappend (dest w) (record_header crcx t ptr) = (True, f1)" "valid f1" "bytes f1 = bytes (dest w) @ record_header crcx t ptr"
    using append_law [OF assms] by blast
  obtain f2 where f2: "fappend f1 ptr = (True, f2)" "valid f2" "bytes f2 = bytes f1 @ ptr"
    using append_law [OF f1(2)] by blast
  obtain f3 where f3: "fflush f2 = (True, f3)" "valid f3" "bytes f3 = bytes f2"
    using flush_law [OF f2(2)] by blast
  show ?thesis
    using f1 f2 f3 by (simp add: EmitPhysicalRecord_def view_def mem_append_def mem_flush_def)
qed

lemma add_view:
  "valid (dest w) \<Longrightarrow> \<exists>w'. add_fragments crcx fappend fflush first ptr w = (True, w') \<and> valid (dest w') \<and>
     add_fragments crcx mem_append mem_flush first ptr (view bytes w) = (True, view bytes w')"
proof (induction "rounds_left (length ptr) (block_offset w)" arbitrary: first ptr w rule: less_induct)
  case less
  define w1 where "w1 = switch_block fappend w"
  define n where "n = (if length ptr < kBlockSize - block_offset w1 - kHeaderSize then length ptr else kBlockSize - block_offset w1 - kHeaderSize)"
  let ?t = "fragment_type first (length ptr = n)"
  have s: "valid (dest w1)" "switch_block mem_append (view bytes w) = view bytes w1"
    using switch_view [OF less.prems] by (simp_all add: w1_def)
  from emit_view [OF s(1), of crcx ?t "take n ptr"] obtain w2 where
    e: "EmitPhysicalRecord crcx fappend fflush ?t (take n ptr) w1 = (True, w2)" "valid (dest w2)"
      "EmitPhysicalRecord crcx mem_append mem_flush ?t (take n ptr) (view bytes w1) = (True, view bytes w2)" by blast
  have a: "add_fragments crcx fappend fflush first ptr w =
      (if n < length ptr then add_fragments crcx fappend fflush False (drop n ptr) w2 else (True, w2))"
    by (subst add_fragments.simps) (simp only: Let_def w1_def [symmetric] n_def [symmetric] e(1) prod.case simp_thms)
  have b: "add_fragments crcx mem_append mem_flush first ptr (view bytes w) =
      (if n < length ptr then add_fragments crcx mem_append mem_flush False (drop n ptr) (view bytes w2) else (True, view bytes w2))"
    by (subst add_fragments.simps) (simp only: Let_def s(2) view_sel n_def [symmetric] e(3) prod.case simp_thms)
  show ?case
  proof (cases "n < length ptr")
    case False
    with a b e(2) show ?thesis by simp
  next
    case True
    have o: "block_offset w1 = (if kBlockSize - block_offset w < kHeaderSize then 0 else block_offset w)"
      unfolding w1_def by (rule switch_block_offset)
    have n: "n = min (length ptr) (kBlockSize - block_offset w1 - kHeaderSize)" by (auto simp: n_def min_def)
    have "block_offset w2 = block_offset w1 + (kHeaderSize + n)"
      using EmitPhysicalRecord_offset [OF e(1)] True by simp
    with rounds_decrease [OF o n True] have "rounds_left (length (drop n ptr)) (block_offset w2) < rounds_left (length ptr) (block_offset w)" by simp
    from less.hyps [OF this e(2), of False] a b True show ?thesis by simp
  qed
qed

lemma write_view:
  "valid (dest w) \<Longrightarrow> valid (dest (write_log crcx fappend fflush rs w)) \<and>
     bytes (dest (write_log crcx fappend fflush rs w)) = dest (write_records crcx rs (view bytes w))"
proof (induction rs arbitrary: w)
  case Nil
  then show ?case by (simp add: write_log_def write_records_def)
next
  case (Cons rec rs)
  from add_view [OF Cons.prems, of crcx True rec] obtain w' where
    "AddRecord crcx fappend fflush rec w = (True, w')" "valid (dest w')"
    "AddRecord crcx mem_append mem_flush rec (view bytes w) = (True, view bytes w')" unfolding AddRecord_def by blast
  with Cons.IH [of w'] show ?case by (simp add: write_log_def write_records_def)
qed

end

section \<open>Files of the in-memory environment\<close>

text \<open>The file handle \<open>h\<close> of an environment, as the file the writer sees.\<close>

definition env_append :: "nat \<Rightarrow> mem_env \<Rightarrow> byte list \<Rightarrow> bool \<times> mem_env" where
  "env_append h e xs = (case WritableFile_Append h xs e of Some (st, e') \<Rightarrow> (ok st, e') | None \<Rightarrow> (False, e))"

definition env_flush :: "mem_env \<Rightarrow> bool \<times> mem_env" where
  "env_flush e = (ok OK, e)"

definition env_bytes :: "nat \<Rightarrow> mem_env \<Rightarrow> byte list" where
  "env_bytes h e = (case file_at h e of Some x \<Rightarrow> content (the (heap e (obj_addr x))) | None \<Rightarrow> [])"

definition env_valid :: "byte list \<Rightarrow> nat \<Rightarrow> mem_env \<Rightarrow> bool" where
  "env_valid fname h e \<longleftrightarrow> (\<exists>s a. models e s \<and> kind_at h (opened s) = Some (WritableFile a) \<and> names s fname = Some a)"

lemma env_bytes_contents:
  "models e s \<Longrightarrow> kind_at h (opened s) = Some x \<Longrightarrow> env_bytes h e = contents s (obj_addr x)"
  using models_file [of e s h x] by (auto simp: env_bytes_def)

lemma env_append_law:
  assumes "env_valid fname h e"
  shows "\<exists>e'. env_append h e xs = (True, e') \<and> env_valid fname h e' \<and> env_bytes h e' = env_bytes h e @ xs"
proof -
  from assms obtain s a where s: "models e s" "kind_at h (opened s) = Some (WritableFile a)" "names s fname = Some a"
    by (auto simp: env_valid_def)
  let ?s = "s\<lparr> contents := (contents s)(a := contents s a @ xs) \<rparr>"
  have "spec_op (Append h xs) s = (Done OK, ?s)" "allowed (Append h xs) s" using s(2) by (simp_all add: kind_nth)
  with run_append [OF s(1), of h xs] obtain e' where
    e': "WritableFile_Append h xs e = Some (OK, e')" "models e' ?s" by (auto simp: bind_eq_Some_conv)
  have "env_valid fname h e'" using e'(2) s(2,3) by (auto simp: env_valid_def intro!: exI [of _ ?s])
  moreover have "env_bytes h e' = env_bytes h e @ xs"
    using env_bytes_contents [OF e'(2), of h] env_bytes_contents [OF s(1,2)] s(2) by simp
  ultimately show ?thesis using e'(1) by (simp add: env_append_def)
qed

interpretation env_file: growing_file "env_append h" env_flush "env_valid fname h" "env_bytes h" for fname h
  by unfold_locales (rule env_append_law, simp_all add: env_flush_def)

section \<open>Reading a file block by block\<close>

fun block_reads :: "nat \<Rightarrow> nat \<Rightarrow> mem_env \<Rightarrow> (bool \<times> byte list) list" where
  "block_reads 0 h e = []"
| "block_reads (Suc n) h e = (case SequentialFile_Read h LogFile.kBlockSize e of
     Some (st, Some data, e') \<Rightarrow> if data = [] then [] else (ok st, data) # block_reads n h e'
   | _ \<Rightarrow> [])"

lemma block_reads_file:
  assumes "models e s" and "kind_at h (opened s) = Some (SequentialFile a pos)" and "pos \<le> length (contents s a)"
    and "length (contents s a) - pos < n"
  shows "block_reads n h e = file_reads (drop pos (contents s a))"
  using assms
proof (induction n arbitrary: e s pos)
  case (Suc n)
  let ?xs = "drop pos (contents s a)"
  let ?m = "length (take kBlockSize ?xs)"
  let ?s = "s\<lparr> opened := (opened s)[h := Some (SequentialFile a (pos + ?m))] \<rparr>"
  have "allowed (ReadNext h kBlockSize) s" using Suc.prems(2) by simp
  moreover have "spec_op (ReadNext h kBlockSize) s = (Bytes OK (Some (take kBlockSize ?xs)), ?s)"
    using Suc.prems(2,3) by (simp add: kind_nth spec_read_def)
  ultimately obtain e' where e': "SequentialFile_Read h kBlockSize e = Some (OK, Some (take kBlockSize ?xs), e')" "models e' ?s"
    using run_read_next [OF Suc.prems(1), of h kBlockSize] by (auto simp: bind_eq_Some_conv)
  have B: "0 < kBlockSize" by (simp add: kBlockSize_def)
  show ?case
  proof (cases "?xs = []")
    case True
    with e'(1) show ?thesis by (simp add: file_reads.simps)
  next
    case False
    then have m: "0 < ?m" using B by simp
    have k: "kind_at h (opened ?s) = Some (SequentialFile a (pos + ?m))" using Suc.prems(2) by (simp add: kind_at_def split: if_splits)
    have "block_reads n h e' = file_reads (drop (pos + ?m) (contents ?s a))"
      by (rule Suc.IH [OF e'(2) k]) (use Suc.prems(3,4) m in \<open>auto simp: min_def\<close>)
    moreover have "drop (pos + ?m) (contents s a) = drop kBlockSize ?xs" by (simp add: min_def add.commute)
    ultimately show ?thesis using e'(1) False B by (subst file_reads.simps) simp
  qed
qed simp

text \<open>What the environment holds after a log was written to a new file.\<close>

lemma log_file_created:
  assumes "models e s" and "names s fname = None"
  shows "\<exists>h e'. NewWritableFile fname e = Some (OK, Some h, e') \<and> env_valid fname h e' \<and> env_bytes h e' = []"
proof -
  from models_create [OF assms] obtain e' where
    e': "NewWritableFile fname e = Some (OK, Some (length (opened s)), e')" "models e' (snd (spec_create fname s))" by blast
  have k: "kind_at (length (opened s)) (opened (snd (spec_create fname s))) = Some (WritableFile (next_id s))"
    by (simp add: spec_create_def open_obj_def kind_at_def)
  have "names (snd (spec_create fname s)) fname = Some (next_id s)" "contents (snd (spec_create fname s)) (next_id s) = []"
    by (simp_all add: spec_create_def open_obj_def)
  with e' k env_bytes_contents [OF e'(2) k] show ?thesis unfolding env_valid_def by fastforce
qed

lemma log_file_reopened:
  assumes "env_valid fname h e"
  shows "\<exists>h2 e2 s a. NewSequentialFile fname e = Some (OK, Some h2, e2) \<and> models e2 s \<and>
     kind_at h2 (opened s) = Some (SequentialFile a 0) \<and> contents s a = env_bytes h e"
proof -
  from assms obtain s a where s: "models e s" "kind_at h (opened s) = Some (WritableFile a)" "names s fname = Some a"
    by (auto simp: env_valid_def)
  let ?s = "s\<lparr> opened := opened s @ [Some (SequentialFile a 0)] \<rparr>"
  have "spec_open (\<lambda>a. SequentialFile a 0) fname s = (Opened OK (Some (length (opened s))), ?s)"
    by (simp add: spec_open_def open_obj_def s(3))
  with run_open [OF s(1), of "\<lambda>a. SequentialFile a 0" fname] obtain e2 where
    "NewSequentialFile fname e = Some (OK, Some (length (opened s)), e2)" "models e2 ?s"
    by (auto simp: NewSequentialFile_def bind_eq_Some_conv)
  moreover have "kind_at (length (opened s)) (opened ?s) = Some (SequentialFile a 0)" by (simp add: kind_at_def)
  moreover have "contents ?s a = env_bytes h e" using env_bytes_contents [OF s(1,2)] by simp
  ultimately show ?thesis by blast
qed

section \<open>Properties\<close>

text \<open>
  C28. A log written to a new file of the in-memory environment and read back through a new
  sequential file: creating the file, appending any records with \<^verbatim>\<open>AddRecord\<close>, opening the file and
  reading its blocks all succeed, and the reader returns exactly the records that were written, in
  order and unchanged, then the end, without a report. A fuel of one more than the size of the
  file is enough for reading all its blocks.
\<close>

theorem log_on_memenv:
  assumes "all_allowed ps empty_fs" and "run_ops ps new_env = Some (results, e0)" and "\<not> FileExists fname e0"
  shows "\<exists>h e h2 e2 r. NewWritableFile fname e0 = Some (OK, Some h, e) \<and>
     NewSequentialFile fname (dest (write_log crc_Extend (env_append h) env_flush rs (new_writer e 0))) = Some (OK, Some h2, e2) \<and>
     (\<forall>n > length (env_bytes h (dest (write_log crc_Extend (env_append h) env_flush rs (new_writer e 0)))).
        read_records (Suc (length rs)) crc_Extend (new_log_reader (block_reads n h2 e2) skip reporter verify_crc 0) = (map Some rs @ [None], r)) \<and>
     reports r = []"
proof -
  from run_ops_models [OF models_new assms(1)] assms(2) obtain s0 where s0: "models e0 s0" by auto
  then have "names s0 fname = None" using assms(3) by (simp add: FileExists_def models_def)
  from log_file_created [OF s0 this] obtain h e where
    e: "NewWritableFile fname e0 = Some (OK, Some h, e)" "env_valid fname h e" "env_bytes h e = []" by blast
  let ?w = "write_log crc_Extend (env_append h) env_flush rs (new_writer e 0)"
  have "view (env_bytes h) (new_writer e 0) = new_writer [] 0" using e(3) by (simp add: view_def new_writer_def)
  with env_file.write_view [of fname h "new_writer e 0" crc_Extend rs] e(2)
  have w: "env_valid fname h (dest ?w)" "env_bytes h (dest ?w) = dest (write_records crc_Extend rs (new_writer [] 0))"
    by (simp_all add: new_writer_def)
  from crc32c.write_read_all [of "\<lparr> dest = [], block_offset = kBlockSize \<rparr>" rs] reader_start obtain r where
    r: "read_records (Suc (length rs)) crc_Extend (new_log_reader (file_reads (env_bytes h (dest ?w))) skip reporter verify_crc 0) =
        (map Some rs @ [None], r)" "reports r = []" unfolding w(2) write_records_start by fastforce
  from log_file_reopened [OF w(1)] obtain h2 e2 s a where
    e2: "NewSequentialFile fname (dest ?w) = Some (OK, Some h2, e2)" "models e2 s"
      "kind_at h2 (opened s) = Some (SequentialFile a 0)" "contents s a = env_bytes h (dest ?w)" by blast
  have "block_reads n h2 e2 = file_reads (env_bytes h (dest ?w))" if "length (env_bytes h (dest ?w)) < n" for n
    using block_reads_file [OF e2(2,3), of n] that by (simp add: e2(4))
  with e(1) e2(1) r show ?thesis by metis
qed

theorem log_on_memenv_witness:
  "\<exists>h e h2 e2 r. NewWritableFile [108] new_env = Some (OK, Some h, e) \<and>
     NewSequentialFile [108] (dest (write_log crc_Extend (env_append h) env_flush [[1], [2, 3]] (new_writer e 0))) = Some (OK, Some h2, e2) \<and>
     (\<forall>n > length (env_bytes h (dest (write_log crc_Extend (env_append h) env_flush [[1], [2, 3]] (new_writer e 0)))).
        read_records 3 crc_Extend (new_log_reader (block_reads n h2 e2) (\<lambda>_. (False, [])) True True 0) = ([Some [1], Some [2, 3], None], r)) \<and>
     reports r = []"
  using log_on_memenv [of "[]" "[]" new_env "[108]" "[[1], [2, 3]]" "\<lambda>_. (False, [])" True True]
  by (simp add: FileExists_def new_env_def numeral_3_eq_3)

end
