(* ===== verification/TableFile.thy ===== *)
theory TableFile
  imports TableRead MemLog
begin

text \<open>
  Tables of the store in files of the in-memory environment: the options the store builds its tables
  with (internal keys, the bloom filter), and what a lookup in a table that was built on a new file
  returns.
\<close>

section \<open>The options of the store\<close>

definition db_options :: "nat \<Rightarrow> int \<Rightarrow> CompressionType \<Rightarrow> int \<Rightarrow> nat option \<Rightarrow> bool \<Rightarrow> table_options" where
  "db_options block_size interval compression level bits paranoid =
     \<lparr> o_compare = InternalKeyCompare BytewiseCompare, o_separator = InternalKeySeparator BytewiseCompare FindShortestSeparator,
       o_successor = InternalKeySuccessor BytewiseCompare FindShortSuccessor, o_block_size = block_size, o_restart_interval = interval,
       o_compression = compression, o_zstd_level = level,
       o_filter = map_option (\<lambda>b. (bytes_of ''leveldb.BuiltinBloomFilter2'', InternalCreateFilter (CreateFilter b), InternalKeyMayMatch KeyMayMatch)) bits,
       o_paranoid_checks = paranoid \<rparr>"

lemma db_options_sel [simp]:
  "o_compare (db_options bsz n c lv bits p) = InternalKeyCompare BytewiseCompare"
  "o_separator (db_options bsz n c lv bits p) = InternalKeySeparator BytewiseCompare FindShortestSeparator"
  "o_successor (db_options bsz n c lv bits p) = InternalKeySuccessor BytewiseCompare FindShortSuccessor"
  "o_restart_interval (db_options bsz n c lv bits p) = n"
  by (simp_all add: db_options_def)

lemma InternalKey_index_length:
  "length (InternalKeySeparator ucmp usep a b) \<le> length a" "length (InternalKeySuccessor ucmp usucc a) \<le> length a"
  by (auto simp: InternalKeySeparator_def InternalKeySuccessor_def Let_def ExtractUserKey_def PutFixed64_def)

text \<open>A lookup key that falls into the gap a shortened index key leaves has another user key than the next block.\<close>

lemma separator_gap:
  assumes "8 \<le> length a" "8 \<le> length b" "8 \<le> length k" "InternalKeyCompare BytewiseCompare a b < 0" "InternalKeyCompare BytewiseCompare a k < 0"
    "InternalKeyCompare BytewiseCompare k (InternalKeySeparator BytewiseCompare FindShortestSeparator a b) \<le> 0"
  shows "ExtractUserKey k \<noteq> ExtractUserKey b"
proof -
  let ?tmp = "FindShortestSeparator (ExtractUserKey a) (ExtractUserKey b)" and ?sep = "InternalKeySeparator BytewiseCompare FindShortestSeparator a b"
  show ?thesis
  proof (cases "?sep = a")
    case True
    then show ?thesis using assms(5,6) dbkeys.internal.compare_flip [OF assms(1,3)] by simp
  next
    case False
    then have t: "BytewiseCompare (ExtractUserKey a) ?tmp < 0" "?sep = PutFixed64 ?tmp (PackSequenceAndType kMaxSequenceNumber kValueTypeForSeek)"
      by (auto simp: InternalKeySeparator_def Let_def split: if_splits)
    have "ExtractUserKey a \<noteq> ExtractUserKey b" using t(1) bytewise.separator_refl bytewise.compare_refl by auto
    then have "BytewiseCompare (ExtractUserKey a) (ExtractUserKey b) < 0" using assms(4) unfolding dbkeys.internal_less by blast
    then have tb: "BytewiseCompare ?tmp (ExtractUserKey b) < 0" using bytewise.separator_between by blast
    have "ExtractUserKey ?sep = ?tmp" unfolding t(2) by (simp add: ExtractUserKey_def PutFixed64_def)
    then have "InternalKeyCompare BytewiseCompare ?sep b < 0" "ExtractUserKey ?sep \<noteq> ExtractUserKey b"
      using tb dbkeys.internal_less [of ?sep b] bytewise.compare_refl by auto
    moreover have "8 \<le> length ?sep" unfolding t(2) by (simp add: PutFixed64_def)
    ultimately show ?thesis using assms(6) dbkeys.internal_eq [OF assms(3)] dbkeys.internal_less [of k ?sep] tb \<open>ExtractUserKey ?sep = ?tmp\<close>
      by (metis bytewise.compare_flip bytewise.compare_refl less_asym order_le_less)
  qed
qed

definition db_filter_cost :: "nat option \<Rightarrow> nat" where
  "db_filter_cost bits = (case bits of None \<Rightarrow> 0 | Some b \<Rightarrow> b + 9)"

lemma CreateFilter_length:
  assumes "keys \<noteq> []"
  shows "length (CreateFilter b keys []) \<le> (b + 9) * length keys"
proof -
  define n where "n = ((if length keys * b < 64 then 64 else length keys * b) + 7) div 8"
  have q: "0 < ((if x < 64 then 64 else x) + 7) div 8" "((if x < 64 then 64 else x) + 7) div 8 \<le> 8 + x" for x :: nat
    using div_le_dividend [of "x + 7" 8] by (auto simp: div_greater_zero_iff simp del: div_le_dividend)
  then have "0 < n" unfolding n_def by blast
  then have "length (fold (\<lambda>key. set_probes (n * 8) k (BloomHash key) (bloom_delta (BloomHash key))) keys (replicate n 0)) = n" for k
    using fold_set_probes [of "n * 8" "replicate n 0"] by simp
  then have "length (CreateFilter b keys []) = n + 1" by (simp add: CreateFilter_def Let_def flip: n_def)
  moreover have "1 \<le> length keys" using assms by (cases keys) simp_all
  moreover have "n \<le> 8 + length keys * b" unfolding n_def by (rule q)
  ultimately show ?thesis by (simp add: algebra_simps)
qed

lemma db_table_parts:
  assumes "compressor P"
  shows "table_parts (db_options bsz n c lv bits p) (\<lambda>k. 8 \<le> length k) P crc_Extend (\<lambda>a b. ExtractUserKey a = ExtractUserKey b)
     (db_filter_cost bits)"
proof (intro table_parts.intro table_parts_axioms.intro)
  show "comparator (o_compare (db_options bsz n c lv bits p)) (o_separator (db_options bsz n c lv bits p)) (o_successor (db_options bsz n c lv bits p)) (\<lambda>k. 8 \<le> length k)"
    unfolding db_options_sel by (rule dbkeys.internal.comparator_axioms)
  show "Crc.checksum crc_Extend" by (rule crc32c.checksum_axioms)
  show "filter_policy create may \<and> (\<forall>a b f. ExtractUserKey a = ExtractUserKey b \<longrightarrow> may a f = may b f) \<and> length name < 2 ^ 16 \<and>
      (\<forall>keys. keys \<noteq> [] \<longrightarrow> length (create keys []) \<le> db_filter_cost bits * length keys)"
    if "o_filter (db_options bsz n c lv bits p) = Some (name, create, may)" for name create may
    using that bloom.internal.filter_policy_axioms CreateFilter_length [of "map ExtractUserKey _"]
    by (auto simp: db_options_def InternalKeyMayMatch_def InternalCreateFilter_def bytes_of_def db_filter_cost_def)
qed (use assms separator_gap InternalKey_index_length in auto)

interpretation db_tables: table_parts "db_options bsz n c lv bits p" "\<lambda>k. 8 \<le> length k" port_without_libraries crc_Extend
    "\<lambda>a b. ExtractUserKey a = ExtractUserKey b" "db_filter_cost bits" for bsz n c lv bits p
  by (rule db_table_parts [OF no_libraries.compressor_axioms])

section \<open>Files of the in-memory environment\<close>

definition env_write :: "nat \<Rightarrow> mem_env \<Rightarrow> byte list \<Rightarrow> status \<times> mem_env" where
  "env_write h e xs = (case WritableFile_Append h xs e of Some r \<Rightarrow> r | None \<Rightarrow> (IOError [] [], e))"

definition env_sync :: "mem_env \<Rightarrow> status \<times> mem_env" where
  "env_sync e = (OK, e)"

definition env_read :: "nat \<Rightarrow> mem_env \<Rightarrow> u64 \<Rightarrow> nat \<Rightarrow> status \<times> slice" where
  "env_read h e w n = (case RandomAccessFile_Read h (unat w) n e of
     Some (st, Some data) \<Rightarrow> (st, data) | Some (st, None) \<Rightarrow> (st, []) | None \<Rightarrow> (IOError [] [], []))"

definition env_readable :: "nat \<Rightarrow> mem_env \<Rightarrow> bool" where
  "env_readable h e \<longleftrightarrow> (\<exists>s a. models e s \<and> kind_at h (opened s) = Some (RandomAccessFile a))"

lemma env_write_law:
  assumes "env_valid fname h e"
  shows "\<exists>e'. env_write h e xs = (OK, e') \<and> env_valid fname h e' \<and> env_bytes h e' = env_bytes h e @ xs"
proof -
  from env_append_law [OF assms] obtain e' where
    e': "env_append h e xs = (True, e')" "env_valid fname h e'" "env_bytes h e' = env_bytes h e @ xs" by blast
  from e'(1) have "env_write h e xs = (OK, e')"
    by (auto simp: env_append_def env_write_def ok_def OK_def split: option.splits)
  with e'(2,3) show ?thesis by blast
qed

interpretation env_table: status_file "env_write h" env_sync "env_valid fname h" "env_bytes h" for fname h
  by unfold_locales (rule env_write_law, simp_all add: env_sync_def)

lemma env_read_law:
  assumes "env_readable h e" and "unat w + n \<le> length (env_bytes h e)"
  shows "env_read h e w n = (OK, take n (drop (unat w) (env_bytes h e)))"
proof -
  from assms(1) obtain s a where s: "models e s" "kind_at h (opened s) = Some (RandomAccessFile a)" by (auto simp: env_readable_def)
  note b = env_bytes_contents [OF s]
  have "RandomAccessFile_Read h (unat w) n e = Some (OK, Some (take n (drop (unat w) (env_bytes h e))))"
    using run_read_at [OF s(1), of h "unat w" n] s(2) b assms(2) by (simp add: kind_nth spec_read_def bind_eq_Some_conv)
  then show ?thesis by (simp add: env_read_def)
qed

interpretation env_file_read: readable_file "env_read h" "env_readable h" "env_bytes h" for h
  by unfold_locales (rule env_read_law)

lemma db_table_world:
  assumes "compressor P"
  shows "table_world (db_options bsz n c lv bits p) (\<lambda>k. 8 \<le> length k) P crc_Extend (\<lambda>a b. ExtractUserKey a = ExtractUserKey b)
     (db_filter_cost bits) (env_read h) (env_readable h) (env_bytes h)"
  by (intro table_world.intro db_table_parts assms env_file_read.readable_file_axioms)

interpretation env_tables: table_world "db_options bsz n c lv bits p" "\<lambda>k. 8 \<le> length k" port_without_libraries crc_Extend
    "\<lambda>a b. ExtractUserKey a = ExtractUserKey b" "db_filter_cost bits" "env_read h" "env_readable h" "env_bytes h" for bsz n c lv bits p h
  by (rule db_table_world [OF no_libraries.compressor_axioms])

text \<open>Opening a written file for random access.\<close>

lemma table_file_reopened:
  assumes "env_valid fname h e"
  shows "\<exists>h2 e2. NewRandomAccessFile fname e = Some (OK, Some h2, e2) \<and> env_readable h2 e2 \<and> env_bytes h2 e2 = env_bytes h e"
proof -
  from assms obtain s a where s: "models e s" "kind_at h (opened s) = Some (WritableFile a)" "names s fname = Some a"
    by (auto simp: env_valid_def)
  let ?s = "s\<lparr> opened := opened s @ [Some (RandomAccessFile a)] \<rparr>"
  have "spec_open RandomAccessFile fname s = (Opened OK (Some (length (opened s))), ?s)"
    by (simp add: spec_open_def open_obj_def s(3))
  with run_open [OF s(1), of RandomAccessFile fname] obtain e2 where
    e2: "NewRandomAccessFile fname e = Some (OK, Some (length (opened s)), e2)" "models e2 ?s"
    by (auto simp: NewRandomAccessFile_def bind_eq_Some_conv)
  moreover have k: "kind_at (length (opened s)) (opened ?s) = Some (RandomAccessFile a)" by (simp add: kind_at_def)
  moreover have "env_bytes (length (opened s)) e2 = env_bytes h e"
    using env_bytes_contents [OF s(1,2)] env_bytes_contents [OF e2(2) k] by simp
  ultimately show ?thesis unfolding env_readable_def by blast
qed

text \<open>Adding entries to a new table.\<close>

definition write_table :: "table_options \<Rightarrow> port \<Rightarrow> nat \<Rightarrow> (slice \<times> slice) list \<Rightarrow> mem_env \<Rightarrow> status \<times> mem_env table_builder" where
  "write_table opts P h es e =
     tb_Finish opts P crc_Extend (env_write h) env_sync
       (fold (\<lambda>(k, v). tb_Add opts P crc_Extend (env_write h) env_sync k v) es (new_TableBuilder opts e))"

lemma write_table_file:
  assumes "env_valid fname h e" and "env_bytes h e = []"
  shows "\<exists>r. write_table opts P h es e = (OK, r) \<and> env_valid fname h (tb_file r) \<and> tb_FileSize r = of_nat (length (env_bytes h (tb_file r))) \<and>
     table_file opts P crc_Extend (env_bytes h (tb_file r)) es"
proof -
  have v: "env_valid fname h (tb_file (new_TableBuilder opts e))" using assms(1) by (simp add: new_TableBuilder_def)
  from env_table.tb_adds_state [OF new_builder_state [where bytes = "env_bytes h", OF assms(2)] v, where es = es and P = P and crcx = crc_Extend] obtain ds cur seps where
    s: "builder_state opts P crc_Extend (env_bytes h) ds cur seps (fold (\<lambda>(k, v). tb_Add opts P crc_Extend (env_write h) env_sync k v) es (new_TableBuilder opts e))"
      "env_valid fname h (tb_file (fold (\<lambda>(k, v). tb_Add opts P crc_Extend (env_write h) env_sync k v) es (new_TableBuilder opts e)))"
      "concat (map d_entries ds) @ cur = es" by auto
  from env_table.Finish_file [OF s(1,2)] show ?thesis unfolding write_table_def s(3) .
qed

section \<open>Properties\<close>

text \<open>
  C32. Tables. Entries with increasing internal keys are added to a table on a new file of the
  in-memory environment, with any block size, any restart interval from one on, any compression and
  any or no bloom filter. As long as they take less than about a gigabyte, building succeeds, the
  file can be opened again as a table of the size the builder reports, and a lookup of any internal
  key succeeds: it hands over the first entry that is not before the key, except that it may hand
  over nothing when that entry has another user key. So the newest version of a user key that a
  snapshot sees is always found, through index, filter, compression and checksums. The compression
  libraries are arbitrary, provided that decompressing what they compressed gives it back.
\<close>

theorem table_get:
  assumes "all_allowed ps empty_fs" and "run_ops ps new_env = Some (results, e0)" and "\<not> FileExists fname e0"
    and "compressor P" and "1 \<le> interval" and "opts = db_options block_size interval compression level bits paranoid"
    and "sorted_entries (InternalKeyCompare BytewiseCompare) (\<lambda>k. 8 \<le> length k) es"
    and "3 * entries_size 39 es + db_filter_cost bits * length es + 2 ^ 17 < 2 ^ 32"
  shows "\<exists>h e r h2 e2 t. NewWritableFile fname e0 = Some (OK, Some h, e) \<and> write_table opts P h es e = (OK, r) \<and>
     NewRandomAccessFile fname (tb_file r) = Some (OK, Some h2, e2) \<and>
     Table_Open opts P crc_Extend (env_read h2 e2) (tb_FileSize r) = Some (Inr t) \<and>
     (\<forall>k verify. 8 \<le> length k \<longrightarrow> (\<exists>found. InternalGet opts P crc_Extend (env_read h2 e2) verify k t = Some (OK, found) \<and>
        (case first_from (InternalKeyCompare BytewiseCompare) k es of
           None \<Rightarrow> found = None
         | Some e \<Rightarrow> found = Some e \<or> found = None \<and> ExtractUserKey (fst e) \<noteq> ExtractUserKey k)))"
proof -
  from run_ops_models [OF models_new assms(1)] assms(2) obtain s0 where s0: "models e0 s0" by auto
  then have "names s0 fname = None" using assms(3) by (simp add: FileExists_def models_def)
  from log_file_created [OF s0 this] obtain h e where
    e: "NewWritableFile fname e0 = Some (OK, Some h, e)" "env_valid fname h e" "env_bytes h e = []" by blast
  from write_table_file [OF e(2,3), of opts P es] obtain r where
    r: "write_table opts P h es e = (OK, r)" "env_valid fname h (tb_file r)" "tb_FileSize r = of_nat (length (env_bytes h (tb_file r)))"
      "table_file opts P crc_Extend (env_bytes h (tb_file r)) es" by blast
  from table_file_reopened [OF r(2)] obtain h2 e2 where
    e2: "NewRandomAccessFile fname (tb_file r) = Some (OK, Some h2, e2)" "env_readable h2 e2" "env_bytes h2 e2 = env_bytes h (tb_file r)" by blast
  note W = db_table_world [OF assms(4), of block_size interval compression level bits paranoid h2, folded assms(6)]
  have o: "o_compare opts = InternalKeyCompare BytewiseCompare" "o_restart_interval opts = interval" by (simp_all add: assms(6))
  have sz: "tb_FileSize r = of_nat (length (env_bytes h2 e2))" using r(3) e2(3) by simp
  obtain t where t: "Table_Open opts P crc_Extend (env_read h2 e2) (tb_FileSize r) = Some (Inr t)"
    and g: "\<forall>k verify. 8 \<le> length k \<longrightarrow> (\<exists>found. InternalGet opts P crc_Extend (env_read h2 e2) verify k t = Some (OK, found) \<and>
        (found = first_from (InternalKeyCompare BytewiseCompare) k es \<or>
         found = None \<and> (\<forall>e. first_from (InternalKeyCompare BytewiseCompare) k es = Some e \<longrightarrow> ExtractUserKey k \<noteq> ExtractUserKey (fst e))))"
    using table_world.table_lookup [OF W r(4) [folded e2(3)], unfolded o, OF assms(7,5,8) e2(2), folded sz] by (elim exE conjE) (rule that)
  have "\<exists>found. InternalGet opts P crc_Extend (env_read h2 e2) verify k t = Some (OK, found) \<and>
      (case first_from (InternalKeyCompare BytewiseCompare) k es of None \<Rightarrow> found = None
       | Some e \<Rightarrow> found = Some e \<or> found = None \<and> ExtractUserKey (fst e) \<noteq> ExtractUserKey k)" if "8 \<le> length k" for k verify
    using g [rule_format, OF that, of verify] by (cases "first_from (InternalKeyCompare BytewiseCompare) k es") auto
  with e(1) r(1) e2(1) t show ?thesis
    by (intro exI [of _ h] exI [of _ e] exI [of _ r] exI [of _ h2] exI [of _ e2] exI [of _ t] conjI allI impI)
qed

theorem table_get_witness:
  "\<exists>h e r h2 e2 t. NewWritableFile [116] new_env = Some (OK, Some h, e) \<and>
     write_table (db_options 4096 16 kSnappyCompression 1 (Some 10) True) port_without_libraries h
       [([97, 1, 5, 0, 0, 0, 0, 0, 0], [1]), ([98, 1, 7, 0, 0, 0, 0, 0, 0], [2]), ([98, 1, 5, 0, 0, 0, 0, 0, 0], [3])] e = (OK, r) \<and>
     NewRandomAccessFile [116] (tb_file r) = Some (OK, Some h2, e2) \<and>
     Table_Open (db_options 4096 16 kSnappyCompression 1 (Some 10) True) port_without_libraries crc_Extend (env_read h2 e2) (tb_FileSize r) = Some (Inr t) \<and>
     InternalGet (db_options 4096 16 kSnappyCompression 1 (Some 10) True) port_without_libraries crc_Extend (env_read h2 e2) True
       [98, 1, 6, 0, 0, 0, 0, 0, 0] t = Some (OK, Some ([98, 1, 5, 0, 0, 0, 0, 0, 0], [3]))"
proof -
  let ?c = "InternalKeyCompare BytewiseCompare" and ?k = "[98, 1, 6, 0, 0, 0, 0, 0, 0] :: slice"
  define es :: "(slice \<times> slice) list" where
    "es = [([97, 1, 5, 0, 0, 0, 0, 0, 0], [1]), ([98, 1, 7, 0, 0, 0, 0, 0, 0], [2]), ([98, 1, 5, 0, 0, 0, 0, 0, 0], [3])]"
  have s: "sorted_entries ?c (\<lambda>k. 8 \<le> length k) es" unfolding es_def sorted_entries_def by code_simp
  have f: "first_from ?c ?k es = Some ([98, 1, 5, 0, 0, 0, 0, 0, 0], [3])" unfolding es_def by code_simp
  have u: "ExtractUserKey [98, 1, 5, 0, 0, 0, 0, 0, 0] = ExtractUserKey ?k" by code_simp
  have l: "3 * entries_size 39 es + db_filter_cost (Some 10) * length es + 2 ^ 17 < 2 ^ 32" by (simp add: es_def db_filter_cost_def)
  have n: "\<not> FileExists [116] new_env" by (simp add: FileExists_def new_env_def)
  from table_get [of "[]" "[]" new_env "[116]", OF _ _ n no_libraries.compressor_axioms _ refl s l, of 16 4096 kSnappyCompression 1 True]
  obtain h e r h2 e2 t where
    t: "NewWritableFile [116] new_env = Some (OK, Some h, e)"
      "write_table (db_options 4096 16 kSnappyCompression 1 (Some 10) True) port_without_libraries h es e = (OK, r)"
      "NewRandomAccessFile [116] (tb_file r) = Some (OK, Some h2, e2)"
      "Table_Open (db_options 4096 16 kSnappyCompression 1 (Some 10) True) port_without_libraries crc_Extend (env_read h2 e2) (tb_FileSize r) = Some (Inr t)"
    and g: "\<And>k verify. 8 \<le> length k \<Longrightarrow> \<exists>found. InternalGet (db_options 4096 16 kSnappyCompression 1 (Some 10) True) port_without_libraries crc_Extend (env_read h2 e2) verify k t =
        Some (OK, found) \<and> (case first_from ?c k es of None \<Rightarrow> found = None
         | Some e \<Rightarrow> found = Some e \<or> found = None \<and> ExtractUserKey (fst e) \<noteq> ExtractUserKey k)"
    by auto
  from g [of ?k True] f u have "InternalGet (db_options 4096 16 kSnappyCompression 1 (Some 10) True) port_without_libraries crc_Extend (env_read h2 e2) True ?k t =
      Some (OK, Some ([98, 1, 5, 0, 0, 0, 0, 0, 0], [3]))" by auto
  with t show ?thesis unfolding es_def by blast
qed

end
