(* ===== verification/Spec2Isabelle.thy ===== *)
theory Spec2Isabelle
  imports CiLib Probe System ServerMain Placement FilterBlock WriteBatch TableFile
begin

text \<open>
  A verification development of TinyQuanta, a server that runs many short jobs per core and preempts
  them after a few microseconds by code that a compiler pass puts into them.

  \<^bold>\<open>The program.\<close> \<^verbatim>\<open>tq_server.cpp\<close> is the server: a dispatcher thread receives packets from the network
  card and sends them in chunks over rings to the worker threads with the fewest jobs; a worker starts
  a coroutine per packet, resumes its coroutines in turn for one quantum each, and sends the replies.
  The workers publish how many jobs they finished and how many quanta their running jobs had; the
  dispatcher reads these counters at a check-in. A quantum ends because the job was compiled with
  the pass \<^verbatim>\<open>CheapPreemptions/src/CheapPreemption.cpp\<close>, which puts probes into its code; a probe reads
  the cycle counter and calls a handler of \<^verbatim>\<open>CheapPreemptions/src/ci_lib.c\<close> when the quantum is over.
  Jobs are synthetic (\<^verbatim>\<open>fake_work_cp/\<close>) or calls of a key-value store; \<^verbatim>\<open>leveldb/\<close> is one that is compiled
  with the pass.

  \<^bold>\<open>The server.\<close>
  \<^item> \<open>Packet\<close>: message buffers, the header checks of a request (\<^verbatim>\<open>is_rx_mbuf_valid\<close>) and the reply
    (\<^verbatim>\<open>process_rx_mbuf\<close>). The reply passes the checks of the requester and echoes its payload.
  \<^item> \<open>Worker\<close>: the record \<open>worker\<close> holds the local variables of the function \<^verbatim>\<open>worker\<close>; \<open>worker_iter\<close> is one
    iteration with its four stages (run, dispatch, transmit, return), whose inputs are what the ring,
    the clock, the coroutine and the network card give. Errors (a full array, an empty container, a
    missing buffer) are values; the only one that can occur is the use of a transmit buffer that an
    exhausted pool did not give. Buffers are conserved, the published
    counters are right, scheduling is round robin, and no reply waits longer than the flush period.
  \<^item> \<open>Dispatcher\<close>: \<^verbatim>\<open>run_server\<close>, its priority queue of worker records (the locale \<open>prio_top\<close> states what
    \<^verbatim>\<open>std::priority_queue\<close> promises), dispatch and check-in. Chunks join the shortest queue, bursts are
    dispatched completely, and a check-in visits each worker once.
  \<^item> \<open>System\<close>: dispatcher and workers as the step relation \<open>sys_step\<close>, in which one chunk, one visited
    worker and one worker iteration interleave freely. Rule induction shows that the dispatcher's
    counts and all packets are accounted for in every reachable state, and how far the
    sizes of the pools suffice; buffers the code loses for good are counted.
  \<^item> \<open>ServerMain\<close>: command line, buffer pools, port set-up, stacks, the choice of the job, the synthetic
    work and the mutex wrapper of \<^verbatim>\<open>coro_pthread.c\<close>. The port set-up is compared with a script of
    driver calls that stops at the first failure.

  \<^bold>\<open>The compiler interrupts.\<close>
  \<^item> \<open>CiLib\<close>: the thread-local variables and calls of \<^verbatim>\<open>ci_lib.c\<close>.
  \<^item> \<open>Probe\<close>: what the emitted probes do at run time. A job yields within its quantum and the distance of
    two probes; the loop probe on the induction variable fires on the same iterations as a counter,
    over any number of entries of the loop, and the clone of a self loop is probed by the ranges it
    covers. The C \<^verbatim>\<open>int\<close>s of the pass are 32-bit words; that their arithmetic does not overflow is a
    hypothesis where it matters.
  \<^item> \<open>TopoSort\<close>, \<open>Placement\<close>: the topological sort and the choice of edges to probe (\<^verbatim>\<open>generateInst\<close>). Both
    loops end within as many rounds as there are edges; this is the fuel of their definitions, and
    the theorem is stated for that fuel. Afterwards no path without a probe is too long, except
    that an entry block which returns is not subject to the end-to-end bound. Costs are unbounded integers.

  \<^bold>\<open>The store.\<close>
  \<^item> \<open>Coding\<close>, \<open>Keys\<close>, \<open>Status\<close>, \<open>Rand\<close>: encodings, slices and internal keys with their orders (the locales
    \<open>codec\<close>, \<open>comparator\<close> and \<open>user_comparator\<close>), results, random numbers.
  \<^item> \<open>Crc\<close>, \<open>LogFile\<close>: the checksum, equal to bitwise polynomial division, and the write-ahead log, which
    is read back up to any point where it was cut off.
  \<^item> \<open>MemEnv\<close>, \<open>MemLog\<close>: the in-memory files on an explicit heap, where following a bad pointer is
    \<^term>\<open>None\<close>, as a refinement of byte sequences for all calls but two, whose faults are stated; the log on top of them, through the locale \<open>growing_file\<close>.
  \<^item> \<open>FilterBlock\<close>: hash, Bloom filter and filter blocks (the locale \<open>filter_policy\<close>), without false negatives.
  \<^item> \<open>SkipList\<close>, \<open>MemTable\<close>, \<open>WriteBatch\<close>: the table of recent writes. The loops over the skip list are
    partial functions, shown to return; the list refines a sorted list for every comparator of the
    locale \<open>key_order\<close>, lookups return the newest visible entry, and batches are atomic for snapshots.
  \<^item> \<open>Block\<close>: the blocks of a table, keys with shared prefixes and restart points. The iterator of a finished
    block refines a cursor over the entries added, for every order of the locale \<open>key_order\<close>.
  \<^item> \<open>TableFormat\<close>, \<open>TableBuild\<close>, \<open>TableRead\<close>, \<open>TableFile\<close>: handles, footer and block trailers; the builder
    with its data, filter, meta index and index blocks, over a file that may fail (the locale
    \<open>status_file\<close>) and a compression library (the locale \<open>compressor\<close>); opening a table and looking up a
    key, over the locale \<open>readable_file\<close>; and the round trip through a file of the in-memory environment,
    put together in the locales \<open>table_parts\<close> and \<open>table_world\<close>. The block cache, \<^verbatim>\<open>ChangeOptions\<close> and the
    two-level and merging iterators are left out.

  \<^bold>\<open>Parameters.\<close> Code that is not part of the repository is an argument: the top of a priority queue, the
  results of the network driver, of allocation and of system calls, the accelerated checksum, the
  compression library, the back edges LLVM reports. The numbers of keys of a filter block and of
  operations of a batch are taken to fit an \<^verbatim>\<open>int\<close>. Their laws are hypotheses or locale assumptions, and every locale is
  interpreted on the definitions of the model.

  \<^bold>\<open>Not modelled.\<close> The rewriting of LLVM code by the pass (insertion, unrolling, copying of blocks) is a sequence
  of calls of the LLVM library. The vendored RocksDB, the database layer of LevelDB (compaction,
  versions, recovery), the environments of operating systems, tests, benchmarks and scripts are left
  out; concurrency inside LevelDB (memory orders of the skip list, mutexes) is left out as well. Of the
  server, the variants that the default build does not select, thread pinning and printing are left out.
\<close>

end
